theory Spec2Isabelle
  imports Complex_Main "HOL-Library.Word" "HOL-Library.AList"
begin

unbundle bit_operations_syntax

chapter \<open>z80dismblr: a shallow embedding of the memory classes and the analysis passes\<close>

text \<open>
  JavaScript numbers that hold addresses, lengths and counters are modelled as \<open>int\<close>
  (the code only ever stores integers far below \<open>2^53\<close> in them), bytes of a
  \<open>Uint8Array\<close> as \<open>8 word\<close>, strings as \<open>string\<close> (one \<open>char\<close> per code unit;
  the files read are ASCII), an exception (a failed \<open>assert\<close>) as \<open>Inl\<close> of a sum.
  \<open>a & (MAX_MEM_SIZE-1)\<close> is \<open>a AND 65535\<close> on \<open>int\<close>.
\<close>

section \<open>Part I: the embedding\<close>

subsection \<open>\<open>src/basememory.ts\<close>\<close>

datatype error = AssertionError | UndefinedValue

definition MAX_MEM_SIZE :: int where
  "MAX_MEM_SIZE = 65536"

record BaseMemory =
  bm_memory :: "8 word list"
  bm_startAddress :: int
  bm_size :: int

text \<open>\<open>new BaseMemory(startAddress, size)\<close>: a zeroed \<open>Uint8Array(size)\<close>.\<close>

definition BaseMemory_new :: "int \<Rightarrow> int \<Rightarrow> BaseMemory" where
  "BaseMemory_new startAddress sz =
     \<lparr>bm_memory = replicate (nat sz) 0, bm_startAddress = startAddress, bm_size = sz\<rparr>"

text \<open>\<open>setValueAtIndex\<close>: a typed array ignores a write outside its bounds and
  keeps the low eight bits of the number stored.\<close>

definition BaseMemory_setValueAtIndex :: "BaseMemory \<Rightarrow> int \<Rightarrow> int \<Rightarrow> BaseMemory" where
  "BaseMemory_setValueAtIndex m index v =
     (if 0 \<le> index \<and> nat index < length (bm_memory m)
      then m\<lparr>bm_memory := (bm_memory m)[nat index := word_of_int v]\<rparr>
      else m)"

text \<open>\<open>getValueAt\<close>: the address is masked, the two \<open>assert\<close>s throw; a read past the
  end of the typed array (possible only when \<open>size\<close> is not the array's length) yields
  \<open>undefined\<close>.\<close>

definition BaseMemory_getValueAt :: "BaseMemory \<Rightarrow> int \<Rightarrow> error + 8 word" where
  "BaseMemory_getValueAt m address0 =
     (let address = address0 AND (MAX_MEM_SIZE - 1);
          index = address - bm_startAddress m
      in if \<not> index \<ge> 0 then Inl AssertionError
         else if \<not> index < bm_size m then Inl AssertionError
         else if nat index < length (bm_memory m) then Inr (bm_memory m ! nat index)
         else Inl UndefinedValue)"

definition BaseMemory_getWordValueAt :: "BaseMemory \<Rightarrow> int \<Rightarrow> error + int" where
  "BaseMemory_getWordValueAt m address =
     (case BaseMemory_getValueAt m address of
        Inl e \<Rightarrow> Inl e
      | Inr lo \<Rightarrow>
          (case BaseMemory_getValueAt m (address + 1) of
             Inl e \<Rightarrow> Inl e
           | Inr hi \<Rightarrow> Inr (uint lo + 256 * uint hi)))"

definition BaseMemory_getBigEndianWordValueAt :: "BaseMemory \<Rightarrow> int \<Rightarrow> error + int" where
  "BaseMemory_getBigEndianWordValueAt m address =
     (case BaseMemory_getValueAt m address of
        Inl e \<Rightarrow> Inl e
      | Inr hi \<Rightarrow>
          (case BaseMemory_getValueAt m (address + 1) of
             Inl e \<Rightarrow> Inl e
           | Inr lo \<Rightarrow> Inr (256 * uint hi + uint lo)))"

subsection \<open>\<open>src/memory.ts\<close>\<close>

datatype MemAttribute = UNUSED | ASSIGNED_MEM

text \<open>Both arrays have \<open>MAX_MEM_SIZE\<close> entries and every index used is masked, so each
  array is a function on the masked address.\<close>

record Memory =
  mem_memory :: "int \<Rightarrow> 8 word"
  mem_memoryAttr :: "int \<Rightarrow> MemAttribute"

definition Memory_new :: Memory where
  "Memory_new = \<lparr>mem_memory = (\<lambda>i. 0), mem_memoryAttr = (\<lambda>i. UNUSED)\<rparr>"

fun Memory_setMemory_loop :: "int \<Rightarrow> 8 word list \<Rightarrow> nat \<Rightarrow> Memory \<Rightarrow> Memory" where
  "Memory_setMemory_loop origin [] i m = m"
| "Memory_setMemory_loop origin (b # bs) i m =
     (let addr = (origin + int i) AND (MAX_MEM_SIZE - 1)
      in Memory_setMemory_loop origin bs (Suc i)
           (m\<lparr>mem_memory := (mem_memory m)(addr := b),
              mem_memoryAttr := (mem_memoryAttr m)(addr := ASSIGNED_MEM)\<rparr>))"

definition Memory_setMemory :: "Memory \<Rightarrow> int \<Rightarrow> 8 word list \<Rightarrow> Memory" where
  "Memory_setMemory m origin bytes = Memory_setMemory_loop origin bytes 0 m"

definition Memory_getValueAt :: "Memory \<Rightarrow> int \<Rightarrow> 8 word" where
  "Memory_getValueAt m address = mem_memory m (address AND (MAX_MEM_SIZE - 1))"

text \<open>\<open>getWordValueAt\<close> as written in \<open>memory.ts\<close>:
  \<^verbatim>\<open>this.memory[address&(MAX_MEM_SIZE-1)] * 256*this.memory[address&(MAX_MEM_SIZE-1)]\<close>.\<close>

definition Memory_getWordValueAt :: "Memory \<Rightarrow> int \<Rightarrow> int" where
  "Memory_getWordValueAt m address =
     uint (mem_memory m (address AND (MAX_MEM_SIZE - 1))) * 256
       * uint (mem_memory m (address AND (MAX_MEM_SIZE - 1)))"

subsection \<open>\<open>src/disassembler/disasm.ts\<close>: the data\<close>

text \<open>\<open>NumberType\<close> (declared at the end of the same source file): an enum whose
  numeric value is the priority.\<close>

datatype NumberType =
    NONE | CODE_LOCAL_LBL | CODE_LOCAL_LOOP | CODE_LBL | CODE_SUB | CODE_RST
  | RELATIVE_INDEX | NUMBER_BYTE | NUMBER_WORD | NUMBER_WORD_BIG_ENDIAN | DATA_LBL | PORT_LBL

fun NumberType_rank :: "NumberType \<Rightarrow> nat" where
  "NumberType_rank NONE = 0"
| "NumberType_rank CODE_LOCAL_LBL = 1"
| "NumberType_rank CODE_LOCAL_LOOP = 2"
| "NumberType_rank CODE_LBL = 3"
| "NumberType_rank CODE_SUB = 4"
| "NumberType_rank CODE_RST = 5"
| "NumberType_rank RELATIVE_INDEX = 6"
| "NumberType_rank NUMBER_BYTE = 7"
| "NumberType_rank NUMBER_WORD = 8"
| "NumberType_rank NUMBER_WORD_BIG_ENDIAN = 9"
| "NumberType_rank DATA_LBL = 10"
| "NumberType_rank PORT_LBL = 11"

text \<open>Modelled from the spec: the flags of the disassembler's own \<open>Memory\<close> class
  (\<open>disassembler/memory.ts\<close> is not among the sources). A byte's attribute is a bitwise
  union of flags, here the set of the flags that are on; \<open>attr & F\<close> is \<open>F \<in> attr\<close>.\<close>

datatype MemAttr = ASSIGNED | CODE | CODE_FIRST | DATA

text \<open>Modelled from the spec: \<open>OpcodeFlag\<close> and the instruction record of \<open>opcode.ts\<close>
  (not among the sources). The fields are those \<open>disasm.ts\<close> reads: \<open>name\<close>, \<open>length\<close>,
  \<open>flags\<close>, \<open>value\<close>, \<open>valueType\<close>. The decoder \<open>Opcode.getOpcodeAt(this.memory, address)\<close>
  is a parameter \<open>getOpcodeAt :: int \<Rightarrow> Opcode\<close> of every pass: the memory bytes do not
  change during the analysis.\<close>

datatype OpcodeFlag = BRANCH_ADDRESS | CALL | STOP

record Opcode =
  op_name :: string
  op_length :: int
  op_flags :: "OpcodeFlag set"
  op_value :: int
  op_valueType :: NumberType

text \<open>Modelled from the spec: \<open>DisLabel\<close> of \<open>dislabel.ts\<close> (not among the sources).
  \<open>references\<close> is a JavaScript \<open>Set\<close>: a duplicate-free list in insertion order. A label
  is known by the address it is stored under, so \<open>calls\<close> holds addresses. The name is
  \<open>undefined\<close> until one is assigned.\<close>

record DisLabel =
  lbl_type :: NumberType
  lbl_name :: "string option"
  references :: "int list"
  calls :: "int list"
  isEqu :: bool
  isFixed :: bool
  belongsToInterrupt :: bool

definition DisLabel_new :: "NumberType \<Rightarrow> DisLabel" where
  "DisLabel_new t =
     \<lparr>lbl_type = t, lbl_name = None, references = [], calls = [],
      isEqu = False, isFixed = False, belongsToInterrupt = False\<rparr>"

definition Set_add :: "'a \<Rightarrow> 'a list \<Rightarrow> 'a list" where
  "Set_add x xs = (if x \<in> set xs then xs else xs @ [x])"

record SubroutineStatistics =
  sizeInBytes :: int
  countOfInstructions :: int
  CyclomaticComplexity :: int

text \<open>The fields of \<open>Disassembler\<close> that the modelled passes touch. A JavaScript \<open>Map\<close>
  is an association list in insertion order (\<open>map_of\<close> reads it, \<open>AList.update\<close> is
  \<open>Map.set\<close>: in place for a key that is there, at the end for a new one, and
  \<open>AList.delete\<close> is \<open>Map.delete\<close>). \<open>memoryAttr\<close> is the attribute array of
  \<open>this.memory\<close>. \<open>subroutineStatistics\<close> is keyed by the label, that is by its address.
  \<open>events\<close> records what \<open>this.emit\<close> has sent, oldest first.\<close>

record Disassembler =
  memoryAttr :: "int \<Rightarrow> MemAttr set"
  labels :: "(int \<times> DisLabel) list"
  offsetLabels :: "(int \<times> int) list"
  addressQueue :: "int list"
  subroutineStatistics :: "(int \<times> SubroutineStatistics) list"
  statisticsMax :: SubroutineStatistics
  statisticsMin :: SubroutineStatistics
  disassembledLines :: "string list option"
  snaStartAddress :: int
  labelIntrptPrefix :: string
  events :: "(string \<times> string) list"

definition emit :: "string \<Rightarrow> string \<Rightarrow> Disassembler \<Rightarrow> Disassembler" where
  "emit ev msg s = s\<lparr>events := events s @ [(ev, msg)]\<rparr>"

text \<open>Modelled from the spec: \<open>Memory.getAttributeAt\<close> and \<open>Memory.addAttributeAt\<close> of
  \<open>disassembler/memory.ts\<close> (\<open>attribute(addr)\<close> and \<open>or_attribute(addr, len, flags)\<close>;
  all addresses are masked to 16 bits).\<close>

definition getAttributeAt :: "Disassembler \<Rightarrow> int \<Rightarrow> MemAttr set" where
  "getAttributeAt s address = memoryAttr s (address AND (MAX_MEM_SIZE - 1))"

definition addAttributeAt :: "int \<Rightarrow> int \<Rightarrow> MemAttr set \<Rightarrow> Disassembler \<Rightarrow> Disassembler" where
  "addAttributeAt address len attr s =
     s\<lparr>memoryAttr := (\<lambda>i. if i \<in> (\<lambda>k. (address + k) AND (MAX_MEM_SIZE - 1)) ` {0 ..< len}
                           then memoryAttr s i \<union> attr else memoryAttr s i)\<rparr>"

subsection \<open>Numbers as text\<close>

definition digitChar :: "nat \<Rightarrow> char" where
  "digitChar d = ''0123456789abcdefghijklmnopqrstuvwxyz'' ! d"

function natToString :: "nat \<Rightarrow> nat \<Rightarrow> string" where
  "natToString radix n =
     (if radix < 2 \<or> n < radix then [digitChar n]
      else natToString radix (n div radix) @ [digitChar (n mod radix)])"
  by pat_completeness auto
termination
  by (relation "measure (\<lambda>(radix, n). n)") auto

declare natToString.simps [simp del]

text \<open>\<open>x.toString(radix)\<close> of an integer, for the radices 10 and 16 the code uses.\<close>

definition Number_toString :: "int \<Rightarrow> nat \<Rightarrow> string" where
  "Number_toString x radix =
     (if x < 0 then CHR ''-'' # natToString radix (nat (- x)) else natToString radix (nat x))"

text \<open>A label's name in a string concatenation: \<open>undefined\<close> prints as such.\<close>

definition nameString :: "DisLabel \<Rightarrow> string" where
  "nameString l = (case lbl_name l of None \<Rightarrow> ''undefined'' | Some n \<Rightarrow> n)"

subsection \<open>\<open>setFoundLabel\<close>\<close>

definition setFoundLabel ::
  "int \<Rightarrow> int list \<Rightarrow> NumberType \<Rightarrow> MemAttr set \<Rightarrow> Disassembler \<Rightarrow> Disassembler" where
  "setFoundLabel address referenceAddresses t attr s =
     (let label0 =
            (case map_of (labels s) address of
               Some label \<Rightarrow>
                 (if NumberType_rank (lbl_type label) < NumberType_rank t
                  then label\<lparr>lbl_type := t\<rparr> else label)
             | None \<Rightarrow>
                 (if ASSIGNED \<notin> attr then (DisLabel_new t)\<lparr>isEqu := True\<rparr>
                  else DisLabel_new t));
          refs = fold (\<lambda>ref rs. if ref \<noteq> address then Set_add ref rs else rs)
                   referenceAddresses (references label0)
      in s\<lparr>labels := AList.update address (label0\<lparr>references := refs\<rparr>) (labels s)\<rparr>)"

text \<open>The field initialisers of the class.\<close>

definition MAX_SAFE_INTEGER :: int where
  "MAX_SAFE_INTEGER = 9007199254740991"

definition Disassembler_new :: Disassembler where
  "Disassembler_new =
     \<lparr>memoryAttr = (\<lambda>i. {}), labels = [], offsetLabels = [], addressQueue = [],
      subroutineStatistics = [],
      statisticsMax = \<lparr>sizeInBytes = 0, countOfInstructions = 0, CyclomaticComplexity = 0\<rparr>,
      statisticsMin = \<lparr>sizeInBytes = MAX_SAFE_INTEGER, countOfInstructions = MAX_SAFE_INTEGER,
                       CyclomaticComplexity = MAX_SAFE_INTEGER\<rparr>,
      disassembledLines = None, snaStartAddress = - 1, labelIntrptPrefix = ''INTRPT'',
      events = []\<rparr>"

text \<open>Modelled from the spec: \<open>Memory.setMemory\<close> of \<open>disassembler/memory.ts\<close>, as far
  as the attributes go (\<open>set_bytes(origin, bytes)\<close> marks each byte \<open>ASSIGNED\<close>).\<close>

definition setMemory :: "int \<Rightarrow> int \<Rightarrow> Disassembler \<Rightarrow> Disassembler" where
  "setMemory origin len s = addAttributeAt origin len {ASSIGNED} s"

subsection \<open>\<open>setLabel\<close> and \<open>setFixedCodeLabel\<close>\<close>

text \<open>The two methods that create a label for a given address. Both store a new label
  (replacing one that is there), set its name (which may be \<open>undefined\<close>), then read the
  attribute of the address: an assigned address is queued for pass 1 (by \<open>setLabel\<close> only
  for the code types), an unassigned one makes the label an \<open>EQU\<close>.\<close>

definition setLabel :: "int \<Rightarrow> string option \<Rightarrow> NumberType \<Rightarrow> Disassembler \<Rightarrow> Disassembler" where
  "setLabel address name t s =
     (let label = (DisLabel_new t)\<lparr>lbl_name := name\<rparr>;
          s1 = s\<lparr>labels := AList.update address label (labels s)\<rparr>;
          attr = getAttributeAt s1 address
      in if ASSIGNED \<in> attr then
           (if t = CODE_LBL \<or> t = CODE_LOCAL_LBL \<or> t = CODE_LOCAL_LOOP \<or> t = CODE_RST
               \<or> t = CODE_SUB
            then s1\<lparr>addressQueue := addressQueue s1 @ [address]\<rparr>
            else s1)
         else s1\<lparr>labels := AList.update address (label\<lparr>isEqu := True\<rparr>) (labels s1)\<rparr>)"

definition setFixedCodeLabel :: "int \<Rightarrow> string option \<Rightarrow> Disassembler \<Rightarrow> Disassembler" where
  "setFixedCodeLabel address name s =
     (let label = (DisLabel_new CODE_LBL)\<lparr>lbl_name := name\<rparr>;
          s1 = s\<lparr>labels := AList.update address label (labels s)\<rparr>;
          attr = getAttributeAt s1 address;
          (label2, s2) =
            (if ASSIGNED \<in> attr
             then (label, s1\<lparr>addressQueue := addressQueue s1 @ [address]\<rparr>)
             else (label\<lparr>isEqu := True\<rparr>, s1))
      in s2\<lparr>labels := AList.update address (label2\<lparr>isFixed := True\<rparr>) (labels s2)\<rparr>)"

text \<open>What these methods and \<open>setFoundLabel\<close> establish for every label they store: a
  label at an address that is not assigned is an \<open>EQU\<close>, and no label is among its own
  referrers.\<close>

definition labelsConsistent :: "Disassembler \<Rightarrow> bool" where
  "labelsConsistent s =
     (\<forall>address label. map_of (labels s) address = Some label \<longrightarrow>
        (ASSIGNED \<notin> getAttributeAt s address \<longrightarrow> isEqu label)
        \<and> address \<notin> set (references label))"

subsection \<open>\<open>getDisassembly\<close>\<close>

fun join :: "string \<Rightarrow> string list \<Rightarrow> string" where
  "join sep [] = []"
| "join sep [x] = x"
| "join sep (x # y # ys) = x @ sep @ join sep (y # ys)"

text \<open>\<open>disassembledLines\<close> is \<open>undefined\<close> (\<open>None\<close>) until \<open>disassemble\<close> has set it; an
  array, even an empty one, is truthy.\<close>

definition getDisassembly :: "Disassembler \<Rightarrow> string \<times> Disassembler" where
  "getDisassembly s =
     (case disassembledLines s of
        None \<Rightarrow> ([], emit ''warning'' ''No disassembly was done.'' s)
      | Some ls \<Rightarrow> (join [CHR 0x0A] ls, s))"

subsection \<open>Pass 1: \<open>collectLabels\<close> and \<open>disassembleForLabel\<close>\<close>

text \<open>Both searches for the start of an opcode step backwards from the address, one
  byte at a time, and \<open>assert\<close> that the distance stays within 4: the distances 1, 2, 3, 4
  are tried in this order and the fifth step throws.\<close>

definition findOpcodeStart :: "Disassembler \<Rightarrow> int \<Rightarrow> error + int" where
  "findOpcodeStart s address =
     (case List.find (\<lambda>d. CODE_FIRST \<in> getAttributeAt s (address - d)) [1, 2, 3, 4] of
        None \<Rightarrow> Inl AssertionError
      | Some d \<Rightarrow> Inr (address - d))"

definition dquote :: string where
  "dquote = [CHR 0x22]"

text \<open>The texts of the three \<open>'warning'\<close> events of pass 1.\<close>

definition unassignedWarning :: "int \<Rightarrow> string" where
  "unassignedWarning address =
     ''Trying to disassemble unassigned memory area at 0x'' @ Number_toString address 16 @ ''.''"

definition ambiguousOpcodeWarning :: "string \<Rightarrow> int \<Rightarrow> int \<Rightarrow> string \<Rightarrow> string" where
  "ambiguousOpcodeWarning opcodeName address memAddress otherOpcodeName =
     ''Aborting disassembly: Ambiguous disassembly: Trying to disassemble opcode ''
     @ dquote @ opcodeName @ dquote @ '' at address 0x'' @ Number_toString address 16
     @ '' but address 0x'' @ Number_toString memAddress 16 @ '' alrady contains opcode ''
     @ dquote @ otherOpcodeName @ dquote @ ''.''"

definition ambiguousBranchWarning :: "string \<Rightarrow> int \<Rightarrow> string \<Rightarrow> int \<Rightarrow> string" where
  "ambiguousBranchWarning opcodeName opcodeAddress branchOpcodeName branchOpcodeAddress =
     ''Aborting disassembly: Ambiguous disassembly: encountered branch instruction into the middle of an opcode. Opcode ''
     @ dquote @ opcodeName @ dquote @ '' at address 0x'' @ Number_toString opcodeAddress 16
     @ '' would branch into '' @ dquote @ branchOpcodeName @ dquote @ '' at address 0x''
     @ Number_toString branchOpcodeAddress 16 @ ''.''"

definition disassembleForLabel ::
  "(int \<Rightarrow> Opcode) \<Rightarrow> int \<Rightarrow> Opcode \<Rightarrow> Disassembler \<Rightarrow> error + (bool \<times> Disassembler)" where
  "disassembleForLabel getOpcodeAt opcodeAddress opcode s =
     (if BRANCH_ADDRESS \<in> op_flags opcode then
        (let branchAddress = op_value opcode;
             attr = getAttributeAt s branchAddress;
             vType0 = op_valueType opcode;
             vType =
               (if vType0 = CODE_LOCAL_LBL then
                  (if branchAddress \<le> opcodeAddress then CODE_LOCAL_LOOP else vType0)
                else if vType0 = CODE_LBL then
                  (if ASSIGNED \<notin> attr then CODE_SUB else vType0)
                else vType0);
             s1 = setFoundLabel branchAddress [opcodeAddress] vType attr s
         in if CODE \<in> attr then
              (if CODE_FIRST \<notin> attr then
                 (case findOpcodeStart s1 branchAddress of
                    Inl e \<Rightarrow> Inl e
                  | Inr branchOpcodeAddress \<Rightarrow>
                      (let branchOpcode = getOpcodeAt branchOpcodeAddress
                       in Inr (False,
                            emit ''warning''
                              (ambiguousBranchWarning (op_name opcode) opcodeAddress
                                 (op_name branchOpcode) branchOpcodeAddress) s1)))
               else Inr (True, s1))
            else
              (if ASSIGNED \<in> attr
               then Inr (True, s1\<lparr>addressQueue := addressQueue s1 @ [branchAddress]\<rparr>)
               else Inr (True, s1)))
      else if op_valueType opcode = DATA_LBL then
        (let address = op_value opcode;
             attr = getAttributeAt s address
         in Inr (True, setFoundLabel address [opcodeAddress] (op_valueType opcode) attr s))
      else Inr (True, s))"

text \<open>One pass through the body of the inner \<open>do ... while\<close> of \<open>collectLabels\<close>, at
  \<open>address\<close>: the trace ends (a \<open>break\<close>, or the \<open>STOP\<close> flag), \<open>collectLabels\<close> returns
  (the two ambiguity aborts), the loop goes on at the next address, or an \<open>assert\<close>
  throws.\<close>

datatype stepResult =
    TraceEnds Disassembler
  | Aborts Disassembler
  | Continues int Disassembler
  | Throws error

definition collectLabels_step :: "(int \<Rightarrow> Opcode) \<Rightarrow> int \<Rightarrow> Disassembler \<Rightarrow> stepResult" where
  "collectLabels_step getOpcodeAt address s =
     (let attr = getAttributeAt s address
      in if CODE \<in> attr then TraceEnds s
         else if ASSIGNED \<notin> attr then
           TraceEnds (emit ''warning'' (unassignedWarning address) s)
         else
           (let opcode = getOpcodeAt address;
                len = op_length opcode
            in case List.find (\<lambda>i. CODE \<in> getAttributeAt s (address + i)) [1 .. len - 1] of
                 Some i \<Rightarrow>
                   (let memAddress = address + i;
                        attr1 = getAttributeAt s memAddress
                    in if CODE_FIRST \<notin> attr1 then Throws AssertionError
                       else
                         (let otherOpcode = getOpcodeAt memAddress
                          in Aborts (emit ''warning''
                               (ambiguousOpcodeWarning (op_name opcode) address
                                  memAddress (op_name otherOpcode)) s)))
               | None \<Rightarrow>
                   (let s1 = addAttributeAt address 1 {CODE_FIRST} s;
                        s2 = addAttributeAt address (op_length opcode) {CODE} s1
                    in case disassembleForLabel getOpcodeAt address opcode s2 of
                         Inl e \<Rightarrow> Throws e
                       | Inr (ok, s3) \<Rightarrow>
                           (if \<not> ok then Aborts s3
                            else if STOP \<in> op_flags opcode then TraceEnds s3
                            else Continues (address + op_length opcode) s3))))"

text \<open>The inner loop, from \<open>address\<close>. The first argument bounds the number of
  iterations; \<open>None\<close> means the bound was too small.\<close>

fun collectLabels_trace ::
  "nat \<Rightarrow> (int \<Rightarrow> Opcode) \<Rightarrow> int \<Rightarrow> Disassembler \<Rightarrow> stepResult option" where
  "collectLabels_trace 0 getOpcodeAt address s = None"
| "collectLabels_trace (Suc n) getOpcodeAt address s =
     (case collectLabels_step getOpcodeAt address s of
        Continues address' s' \<Rightarrow> collectLabels_trace n getOpcodeAt address' s'
      | r \<Rightarrow> Some r)"

text \<open>The outer \<open>while\<close>: \<open>shift\<close> takes the head of the queue. The result is the state
  in which \<open>collectLabels\<close> returns, or the exception it throws.\<close>

fun collectLabels ::
  "nat \<Rightarrow> (int \<Rightarrow> Opcode) \<Rightarrow> Disassembler \<Rightarrow> (error + Disassembler) option" where
  "collectLabels 0 getOpcodeAt s = None"
| "collectLabels (Suc n) getOpcodeAt s =
     (case addressQueue s of
        [] \<Rightarrow> Some (Inr s)
      | address # rest \<Rightarrow>
          (case collectLabels_trace n getOpcodeAt address (s\<lparr>addressQueue := rest\<rparr>) of
             None \<Rightarrow> None
           | Some (TraceEnds s') \<Rightarrow> collectLabels n getOpcodeAt s'
           | Some (Aborts s') \<Rightarrow> Some (Inr s')
           | Some (Continues a s') \<Rightarrow> None
           | Some (Throws e) \<Rightarrow> Some (Inl e)))"

text \<open>The run of \<open>collectLabels\<close> as the sequence of its passes through the body of the
  inner loop. \<open>collectLabels_start\<close> is the \<open>shift\<close> of the outer loop; \<open>collectLabels_next\<close>
  leads from one pass through the body to the next: on within the trace, on to the next
  queue entry when the trace has ended, and nowhere once \<open>collectLabels\<close> has returned or
  thrown. \<open>collectLabels_body k\<close> is the address and the state at the \<open>k\<close>-th entry into the
  body, counted from 0, and \<open>None\<close> when the run is over before. \<open>collectLabels_from\<close> is
  \<open>collectLabels\<close> from inside the inner loop.\<close>

definition collectLabels_start :: "Disassembler \<Rightarrow> (int \<times> Disassembler) option" where
  "collectLabels_start s =
     (case addressQueue s of
        [] \<Rightarrow> None
      | address # rest \<Rightarrow> Some (address, s\<lparr>addressQueue := rest\<rparr>))"

definition collectLabels_next ::
  "(int \<Rightarrow> Opcode) \<Rightarrow> int \<times> Disassembler \<Rightarrow> (int \<times> Disassembler) option" where
  "collectLabels_next getOpcodeAt c =
     (case c of (address, s) \<Rightarrow>
        (case collectLabels_step getOpcodeAt address s of
           Continues address' s' \<Rightarrow> Some (address', s')
         | TraceEnds s' \<Rightarrow> collectLabels_start s'
         | Aborts s' \<Rightarrow> None
         | Throws e \<Rightarrow> None))"

fun collectLabels_after ::
  "nat \<Rightarrow> (int \<Rightarrow> Opcode) \<Rightarrow> int \<times> Disassembler \<Rightarrow> (int \<times> Disassembler) option" where
  "collectLabels_after 0 getOpcodeAt c = Some c"
| "collectLabels_after (Suc k) getOpcodeAt c =
     (case collectLabels_next getOpcodeAt c of
        None \<Rightarrow> None
      | Some c' \<Rightarrow> collectLabels_after k getOpcodeAt c')"

definition collectLabels_body ::
  "nat \<Rightarrow> (int \<Rightarrow> Opcode) \<Rightarrow> Disassembler \<Rightarrow> (int \<times> Disassembler) option" where
  "collectLabels_body k getOpcodeAt s =
     (case collectLabels_start s of
        None \<Rightarrow> None
      | Some c \<Rightarrow> collectLabels_after k getOpcodeAt c)"

definition collectLabels_from ::
  "nat \<Rightarrow> (int \<Rightarrow> Opcode) \<Rightarrow> int \<Rightarrow> Disassembler \<Rightarrow> (error + Disassembler) option" where
  "collectLabels_from n getOpcodeAt address s =
     (case collectLabels_trace n getOpcodeAt address s of
        None \<Rightarrow> None
      | Some (TraceEnds s') \<Rightarrow> collectLabels n getOpcodeAt s'
      | Some (Aborts s') \<Rightarrow> Some (Inr s')
      | Some (Continues a s') \<Rightarrow> None
      | Some (Throws e) \<Rightarrow> Some (Inl e))"

subsection \<open>Pass 2: \<open>findInterruptLabels\<close>, and the start of \<open>disassemble\<close>\<close>

text \<open>The body of the loop over all addresses: its state is \<open>prevAttr\<close>, \<open>prevCodeAddr\<close>,
  the array \<open>foundInterrupts\<close> and the disassembler.\<close>

definition findInterruptLabels_body ::
  "(int \<Rightarrow> Opcode) \<Rightarrow> int \<Rightarrow> MemAttr set \<times> int \<times> int list \<times> Disassembler
     \<Rightarrow> MemAttr set \<times> int \<times> int list \<times> Disassembler" where
  "findInterruptLabels_body getOpcodeAt address st =
     (case st of (prevAttr, prevCodeAddr, foundInterrupts, s) \<Rightarrow>
        (let memAttr = getAttributeAt s address;
             (foundInterrupts1, s1) =
               (if address \<noteq> snaStartAddress s then
                  (if CODE_FIRST \<in> memAttr \<and> ASSIGNED \<in> memAttr then
                     (case map_of (labels s) address of
                        Some label \<Rightarrow> (foundInterrupts, s)
                      | None \<Rightarrow>
                          (if ASSIGNED \<notin> prevAttr \<or> CODE \<notin> prevAttr then
                             (if address \<noteq> snaStartAddress s
                              then (foundInterrupts @ [address],
                                    setFixedCodeLabel address (Some (labelIntrptPrefix s)) s)
                              else (foundInterrupts, s))
                           else if prevCodeAddr \<ge> 0 then
                             (if STOP \<in> op_flags (getOpcodeAt prevCodeAddr)
                              then (foundInterrupts @ [address],
                                    setFixedCodeLabel address (Some (labelIntrptPrefix s)) s)
                              else (foundInterrupts, s))
                           else (foundInterrupts, s)))
                   else (foundInterrupts, s))
                else (foundInterrupts, s));
             prevCodeAddr1 = (if CODE \<notin> memAttr then - 1 else prevCodeAddr);
             prevCodeAddr2 = (if CODE_FIRST \<in> memAttr then address else prevCodeAddr1)
         in (memAttr, prevCodeAddr2, foundInterrupts1, s1)))"

text \<open>The second loop, which numbers the labels found: \<open>label.name += index+1\<close> appends
  the decimal number to a name that is a string, and makes an \<open>undefined\<close> name \<open>NaN\<close>.\<close>

fun findInterruptLabels_number :: "int list \<Rightarrow> nat \<Rightarrow> Disassembler \<Rightarrow> error + Disassembler" where
  "findInterruptLabels_number [] index s = Inr s"
| "findInterruptLabels_number (addr # rest) index s =
     (case map_of (labels s) addr of
        None \<Rightarrow> Inl AssertionError
      | Some label \<Rightarrow>
          findInterruptLabels_number rest (Suc index)
            (s\<lparr>labels := AList.update addr
                  (label\<lparr>lbl_name :=
                     (case lbl_name label of
                        None \<Rightarrow> Some ''NaN''
                      | Some name \<Rightarrow> Some (name @ Number_toString (int index + 1) 10))\<rparr>)
                  (labels s)\<rparr>))"

definition findInterruptLabels :: "(int \<Rightarrow> Opcode) \<Rightarrow> Disassembler \<Rightarrow> error + Disassembler" where
  "findInterruptLabels getOpcodeAt s =
     (case fold (findInterruptLabels_body getOpcodeAt) [0 .. MAX_MEM_SIZE - 1] ({}, - 1, [], s) of
        (prevAttr, prevCodeAddr, foundInterrupts, s1) \<Rightarrow>
          (if length foundInterrupts > 1 then findInterruptLabels_number foundInterrupts 0 s1
           else Inr s1))"

text \<open>The first two statements of \<open>disassemble()\<close>. \<open>collectLabels()\<close> returns nothing that
  \<open>disassemble()\<close> looks at, so \<open>findInterruptLabels()\<close> runs in whatever state
  \<open>collectLabels()\<close> has returned, and so do the passes after it.\<close>

definition disassemble_first_passes ::
  "nat \<Rightarrow> (int \<Rightarrow> Opcode) \<Rightarrow> Disassembler \<Rightarrow> (error + Disassembler) option" where
  "disassemble_first_passes fuel getOpcodeAt s =
     (case collectLabels fuel getOpcodeAt s of
        None \<Rightarrow> None
      | Some (Inl e) \<Rightarrow> Some (Inl e)
      | Some (Inr s1) \<Rightarrow> Some (findInterruptLabels getOpcodeAt s1))"

subsection \<open>Pass 5: \<open>adjustSelfModifyingLabels\<close> and the convert-to-label hook\<close>

text \<open>The first loop: the entries to change, in the order of the labels.\<close>

definition selfModifyingChangeMap :: "Disassembler \<Rightarrow> (int \<times> DisLabel) list" where
  "selfModifyingChangeMap s =
     fold (\<lambda>(address, label) changeMap.
             if lbl_type label = DATA_LBL \<and> CODE \<in> getAttributeAt s address
                \<and> CODE_FIRST \<notin> getAttributeAt s address
             then AList.update address label changeMap else changeMap)
       (labels s) []"

text \<open>The body of the second loop, for one entry of the change map.\<close>

definition adjustSelfModifyingLabel :: "int \<times> DisLabel \<Rightarrow> Disassembler \<Rightarrow> error + Disassembler" where
  "adjustSelfModifyingLabel entry s =
     (case entry of (address, label) \<Rightarrow>
        (case findOpcodeStart s address of
           Inl e \<Rightarrow> Inl e
         | Inr addrStart \<Rightarrow>
             (let attr = getAttributeAt s addrStart;
                  s1 = setFoundLabel addrStart (references label) (lbl_type label) attr s;
                  s2 = s1\<lparr>labels := AList.delete address (labels s1)\<rparr>;
                  offs = addrStart - address
              in Inr (s2\<lparr>offsetLabels := AList.update address offs (offsetLabels s2)\<rparr>))))"

fun adjustSelfModifyingLabels_loop ::
  "(int \<times> DisLabel) list \<Rightarrow> Disassembler \<Rightarrow> error + Disassembler" where
  "adjustSelfModifyingLabels_loop [] s = Inr s"
| "adjustSelfModifyingLabels_loop (entry # changeMap) s =
     (case adjustSelfModifyingLabel entry s of
        Inl e \<Rightarrow> Inl e
      | Inr s' \<Rightarrow> adjustSelfModifyingLabels_loop changeMap s')"

definition adjustSelfModifyingLabels :: "Disassembler \<Rightarrow> error + Disassembler" where
  "adjustSelfModifyingLabels s = adjustSelfModifyingLabels_loop (selfModifyingChangeMap s) s"

text \<open>The handler the constructor installs with \<open>Opcode.setConvertToLabelHandler\<close>:
  the name for an immediate value, or \<open>undefined\<close> (\<open>None\<close>). An offset of 0 is falsy.\<close>

definition convertToLabel :: "Disassembler \<Rightarrow> int \<Rightarrow> string option" where
  "convertToLabel s v =
     (case map_of (labels s) v of
        Some label \<Rightarrow> Some (nameString label @ [])
      | None \<Rightarrow>
          (case map_of (offsetLabels s) v of
             None \<Rightarrow> None
           | Some offs \<Rightarrow>
               (if offs = 0 then None
                else
                  (case map_of (labels s) (v + offs) of
                     None \<Rightarrow> None
                   | Some label \<Rightarrow>
                       Some (nameString label
                             @ (if offs > 0 then [] @ Number_toString (- offs) 10
                                else ''+'' @ Number_toString (- offs) 10))))))"

text \<open>The shape of the code attributes the spec's data model requires: a byte that is
  \<open>CODE\<close> but not \<open>CODE_FIRST\<close> continues an instruction, so the byte before it is
  \<open>CODE\<close> and an instruction starts at most 4 bytes before it.\<close>

definition codeRunsWellFormed :: "Disassembler \<Rightarrow> bool" where
  "codeRunsWellFormed s =
     (\<forall>b. CODE \<in> getAttributeAt s b \<and> CODE_FIRST \<notin> getAttributeAt s b \<longrightarrow>
        CODE \<in> getAttributeAt s (b - 1)
        \<and> (\<exists>d \<in> {1, 2, 3, 4}. CODE_FIRST \<in> getAttributeAt s (b - d)))"

text \<open>The state in which a pass through the loop body leaves the disassembler, when
  it does not throw.\<close>

fun stateOf :: "stepResult \<Rightarrow> Disassembler option" where
  "stateOf (TraceEnds s) = Some s"
| "stateOf (Aborts s) = Some s"
| "stateOf (Continues a s) = Some s"
| "stateOf (Throws e) = None"


subsection \<open>Inputs of the examples\<close>

text \<open>A decoder for the bytes \<open>3E 3E C9\<close> at address 0 (\<open>LD A,n\<close> at 0 and 1, \<open>RET\<close> at
  2), and the state after the instruction at address 1 has been decoded.\<close>

definition decoder_LD_LD_RET :: "int \<Rightarrow> Opcode" where
  "decoder_LD_LD_RET = (\<lambda>x. if x = 2
             then \<lparr>op_name = ''RET'', op_length = 1, op_flags = {STOP}, op_value = 0, op_valueType = NONE\<rparr>
             else \<lparr>op_name = ''LD A,#n'', op_length = 2, op_flags = {}, op_value = 0, op_valueType = NUMBER_BYTE\<rparr>)"

definition state_decoded_at_1 :: Disassembler where
  "state_decoded_at_1 = addAttributeAt 1 2 {CODE} (addAttributeAt 1 1 {CODE_FIRST} (setMemory 0 3 Disassembler_new))"


text \<open>A decoder for \<open>C3 01 00\<close> at address 0: a \<open>JP\<close> to its own second byte.\<close>

definition decoder_JP_0001 :: "int \<Rightarrow> Opcode" where
  "decoder_JP_0001 = (\<lambda>x. \<lparr>op_name = ''JP #nn'', op_length = 3, op_flags = {BRANCH_ADDRESS, STOP},
               op_value = 1, op_valueType = CODE_LBL\<rparr>)"


text \<open>A decoder for \<open>00 C3 02 00\<close> at address 0: a \<open>NOP\<close> and then a \<open>JP\<close> to its own
  second byte.\<close>

definition decoder_NOP_JP_0002 :: "int \<Rightarrow> Opcode" where
  "decoder_NOP_JP_0002 = (\<lambda>x.
     if x = 0 then \<lparr>op_name = ''NOP'', op_length = 1, op_flags = {}, op_value = 0, op_valueType = NONE\<rparr>
     else \<lparr>op_name = ''JP #nn'', op_length = 3, op_flags = {BRANCH_ADDRESS, STOP},
            op_value = 2, op_valueType = CODE_LBL\<rparr>)"

text \<open>The state in which pass 1 aborts for the \<open>JP\<close> at address 0 to its own second byte.\<close>

definition state_JP_0001_abort :: Disassembler where
  "state_JP_0001_abort =
     emit ''warning'' (ambiguousBranchWarning ''JP #nn'' 0 ''JP #nn'' 0)
       (setFoundLabel 1 [0] CODE_LBL {ASSIGNED, CODE}
          (addAttributeAt 0 3 {CODE} (addAttributeAt 0 1 {CODE_FIRST}
             (setMemory 0 3 Disassembler_new))))"


subsection \<open>Auxiliary notions for pass 5\<close>

text \<open>In \<open>s'\<close> the label \<open>l\<close> that stood at \<open>a\<close> has been moved to \<open>f\<close>: no label is left
  at \<open>a\<close>, the offset of \<open>a\<close> is \<open>f - a\<close>, and the label at \<open>f\<close> has \<open>l\<close>'s referrers
  (but \<open>f\<close> itself) and a type at least \<open>DATA_LBL\<close>.\<close>

definition movedTo :: "Disassembler \<Rightarrow> int \<Rightarrow> DisLabel \<Rightarrow> int \<Rightarrow> bool" where
  "movedTo s' a l f =
     (map_of (labels s') a = None \<and> map_of (offsetLabels s') a = Some (f - a) \<and>
      (\<exists>L. map_of (labels s') f = Some L \<and> set (references l) - {f} \<subseteq> set (references L)
           \<and> NumberType_rank DATA_LBL \<le> NumberType_rank (lbl_type L)))"


text \<open>An \<open>LD A,n\<close> at \<open>0x1000\<close>, decoded, and a \<open>DATA_LBL\<close> at its second byte
  \<open>0x1001\<close>, referred to by an instruction at \<open>0x2000\<close>.\<close>

definition state_self_modifying :: Disassembler where
  "state_self_modifying =
     (addAttributeAt 4096 2 {CODE} (addAttributeAt 4096 1 {CODE_FIRST}
        (setMemory 4096 2 Disassembler_new)))
       \<lparr>labels := [(4097, (DisLabel_new DATA_LBL)\<lparr>references := [8192]\<rparr>)]\<rparr>"


subsection \<open>Pass 8: \<open>findLocalLabelsInSubroutines\<close>\<close>

text \<open>\<open>getSubroutineAddresses(address, addrsArray)\<close>: the \<open>do ... while\<close> with its
  recursive call for a branch that is not a call. The array is passed through and
  returned. The first argument bounds the number of loop iterations and nested calls;
  \<open>None\<close> means the bound was too small.\<close>

fun getSubroutineAddresses ::
  "nat \<Rightarrow> (int \<Rightarrow> Opcode) \<Rightarrow> Disassembler \<Rightarrow> int \<Rightarrow> int list \<Rightarrow> int list option" where
  "getSubroutineAddresses 0 getOpcodeAt s address addrsArray = None"
| "getSubroutineAddresses (Suc n) getOpcodeAt s address addrsArray =
     (if ASSIGNED \<notin> getAttributeAt s address then Some addrsArray
      else if address \<in> set addrsArray then Some addrsArray
      else
        (let opcode = getOpcodeAt address;
             addrsArray1 = addrsArray @ [address]
         in case (if BRANCH_ADDRESS \<in> op_flags opcode \<and> CALL \<notin> op_flags opcode
                  then getSubroutineAddresses n getOpcodeAt s (op_value opcode) addrsArray1
                  else Some addrsArray1) of
              None \<Rightarrow> None
            | Some addrsArray2 \<Rightarrow>
                (if STOP \<in> op_flags opcode then Some addrsArray2
                 else getSubroutineAddresses n getOpcodeAt s (address + op_length opcode)
                        addrsArray2)))"

text \<open>The body of \<open>for(let addr of addrsArray)\<close>, for the subroutine at \<open>address\<close>.\<close>

definition findLocalLabel ::
  "int list \<Rightarrow> int \<Rightarrow> int \<Rightarrow> (int \<times> DisLabel) list \<Rightarrow> (int \<times> DisLabel) list" where
  "findLocalLabel addrsArray address addr lbls =
     (if addr = address then lbls
      else
        (case map_of lbls addr of
           None \<Rightarrow> lbls
         | Some addrLabel \<Rightarrow>
             (if lbl_type addrLabel \<noteq> CODE_LBL \<and> lbl_type addrLabel \<noteq> CODE_SUB then lbls
              else if isFixed addrLabel then lbls
              else
                (let refs = references addrLabel;
                     outsideFound = (\<exists>ref \<in> set refs. ref \<notin> set addrsArray)
                 in if outsideFound then lbls
                    else AList.update addr
                           (addrLabel\<lparr>lbl_type :=
                              (if \<exists>ref \<in> set refs. ref - addr \<ge> 0 \<and> ref - addr \<le> 128
                               then CODE_LOCAL_LOOP else CODE_LOCAL_LBL)\<rparr>) lbls))))"

text \<open>The body of the outer loop, for the label stored at \<open>address\<close>.\<close>

definition findLocalLabelsInSubroutine ::
  "nat \<Rightarrow> (int \<Rightarrow> Opcode) \<Rightarrow> int \<Rightarrow> Disassembler \<Rightarrow> Disassembler option" where
  "findLocalLabelsInSubroutine fuel getOpcodeAt address s =
     (case map_of (labels s) address of
        None \<Rightarrow> Some s
      | Some label \<Rightarrow>
          (if lbl_type label = CODE_LBL \<or> lbl_type label = CODE_SUB \<or> lbl_type label = CODE_RST
           then
             (case getSubroutineAddresses fuel getOpcodeAt s address [] of
                None \<Rightarrow> None
              | Some addrsArray \<Rightarrow>
                  Some (s\<lparr>labels := fold (findLocalLabel addrsArray address) addrsArray (labels s)\<rparr>))
           else Some s))"

text \<open>The outer loop visits the keys of the label map in order; the pass changes
  types only, so the keys are those at its start.\<close>

fun findLocalLabelsInSubroutines_loop ::
  "nat \<Rightarrow> (int \<Rightarrow> Opcode) \<Rightarrow> int list \<Rightarrow> Disassembler \<Rightarrow> Disassembler option" where
  "findLocalLabelsInSubroutines_loop fuel getOpcodeAt [] s = Some s"
| "findLocalLabelsInSubroutines_loop fuel getOpcodeAt (address # rest) s =
     (case findLocalLabelsInSubroutine fuel getOpcodeAt address s of
        None \<Rightarrow> None
      | Some s' \<Rightarrow> findLocalLabelsInSubroutines_loop fuel getOpcodeAt rest s')"

definition findLocalLabelsInSubroutines ::
  "nat \<Rightarrow> (int \<Rightarrow> Opcode) \<Rightarrow> Disassembler \<Rightarrow> Disassembler option" where
  "findLocalLabelsInSubroutines fuel getOpcodeAt s =
     findLocalLabelsInSubroutines_loop fuel getOpcodeAt (map fst (labels s)) s"

subsection \<open>Pass 10: \<open>countStatistics\<close>\<close>

definition toUpperCase :: "string \<Rightarrow> string" where
  "toUpperCase str =
     map (\<lambda>c. if (97 :: nat) \<le> of_char c \<and> of_char c \<le> (122 :: nat)
               then char_of (of_char c - (32 :: nat)) else c) str"

definition startsWith :: "string \<Rightarrow> string \<Rightarrow> bool" where
  "startsWith str p = (take (length p) str = p)"

definition zeroStatistics :: SubroutineStatistics where
  "zeroStatistics = \<lparr>sizeInBytes = 0, countOfInstructions = 0, CyclomaticComplexity = 0\<rparr>"

text \<open>The three steps of the loop body of \<open>countAddressStatistic\<close> that do not
  recurse: counting one instruction (its length, one instruction, and one more for the
  cyclomatic complexity when it is a branch whose name holds a comma or, if it is no
  branch, when its upper-cased name starts with \<open>RET\<close> and a space); adding the
  statistics of a nested call; and the test whether an address carries a \<open>CODE_SUB\<close> or
  \<open>CODE_RST\<close> label.\<close>

definition countInstruction :: "Opcode \<Rightarrow> SubroutineStatistics \<Rightarrow> SubroutineStatistics" where
  "countInstruction opcode statistics =
     (let st1 = statistics\<lparr>sizeInBytes := sizeInBytes statistics + op_length opcode,
                   countOfInstructions := countOfInstructions statistics + 1\<rparr>
      in if BRANCH_ADDRESS \<in> op_flags opcode then
           (if CHR '','' \<in> set (op_name opcode)
            then st1\<lparr>CyclomaticComplexity := CyclomaticComplexity st1 + 1\<rparr> else st1)
         else if startsWith (toUpperCase (op_name opcode)) ''RET ''
           then st1\<lparr>CyclomaticComplexity := CyclomaticComplexity st1 + 1\<rparr>
         else st1)"

definition addStatistics ::
  "SubroutineStatistics \<Rightarrow> SubroutineStatistics \<Rightarrow> SubroutineStatistics" where
  "addStatistics statistics addStat =
     statistics\<lparr>sizeInBytes := sizeInBytes statistics + sizeInBytes addStat,
       countOfInstructions := countOfInstructions statistics + countOfInstructions addStat,
       CyclomaticComplexity := CyclomaticComplexity statistics + CyclomaticComplexity addStat\<rparr>"

definition isSubroutineLabelAt :: "Disassembler \<Rightarrow> int \<Rightarrow> bool" where
  "isSubroutineLabelAt s address =
     (case map_of (labels s) address of
        None \<Rightarrow> False
      | Some label \<Rightarrow> lbl_type label = CODE_SUB \<or> lbl_type label = CODE_RST)"

text \<open>\<open>countAddressStatistic(address, addresses)\<close>. The function below is the state of
  its \<open>do ... while\<close> at the top of the body: the address, the shared array of visited
  addresses and the statistics counted so far in this call. The recursive call for a
  branch (not a call, and not to a subroutine label) starts from zero statistics and
  its result is added. The result is the statistics returned and the array as the call
  leaves it. The first argument bounds the number of loop iterations and nested
  calls.\<close>

fun countAddressStatistic ::
  "nat \<Rightarrow> (int \<Rightarrow> Opcode) \<Rightarrow> Disassembler \<Rightarrow> int \<Rightarrow> int list \<Rightarrow> SubroutineStatistics
     \<Rightarrow> (SubroutineStatistics \<times> int list) option" where
  "countAddressStatistic 0 getOpcodeAt s address addresses statistics = None"
| "countAddressStatistic (Suc n) getOpcodeAt s address addresses statistics =
     (if ASSIGNED \<notin> getAttributeAt s address then Some (statistics, addresses)
      else if address \<in> set addresses then Some (statistics, addresses)
      else
        (let addresses1 = addresses @ [address];
             opcode = getOpcodeAt address;
             st2 = countInstruction opcode statistics
         in case (if BRANCH_ADDRESS \<in> op_flags opcode \<and> CALL \<notin> op_flags opcode
                     \<and> \<not> isSubroutineLabelAt s (op_value opcode)
                  then (case countAddressStatistic n getOpcodeAt s (op_value opcode) addresses1
                               zeroStatistics of
                          None \<Rightarrow> None
                        | Some (addStat, addresses2) \<Rightarrow>
                            Some (addStatistics st2 addStat, addresses2))
                  else Some (st2, addresses1)) of
              None \<Rightarrow> None
            | Some (st3, addresses3) \<Rightarrow>
                (if isSubroutineLabelAt s (address + op_length opcode) then Some (st3, addresses3)
                 else if STOP \<in> op_flags opcode then Some (st3, addresses3)
                 else countAddressStatistic n getOpcodeAt s (address + op_length opcode)
                        addresses3 st3)))"

text \<open>The two groups of three \<open>if\<close>s that keep the maxima and the minima.\<close>

definition updateStatisticsMax ::
  "SubroutineStatistics \<Rightarrow> SubroutineStatistics \<Rightarrow> SubroutineStatistics" where
  "updateStatisticsMax mx statistics =
     (let mx1 = (if sizeInBytes statistics > sizeInBytes mx
                 then mx\<lparr>sizeInBytes := sizeInBytes statistics\<rparr> else mx);
          mx2 = (if countOfInstructions statistics > countOfInstructions mx1
                 then mx1\<lparr>countOfInstructions := countOfInstructions statistics\<rparr> else mx1)
      in if CyclomaticComplexity statistics > CyclomaticComplexity mx2
         then mx2\<lparr>CyclomaticComplexity := CyclomaticComplexity statistics\<rparr> else mx2)"

definition updateStatisticsMin ::
  "SubroutineStatistics \<Rightarrow> SubroutineStatistics \<Rightarrow> SubroutineStatistics" where
  "updateStatisticsMin mn statistics =
     (let mn1 = (if sizeInBytes statistics < sizeInBytes mn
                 then mn\<lparr>sizeInBytes := sizeInBytes statistics\<rparr> else mn);
          mn2 = (if countOfInstructions statistics < countOfInstructions mn1
                 then mn1\<lparr>countOfInstructions := countOfInstructions statistics\<rparr> else mn1)
      in if CyclomaticComplexity statistics < CyclomaticComplexity mn2
         then mn2\<lparr>CyclomaticComplexity := CyclomaticComplexity statistics\<rparr> else mn2)"

text \<open>The body of the loop of \<open>countStatistics\<close>, for the entry \<open>[address, label]\<close>.\<close>

definition countStatistics_label ::
  "nat \<Rightarrow> (int \<Rightarrow> Opcode) \<Rightarrow> int \<times> DisLabel \<Rightarrow> Disassembler \<Rightarrow> Disassembler option" where
  "countStatistics_label fuel getOpcodeAt entry s =
     (case entry of (address, label) \<Rightarrow>
        (if isEqu label then Some s
         else if lbl_type label = CODE_SUB \<or> lbl_type label = CODE_RST \<or> lbl_type label = CODE_LBL
         then
           (case countAddressStatistic fuel getOpcodeAt s address [] zeroStatistics of
              None \<Rightarrow> None
            | Some (st0, addresses) \<Rightarrow>
                (let statistics = st0\<lparr>CyclomaticComplexity := CyclomaticComplexity st0 + 1\<rparr>
                 in Some (s\<lparr>subroutineStatistics :=
                              AList.update address statistics (subroutineStatistics s),
                            statisticsMax := updateStatisticsMax (statisticsMax s) statistics,
                            statisticsMin := updateStatisticsMin (statisticsMin s) statistics\<rparr>)))
         else Some s))"

fun countStatistics_loop ::
  "nat \<Rightarrow> (int \<Rightarrow> Opcode) \<Rightarrow> (int \<times> DisLabel) list \<Rightarrow> Disassembler \<Rightarrow> Disassembler option" where
  "countStatistics_loop fuel getOpcodeAt [] s = Some s"
| "countStatistics_loop fuel getOpcodeAt (entry # rest) s =
     (case countStatistics_label fuel getOpcodeAt entry s of
        None \<Rightarrow> None
      | Some s' \<Rightarrow> countStatistics_loop fuel getOpcodeAt rest s')"

definition countStatistics ::
  "nat \<Rightarrow> (int \<Rightarrow> Opcode) \<Rightarrow> Disassembler \<Rightarrow> Disassembler option" where
  "countStatistics fuel getOpcodeAt s = countStatistics_loop fuel getOpcodeAt (labels s) s"

subsection \<open>Reachable addresses\<close>

text \<open>The walks of passes 8 and 10 have one shape: from an address, if it is assigned and
  not yet in the array, add it, walk from the branch target if the instruction has one
  that is to be followed, then go on at the next address unless the flow ends here.
  \<open>depthFirstWalk\<close> is this shape, with the three tests as parameters and a bound on the
  depth; \<open>reachableFrom\<close> is the set of addresses that can be reached in this way.\<close>

fun depthFirstWalk ::
  "nat \<Rightarrow> (int \<Rightarrow> bool) \<Rightarrow> (int \<Rightarrow> int option) \<Rightarrow> (int \<Rightarrow> int option) \<Rightarrow> int \<Rightarrow> int list
     \<Rightarrow> int list option" where
  "depthFirstWalk 0 assigned branch flow address visited = None"
| "depthFirstWalk (Suc n) assigned branch flow address visited =
     (if \<not> assigned address then Some visited
      else if address \<in> set visited then Some visited
      else
        (case (case branch address of
                 Some target \<Rightarrow> depthFirstWalk n assigned branch flow target (visited @ [address])
               | None \<Rightarrow> Some (visited @ [address])) of
           None \<Rightarrow> None
         | Some visited2 \<Rightarrow>
             (case flow address of
                None \<Rightarrow> Some visited2
              | Some next \<Rightarrow> depthFirstWalk n assigned branch flow next visited2)))"

inductive_set reachableFrom ::
  "(int \<Rightarrow> bool) \<Rightarrow> (int \<Rightarrow> int option) \<Rightarrow> (int \<Rightarrow> int option) \<Rightarrow> int \<Rightarrow> int set"
  for assigned branch flow start where
    start: "assigned start \<Longrightarrow> start \<in> reachableFrom assigned branch flow start"
  | branch: "a \<in> reachableFrom assigned branch flow start \<Longrightarrow> branch a = Some t \<Longrightarrow> assigned t \<Longrightarrow>
             t \<in> reachableFrom assigned branch flow start"
  | flow: "a \<in> reachableFrom assigned branch flow start \<Longrightarrow> flow a = Some t \<Longrightarrow> assigned t \<Longrightarrow>
           t \<in> reachableFrom assigned branch flow start"

code_pred reachableFromp .

subsection \<open>Auxiliary notions for pass 8\<close>

text \<open>The branch that \<open>getSubroutineAddresses\<close> follows (any that is not a call), the
  next address (unless the instruction stops the flow), and the addresses reachable
  from a start address: by linear flow and branches that are not calls, over assigned
  bytes.\<close>

definition subroutineBranch :: "(int \<Rightarrow> Opcode) \<Rightarrow> int \<Rightarrow> int option" where
  "subroutineBranch getOpcodeAt address =
     (if BRANCH_ADDRESS \<in> op_flags (getOpcodeAt address) \<and> CALL \<notin> op_flags (getOpcodeAt address)
      then Some (op_value (getOpcodeAt address)) else None)"

definition subroutineFlow :: "(int \<Rightarrow> Opcode) \<Rightarrow> int \<Rightarrow> int option" where
  "subroutineFlow getOpcodeAt address =
     (if STOP \<in> op_flags (getOpcodeAt address) then None
      else Some (address + op_length (getOpcodeAt address)))"

definition subroutineAddresses :: "(int \<Rightarrow> Opcode) \<Rightarrow> Disassembler \<Rightarrow> int \<Rightarrow> int set" where
  "subroutineAddresses getOpcodeAt s start =
     reachableFrom (\<lambda>address. ASSIGNED \<in> getAttributeAt s address)
       (subroutineBranch getOpcodeAt) (subroutineFlow getOpcodeAt) start"

definition topLevelCodeLabel :: "DisLabel \<Rightarrow> bool" where
  "topLevelCodeLabel L = (lbl_type L = CODE_LBL \<or> lbl_type L = CODE_SUB \<or> lbl_type L = CODE_RST)"

definition demoted :: "int \<Rightarrow> DisLabel \<Rightarrow> DisLabel" where
  "demoted addr L =
     L\<lparr>lbl_type := (if \<exists>R \<in> set (references L). 0 \<le> R - addr \<and> R - addr \<le> 128
                     then CODE_LOCAL_LOOP else CODE_LOCAL_LBL)\<rparr>"

definition demotable :: "int set \<Rightarrow> int \<Rightarrow> int \<Rightarrow> DisLabel \<Rightarrow> bool" where
  "demotable S address addr L =
     (addr \<in> S \<and> addr \<noteq> address \<and> (lbl_type L = CODE_LBL \<or> lbl_type L = CODE_SUB)
      \<and> \<not> isFixed L \<and> set (references L) \<subseteq> S)"

text \<open>What the pass is to do to a label \<open>L\<close> at \<open>addr\<close>, for the subroutine at
  \<open>address\<close> with the reachable addresses \<open>addrsArray\<close>.\<close>

definition localLabelResult :: "int list \<Rightarrow> int \<Rightarrow> int \<Rightarrow> DisLabel \<Rightarrow> DisLabel" where
  "localLabelResult addrsArray address addr L =
     (if addr \<noteq> address \<and> (lbl_type L = CODE_LBL \<or> lbl_type L = CODE_SUB) \<and> \<not> isFixed L
         \<and> set (references L) \<subseteq> set addrsArray
      then L\<lparr>lbl_type := (if \<exists>R \<in> set (references L). 0 \<le> R - addr \<and> R - addr \<le> 128
                           then CODE_LOCAL_LOOP else CODE_LOCAL_LBL)\<rparr>
      else L)"

text \<open>\<open>demotedOnly s s1\<close>: the state \<open>s1\<close> is \<open>s\<close> but for some labels that have been
  demoted.\<close>

definition demotedOnly :: "Disassembler \<Rightarrow> Disassembler \<Rightarrow> bool" where
  "demotedOnly s s1 =
     (s1\<lparr>labels := labels s\<rparr> = s \<and> map fst (labels s1) = map fst (labels s)
      \<and> (\<forall>x. case map_of (labels s) x of
                None \<Rightarrow> map_of (labels s1) x = None
              | Some L \<Rightarrow> map_of (labels s1) x = Some L
                           \<or> map_of (labels s1) x = Some (demoted x L)))"

text \<open>A subroutine at 0 with a backward \<open>JP NZ\<close> (from 2 to 1), a \<open>JP\<close> from 5 to 9 and
  a \<open>RET\<close> at 9, which is reached through the branch only; the label at 5 is referred to
  from outside.\<close>

definition decoder_branches :: "int \<Rightarrow> Opcode" where
  "decoder_branches = (\<lambda>x.
     if x = 2 then \<lparr>op_name = ''JP NZ,#nn'', op_length = 3, op_flags = {BRANCH_ADDRESS},
                     op_value = 1, op_valueType = CODE_LBL\<rparr>
     else if x = 5 then \<lparr>op_name = ''JP #nn'', op_length = 3, op_flags = {BRANCH_ADDRESS, STOP},
                     op_value = 9, op_valueType = CODE_LBL\<rparr>
     else if x = 9 then \<lparr>op_name = ''RET'', op_length = 1, op_flags = {STOP},
                     op_value = 0, op_valueType = NONE\<rparr>
     else \<lparr>op_name = ''NOP'', op_length = 1, op_flags = {}, op_value = 0, op_valueType = NONE\<rparr>)"

definition state_branches :: Disassembler where
  "state_branches =
     (setMemory 0 10 Disassembler_new)
       \<lparr>labels := [(0, (DisLabel_new CODE_SUB)\<lparr>references := [256]\<rparr>),
                   (1, (DisLabel_new CODE_LBL)\<lparr>references := [2]\<rparr>),
                   (5, (DisLabel_new CODE_LBL)\<lparr>references := [512]\<rparr>),
                   (9, (DisLabel_new CODE_LBL)\<lparr>references := [5]\<rparr>)]\<rparr>"

text \<open>Two jumps to each other, at 0 and 3, with a label each.\<close>

definition decoder_mutual :: "int \<Rightarrow> Opcode" where
  "decoder_mutual = (\<lambda>x.
     if x = 0 then \<lparr>op_name = ''JP #nn'', op_length = 3, op_flags = {BRANCH_ADDRESS, STOP},
                     op_value = 3, op_valueType = CODE_LBL\<rparr>
     else \<lparr>op_name = ''JP #nn'', op_length = 3, op_flags = {BRANCH_ADDRESS, STOP},
            op_value = 0, op_valueType = CODE_LBL\<rparr>)"

definition state_mutual :: Disassembler where
  "state_mutual =
     (setMemory 0 6 Disassembler_new)
       \<lparr>labels := [(0, (DisLabel_new CODE_LBL)\<lparr>references := [3]\<rparr>),
                   (3, (DisLabel_new CODE_LBL)\<lparr>references := [0]\<rparr>)]\<rparr>"

subsection \<open>Auxiliary notions for pass 10\<close>

text \<open>The instructions that \<open>countInstruction\<close> counts for the cyclomatic complexity,
  and what a walk that visits the instructions \<open>new\<close> adds to the statistics.\<close>

definition conditionalBranch :: "(int \<Rightarrow> Opcode) \<Rightarrow> int \<Rightarrow> bool" where
  "conditionalBranch g x = (BRANCH_ADDRESS \<in> op_flags (g x) \<and> CHR '','' \<in> set (op_name (g x)))"

definition countedReturn :: "(int \<Rightarrow> Opcode) \<Rightarrow> int \<Rightarrow> bool" where
  "countedReturn g x = (BRANCH_ADDRESS \<notin> op_flags (g x)
      \<and> startsWith (toUpperCase (op_name (g x))) ''RET '')"

definition walkAdds ::
  "(int \<Rightarrow> Opcode) \<Rightarrow> SubroutineStatistics \<Rightarrow> int list \<Rightarrow> SubroutineStatistics \<Rightarrow> bool" where
  "walkAdds g st new st' =
     (CyclomaticComplexity st' = CyclomaticComplexity st
          + int (length (filter (conditionalBranch g) new))
          + int (length (filter (countedReturn g) new))
      \<and> sizeInBytes st' = sizeInBytes st + sum_list (map (\<lambda>x. op_length (g x)) new)
      \<and> countOfInstructions st' = countOfInstructions st + int (length new))"


text \<open>The branch that \<open>countAddressStatistic\<close> follows (not a call, and not to a
  \<open>CODE_SUB\<close> or \<open>CODE_RST\<close> label), the next address (unless it carries such a label or
  the instruction stops the flow), and the addresses reachable from a start address in
  this way.\<close>

definition statisticsBranch :: "(int \<Rightarrow> Opcode) \<Rightarrow> Disassembler \<Rightarrow> int \<Rightarrow> int option" where
  "statisticsBranch getOpcodeAt s address =
     (if BRANCH_ADDRESS \<in> op_flags (getOpcodeAt address) \<and> CALL \<notin> op_flags (getOpcodeAt address)
         \<and> \<not> isSubroutineLabelAt s (op_value (getOpcodeAt address))
      then Some (op_value (getOpcodeAt address)) else None)"

definition statisticsFlow :: "(int \<Rightarrow> Opcode) \<Rightarrow> Disassembler \<Rightarrow> int \<Rightarrow> int option" where
  "statisticsFlow getOpcodeAt s address =
     (if isSubroutineLabelAt s (address + op_length (getOpcodeAt address))
         \<or> STOP \<in> op_flags (getOpcodeAt address)
      then None else Some (address + op_length (getOpcodeAt address)))"

definition statisticsAddresses :: "(int \<Rightarrow> Opcode) \<Rightarrow> Disassembler \<Rightarrow> int \<Rightarrow> int set" where
  "statisticsAddresses getOpcodeAt s start =
     reachableFrom (\<lambda>address. ASSIGNED \<in> getAttributeAt s address)
       (statisticsBranch getOpcodeAt s) (statisticsFlow getOpcodeAt s) start"

text \<open>A subroutine at 0: \<open>JP NZ\<close> to 6, \<open>RET NZ\<close> at 3, and at 4 another subroutine, a
  \<open>RET\<close>; at 6 a \<open>RET\<close>.\<close>

definition decoder_JPNZ_RETNZ :: "int \<Rightarrow> Opcode" where
  "decoder_JPNZ_RETNZ = (\<lambda>x.
     if x = 0 then \<lparr>op_name = ''JP NZ,#nn'', op_length = 3, op_flags = {BRANCH_ADDRESS},
                     op_value = 6, op_valueType = CODE_LBL\<rparr>
     else if x = 3 then \<lparr>op_name = ''RET NZ'', op_length = 1, op_flags = {},
                     op_value = 0, op_valueType = NONE\<rparr>
     else \<lparr>op_name = ''RET'', op_length = 1, op_flags = {STOP}, op_value = 0, op_valueType = NONE\<rparr>)"

definition state_JPNZ_RETNZ :: Disassembler where
  "state_JPNZ_RETNZ =
     (setMemory 0 7 Disassembler_new)
       \<lparr>labels := [(0, DisLabel_new CODE_SUB),
                   (4, (DisLabel_new CODE_SUB)\<lparr>references := [256]\<rparr>),
                   (6, (DisLabel_new CODE_LOCAL_LBL)\<lparr>references := [0]\<rparr>)]\<rparr>"


subsection \<open>\<open>getCallGraph\<close>: the font size of a node\<close>

text \<open>The font size is computed with a division, so here a JavaScript number is a
  real number or one of the IEEE special values. Finite results are exact: the rounding
  of doubles is not modelled, a zero has no sign (the divisor \<open>max - min\<close> is \<open>+0\<close> when
  both are equal), and only the four operations the computation uses are defined.\<close>

datatype number = Finite real | PosInfinity | NegInfinity | NaN

fun js_plus :: "number \<Rightarrow> number \<Rightarrow> number" where
  "js_plus (Finite a) (Finite b) = Finite (a + b)"
| "js_plus NaN y = NaN"
| "js_plus x NaN = NaN"
| "js_plus PosInfinity NegInfinity = NaN"
| "js_plus NegInfinity PosInfinity = NaN"
| "js_plus PosInfinity y = PosInfinity"
| "js_plus NegInfinity y = NegInfinity"
| "js_plus x PosInfinity = PosInfinity"
| "js_plus x NegInfinity = NegInfinity"

fun js_negate :: "number \<Rightarrow> number" where
  "js_negate (Finite a) = Finite (- a)"
| "js_negate PosInfinity = NegInfinity"
| "js_negate NegInfinity = PosInfinity"
| "js_negate NaN = NaN"

definition js_minus :: "number \<Rightarrow> number \<Rightarrow> number" where
  "js_minus x y = js_plus x (js_negate y)"

fun js_sign :: "number \<Rightarrow> int" where
  "js_sign (Finite a) = (if a < 0 then - 1 else if a = 0 then 0 else 1)"
| "js_sign PosInfinity = 1"
| "js_sign NegInfinity = - 1"
| "js_sign NaN = 0"

definition signedInfinity :: "int \<Rightarrow> number" where
  "signedInfinity sg = (if sg < 0 then NegInfinity else PosInfinity)"

fun js_times :: "number \<Rightarrow> number \<Rightarrow> number" where
  "js_times (Finite a) (Finite b) = Finite (a * b)"
| "js_times NaN y = NaN"
| "js_times x NaN = NaN"
| "js_times x y =
     (if js_sign x = 0 \<or> js_sign y = 0 then NaN else signedInfinity (js_sign x * js_sign y))"

fun js_divide :: "number \<Rightarrow> number \<Rightarrow> number" where
  "js_divide (Finite a) (Finite b) =
     (if b = 0 then (if a = 0 then NaN else signedInfinity (js_sign (Finite a)))
      else Finite (a / b))"
| "js_divide NaN y = NaN"
| "js_divide x NaN = NaN"
| "js_divide (Finite a) y = Finite 0"
| "js_divide x (Finite b) =
     signedInfinity (js_sign x * (if b < 0 then - 1 else 1))"
| "js_divide x y = NaN"

fun Math_round :: "number \<Rightarrow> number" where
  "Math_round (Finite a) = Finite (of_int \<lfloor>a + 1 / 2\<rfloor>)"
| "Math_round x = x"

text \<open>The number that \<open>getCallGraph\<close> prints as \<open>fontsize\<close> for a label that is no EQU
  label and has the statistics \<open>stats\<close>.\<close>

definition getCallGraph_fontSize :: "Disassembler \<Rightarrow> SubroutineStatistics \<Rightarrow> number" where
  "getCallGraph_fontSize s stats =
     (let fontSizeMin = Finite 13;
          fontSizeMax = Finite 40;
          mn = Finite (of_int (CyclomaticComplexity (statisticsMin s)));
          fontSizeFactor =
            js_divide (js_minus fontSizeMax fontSizeMin)
              (js_minus (Finite (of_int (CyclomaticComplexity (statisticsMax s)))) mn);
          fontSize =
            js_plus fontSizeMin
              (js_times fontSizeFactor
                 (js_minus (Finite (of_int (CyclomaticComplexity stats))) mn))
      in Math_round fontSize)"

text \<open>The spec's first scenario: \<open>3E 05 C9\<close> at address 0 (\<open>LD A,5\<close>, \<open>RET\<close>), one
  subroutine label at 0.\<close>

definition decoder_single_RET :: "int \<Rightarrow> Opcode" where
  "decoder_single_RET = (\<lambda>x.
     if x = 0 then \<lparr>op_name = ''LD A,#n'', op_length = 2, op_flags = {},
                     op_value = 5, op_valueType = NUMBER_BYTE\<rparr>
     else \<lparr>op_name = ''RET'', op_length = 1, op_flags = {STOP}, op_value = 0, op_valueType = NONE\<rparr>)"

definition state_single_RET :: Disassembler where
  "state_single_RET =
     (setMemory 0 3 Disassembler_new)\<lparr>labels := [(0, DisLabel_new CODE_SUB)]\<rparr>"

subsection \<open>Trace files (\<open>useMameTraceFile\<close>)\<close>

text \<open>
  The text of the trace file is a \<open>string\<close>; reading the file is outside the model, so
  \<open>useMameTraceFile\<close> takes the text. \<open>substr\<close>, \<open>indexOf\<close> and \<open>parseInt(_, 16)\<close> are the
  JavaScript string functions the method calls: \<open>indexOf\<close> gives \<open>-1\<close> when there is no
  occurrence from \<open>start\<close> on; \<open>parseInt16\<close> skips leading white space, reads a sign and
  an optional \<open>0x\<close>, then the longest run of hexadecimal digits, and gives \<open>None\<close> (for
  \<open>NaN\<close>) when that run is empty. The array \<open>buffer\<close> is the list of the indices that were
  set to \<open>true\<close>, \<open>None\<close> standing for the property \<open>NaN\<close>; the last loop reads the
  indices from 0 to \<open>MAX_MEM_SIZE - 1\<close> only. The \<open>do ... while\<close> loop is
  \<open>useMameTraceFile_scan\<close>: \<open>k\<close> grows in every round, so it terminates.
\<close>


definition newline :: char where
  "newline = CHR 0x0A"

definition substr :: "string \<Rightarrow> nat \<Rightarrow> nat \<Rightarrow> string" where
  "substr str start len = take len (drop start str)"

definition indexOf :: "string \<Rightarrow> char \<Rightarrow> nat \<Rightarrow> int" where
  "indexOf str c start =
     (case List.find (\<lambda>i. str ! i = c) [start ..< length str] of
        None \<Rightarrow> - 1
      | Some i \<Rightarrow> int i)"

definition isWhiteSpace :: "char \<Rightarrow> bool" where
  "isWhiteSpace c = (of_char c \<in> {9, 10, 11, 12, 13, 32, 160 :: nat})"

definition isHexDigit :: "char \<Rightarrow> bool" where
  "isHexDigit c =
     (let n = of_char c :: nat
      in (48 \<le> n \<and> n \<le> 57) \<or> (97 \<le> n \<and> n \<le> 102) \<or> (65 \<le> n \<and> n \<le> 70))"

definition hexDigitValue :: "char \<Rightarrow> nat" where
  "hexDigitValue c =
     (let n = of_char c :: nat
      in if 48 \<le> n \<and> n \<le> 57 then n - 48
         else if 97 \<le> n \<and> n \<le> 102 then n - 87
         else n - 55)"

definition parseInt16 :: "string \<Rightarrow> int option" where
  "parseInt16 str =
     (let s1 = dropWhile isWhiteSpace str;
          sg = (case s1 of c # r \<Rightarrow> if c = CHR ''-'' then - 1 else 1 | [] \<Rightarrow> (1 :: int));
          s2 = (case s1 of c # r \<Rightarrow> if c = CHR ''+'' \<or> c = CHR ''-'' then r else s1 | [] \<Rightarrow> s1);
          s3 = (case s2 of c # d # r \<Rightarrow>
                  if c = CHR ''0'' \<and> (d = CHR ''x'' \<or> d = CHR ''X'') then r else s2
                | _ \<Rightarrow> s2);
          z = takeWhile isHexDigit s3
      in if z = [] then None
         else Some (sg * int (foldl (\<lambda>acc c. 16 * acc + hexDigitValue c) 0 z)))"

function useMameTraceFile_scan :: "string \<Rightarrow> nat \<Rightarrow> int option list \<Rightarrow> int option list" where
  "useMameTraceFile_scan trace k buffer =
     (let addressString = substr trace k 5;
          parsed = (length addressString = 5 \<and> addressString ! 4 = CHR '':'');
          buffer1 = (if parsed then buffer @ [parseInt16 addressString] else buffer);
          k1 = (if parsed then k + 5 else k);
          k2 = indexOf trace newline k1 + 1
      in if k2 \<noteq> 0 then useMameTraceFile_scan trace (nat k2) buffer1 else buffer1)"
  by pat_completeness auto
termination
proof (relation "measure (\<lambda>(trace, k, buffer). length trace - k)", goal_cases)
  case 1
  show ?case by simp
next
  case (2 trace k buffer addressString parsed buffer1 k1 k2)
  from 2(5,6) obtain i where i: "List.find (\<lambda>i. trace ! i = newline) [k1 ..< length trace] = Some i"
    and k2: "k2 = int i + 1"
    by (auto simp: indexOf_def split: option.splits)
  from i have "i \<in> set [k1 ..< length trace]"
    by (auto simp: find_Some_iff)
  then have "k1 \<le> i" "i < length trace" by auto
  moreover have "k \<le> k1" using 2(4) by simp
  ultimately show ?case using k2 by simp
qed

declare useMameTraceFile_scan.simps [simp del]

definition useMameTraceFile :: "string \<Rightarrow> Disassembler \<Rightarrow> Disassembler" where
  "useMameTraceFile trace s =
     (if length trace < 5 then s
      else
        (let buffer = useMameTraceFile_scan trace 0 []
         in s\<lparr>addressQueue := addressQueue s
                @ filter (\<lambda>addr. Some addr \<in> set buffer) [0 .. MAX_MEM_SIZE - 1]\<rparr>))"

text \<open>
  The specification reads the text line by line: the lines are the pieces between line
  feeds, the address field of a line is its first five characters when the fifth is a
  colon, and the queue receives the addresses of these fields, without duplicates, in
  ascending order. \<open>spec_traceAddresses\<close> is this reading; a field that \<open>parseInt\<close> does
  not map to an index of the buffer contributes nothing.
\<close>

function splitLines :: "string \<Rightarrow> string list" where
  "splitLines str =
     (case dropWhile (\<lambda>c. c \<noteq> newline) str of
        [] \<Rightarrow> [str]
      | c # rest \<Rightarrow> takeWhile (\<lambda>c. c \<noteq> newline) str # splitLines rest)"
  by pat_completeness auto
termination
proof (relation "measure length", goal_cases)
  case 1
  show ?case by simp
next
  case (2 str c rest)
  have "length (dropWhile (\<lambda>c. c \<noteq> newline) str) \<le> length str" by (rule length_dropWhile_le)
  with 2 show ?case by simp
qed

declare splitLines.simps [simp del]

definition addressPrefixes :: "string \<Rightarrow> string list" where
  "addressPrefixes trace =
     map (take 5) (filter (\<lambda>l. 5 \<le> length l \<and> l ! 4 = CHR '':'') (splitLines trace))"

definition spec_traceAddresses :: "string \<Rightarrow> int list" where
  "spec_traceAddresses trace =
     sort (remdups (filter (\<lambda>a. 0 \<le> a \<and> a < MAX_MEM_SIZE)
        (concat (map (\<lambda>p. case parseInt16 p of None \<Rightarrow> [] | Some a \<Rightarrow> [a])
                   (addressPrefixes trace)))))"

text \<open>
  \<open>noPrefixSpansLines\<close>: at the start of every line, the next five characters of the text,
  when they are five and the fifth is a colon, contain no line feed (so they lie within
  that line).
\<close>

function noPrefixSpansLines :: "string \<Rightarrow> bool" where
  "noPrefixSpansLines str =
     ((length (take 5 str) = 5 \<and> take 5 str ! 4 = CHR '':'' \<longrightarrow> newline \<notin> set (take 5 str))
      \<and> (case dropWhile (\<lambda>c. c \<noteq> newline) str of
            [] \<Rightarrow> True
          | c # rest \<Rightarrow> noPrefixSpansLines rest))"
  by pat_completeness auto
termination
proof (relation "measure length", goal_cases)
  case 1
  show ?case by simp
next
  case (2 str c rest)
  have "length (dropWhile (\<lambda>c. c \<noteq> newline) str) \<le> length str" by (rule length_dropWhile_le)
  with 2 show ?case by simp
qed

declare noPrefixSpansLines.simps [simp del]

text \<open>The test of the loop on the five characters it has taken.\<close>

definition validPrefix :: "string \<Rightarrow> bool" where
  "validPrefix w = (length w = 5 \<and> w ! 4 = CHR '':'')"

text \<open>Two trace texts: three well-formed lines, and a text whose first line is shorter
  than the address field.\<close>

definition trace_example :: string where
  "trace_example = ''0038: push af'' @ [newline] @ ''0100: nop'' @ [newline] @ ''0038: ei'' @ [newline]"

definition trace_spanning :: string where
  "trace_spanning = ''a'' @ [newline] @ ''bc:d:''"


section \<open>Part II: the properties\<close>

subsection \<open>Reading words\<close>

lemma BaseMemory_getWordValueAt_little_endian:
  "BaseMemory_getValueAt m a = Inr lo \<Longrightarrow> BaseMemory_getValueAt m (a + 1) = Inr hi \<Longrightarrow>
   BaseMemory_getWordValueAt m a = Inr (uint lo + 256 * uint hi)"
  by (simp add: BaseMemory_getWordValueAt_def)

lemma BaseMemory_getWordValueAt_throws:
  "BaseMemory_getWordValueAt m a = Inl e \<longleftrightarrow>
     BaseMemory_getValueAt m a = Inl e \<or>
     (\<exists>lo. BaseMemory_getValueAt m a = Inr lo \<and> BaseMemory_getValueAt m (a + 1) = Inl e)"
  by (auto simp: BaseMemory_getWordValueAt_def split: sum.splits)

lemma Memory_getWordValueAt_square:
  "Memory_getWordValueAt m a = 256 * (uint (Memory_getValueAt m a))\<^sup>2"
  by (simp add: Memory_getWordValueAt_def Memory_getValueAt_def power2_eq_square)

text \<open>
  Claim C1. The word read is the little-endian combination
  \<open>byte(a) + 256 * byte(a+1)\<close>, in \<open>BaseMemory\<close> and in \<open>Memory\<close>.
  \<open>BaseMemory.getWordValueAt\<close> computes it (lemma
  \<open>BaseMemory_getWordValueAt_little_endian\<close>); \<open>Memory.getWordValueAt\<close> does not: it
  multiplies the low byte by 256 and by itself and never reads \<open>a+1\<close>. With the bytes
  1, 2 stored at addresses 0, 1 the little-endian word is 513 and the function returns 256.
\<close>

theorem Memory_getWordValueAt_not_little_endian:
  "Memory_getWordValueAt (Memory_setMemory Memory_new 0 [1, 2]) 0 = 256 \<and>
   uint (Memory_getValueAt (Memory_setMemory Memory_new 0 [1, 2]) 0)
     + 256 * uint (Memory_getValueAt (Memory_setMemory Memory_new 0 [1, 2]) (0 + 1)) = 513"
  by (simp add: Memory_getWordValueAt_def Memory_getValueAt_def Memory_setMemory_def
      Memory_new_def MAX_MEM_SIZE_def)

subsection \<open>\<open>setFoundLabel\<close>\<close>

lemma set_fold_refs:
  "set (fold (\<lambda>ref rs. if ref \<noteq> a then Set_add ref rs else rs) refs rs0) = set rs0 \<union> (set refs - {a})"
  by (induction refs arbitrary: rs0) (auto simp: Set_add_def)

lemma distinct_fold_refs:
  "distinct rs0 \<Longrightarrow> distinct (fold (\<lambda>ref rs. if ref \<noteq> a then Set_add ref rs else rs) refs rs0)"
  by (induction refs arbitrary: rs0) (auto simp: Set_add_def)

lemma map_of_setFoundLabel_other:
  "a \<noteq> addr \<Longrightarrow> map_of (labels (setFoundLabel addr refs t attr s)) a = map_of (labels s) a"
  by (simp add: setFoundLabel_def Let_def update_conv')

lemma setFoundLabel_frame:
  "(setFoundLabel addr refs t attr s)\<lparr>labels := labels s\<rparr> = s"
  by (simp add: setFoundLabel_def Let_def)

lemma map_of_setFoundLabel_None:
  "map_of (labels s) addr = None \<Longrightarrow>
   map_of (labels (setFoundLabel addr refs t attr s)) addr =
     Some ((DisLabel_new t)\<lparr>isEqu := (ASSIGNED \<notin> attr),
        references := fold (\<lambda>ref rs. if ref \<noteq> addr then Set_add ref rs else rs) refs []\<rparr>)"
  by (simp add: setFoundLabel_def Let_def update_conv' DisLabel_new_def)

lemma map_of_setFoundLabel_Some:
  "map_of (labels s) addr = Some l \<Longrightarrow>
   map_of (labels (setFoundLabel addr refs t attr s)) addr =
     Some (l\<lparr>lbl_type := (if NumberType_rank (lbl_type l) < NumberType_rank t then t else lbl_type l),
        references := fold (\<lambda>ref rs. if ref \<noteq> addr then Set_add ref rs else rs) refs (references l)\<rparr>)"
  by (simp add: setFoundLabel_def Let_def update_conv')

subsection \<open>Memory attributes\<close>

lemma mask16: "(a::int) AND (MAX_MEM_SIZE - 1) = a mod 65536"
proof -
  have "a AND mask 16 = a mod 2 ^ 16"
    by (simp only: take_bit_eq_mask [symmetric] take_bit_eq_mod)
  then show ?thesis by (simp add: mask_eq_exp_minus_1 MAX_MEM_SIZE_def)
qed

lemma in_masked_range:
  "(i mod 65536 \<in> (\<lambda>k. (a + k) mod 65536) ` {0 ..< len}) \<longleftrightarrow> (i - a) mod 65536 < (len::int)"
proof
  assume "i mod 65536 \<in> (\<lambda>k. (a + k) mod 65536) ` {0 ..< len}"
  then obtain k where k: "0 \<le> k" "k < len" "i mod 65536 = (a + k) mod 65536" by auto
  have "(i - a) mod 65536 = (i mod 65536 - a) mod 65536" by (simp add: mod_diff_left_eq)
  also have "\<dots> = ((a + k) mod 65536 - a) mod 65536" using k by simp
  also have "\<dots> = k mod 65536" by (simp add: mod_diff_left_eq)
  also have "\<dots> \<le> k" using k(1) by (simp add: zmod_le_nonneg_dividend)
  finally show "(i - a) mod 65536 < len" using k(2) by simp
next
  assume h: "(i - a) mod 65536 < len"
  let ?k = "(i - a) mod 65536"
  have "0 \<le> ?k" by simp
  moreover have "(a + ?k) mod 65536 = i mod 65536"
    by (simp add: mod_add_right_eq)
  ultimately show "i mod 65536 \<in> (\<lambda>k. (a + k) mod 65536) ` {0 ..< len}"
    using h by (intro image_eqI [where x = ?k]) auto
qed

lemma getAttributeAt_addAttributeAt:
  "getAttributeAt (addAttributeAt a len attr s) i =
     (if (i - a) mod 65536 < len then getAttributeAt s i \<union> attr else getAttributeAt s i)"
  by (simp add: getAttributeAt_def addAttributeAt_def mask16 in_masked_range)

lemma getAttributeAt_setMemory:
  "getAttributeAt (setMemory a len s) i =
     (if (i - a) mod 65536 < len then getAttributeAt s i \<union> {ASSIGNED} else getAttributeAt s i)"
  by (simp add: setMemory_def getAttributeAt_addAttributeAt)

lemma getAttributeAt_new: "getAttributeAt Disassembler_new i = {}"
  by (simp add: getAttributeAt_def Disassembler_new_def)

lemma getAttributeAt_setFoundLabel [simp]:
  "getAttributeAt (setFoundLabel addr refs t attr s) i = getAttributeAt s i"
  by (simp add: getAttributeAt_def setFoundLabel_def Let_def)

lemma getAttributeAt_emit [simp]:
  "getAttributeAt (emit ev msg s) i = getAttributeAt s i"
  by (simp add: getAttributeAt_def emit_def)

lemma findOpcodeStart_setFoundLabel [simp]:
  "findOpcodeStart (setFoundLabel addr refs t attr s) a = findOpcodeStart s a"
  by (simp add: findOpcodeStart_def)

lemma addressQueue_setFoundLabel [simp]:
  "addressQueue (setFoundLabel addr refs t attr s) = addressQueue s"
  by (simp add: setFoundLabel_def Let_def)

lemma addAttributeAt_fields [simp]:
  "labels (addAttributeAt a len attr s) = labels s"
  "offsetLabels (addAttributeAt a len attr s) = offsetLabels s"
  "addressQueue (addAttributeAt a len attr s) = addressQueue s"
  "events (addAttributeAt a len attr s) = events s"
  "subroutineStatistics (addAttributeAt a len attr s) = subroutineStatistics s"
  "snaStartAddress (addAttributeAt a len attr s) = snaStartAddress s"
  "labelIntrptPrefix (addAttributeAt a len attr s) = labelIntrptPrefix s"
  by (simp_all add: addAttributeAt_def)

lemma setMemory_fields [simp]:
  "labels (setMemory a len s) = labels s"
  "offsetLabels (setMemory a len s) = offsetLabels s"
  "addressQueue (setMemory a len s) = addressQueue s"
  "events (setMemory a len s) = events s"
  "subroutineStatistics (setMemory a len s) = subroutineStatistics s"
  "snaStartAddress (setMemory a len s) = snaStartAddress s"
  "labelIntrptPrefix (setMemory a len s) = labelIntrptPrefix s"
  by (simp_all add: setMemory_def)

lemma Disassembler_new_fields [simp]:
  "labels Disassembler_new = []"
  "offsetLabels Disassembler_new = []"
  "addressQueue Disassembler_new = []"
  "events Disassembler_new = []"
  "subroutineStatistics Disassembler_new = []"
  "disassembledLines Disassembler_new = None"
  "snaStartAddress Disassembler_new = - 1"
  "labelIntrptPrefix Disassembler_new = ''INTRPT''"
  by (simp_all add: Disassembler_new_def)

subsection \<open>Pass 1: the type of a branch target and its queueing\<close>

text \<open>
  Claim C4. For a decoded instruction with \<open>BRANCH_ADDRESS\<close>, \<open>disassembleForLabel\<close>
  gives the target (through \<open>setFoundLabel\<close>) the decoder's default kind, except that a
  default \<open>CODE_LOCAL_LBL\<close> with the target at or before the instruction's address becomes
  \<open>CODE_LOCAL_LOOP\<close>, and a default \<open>CODE_LBL\<close> whose target byte lacks \<open>ASSIGNED\<close> becomes
  \<open>CODE_SUB\<close>. The target is appended to the address queue exactly when its byte is
  \<open>ASSIGNED\<close> and not yet \<open>CODE\<close>. The call returns \<open>false\<close> exactly when the target byte
  is \<open>CODE\<close> but not \<open>CODE_FIRST\<close>; it throws only there, when no opcode start is found
  within 4 bytes before the target.
\<close>

theorem disassembleForLabel_branch:
  assumes "BRANCH_ADDRESS \<in> op_flags opcode"
  shows "let target = op_value opcode;
             attr = getAttributeAt s target;
             t = (if op_valueType opcode = CODE_LOCAL_LBL \<and> target \<le> a then CODE_LOCAL_LOOP
                  else if op_valueType opcode = CODE_LBL \<and> ASSIGNED \<notin> attr then CODE_SUB
                  else op_valueType opcode)
         in case disassembleForLabel g a opcode s of
              Inl e \<Rightarrow> CODE \<in> attr \<and> CODE_FIRST \<notin> attr \<and> findOpcodeStart s target = Inl e
            | Inr (ok, s') \<Rightarrow>
                labels s' = labels (setFoundLabel target [a] t attr s)
                \<and> addressQueue s' =
                    (if ASSIGNED \<in> attr \<and> CODE \<notin> attr then addressQueue s @ [target]
                     else addressQueue s)
                \<and> ok = (\<not> (CODE \<in> attr \<and> CODE_FIRST \<notin> attr))"
  using assms
  by (auto simp: disassembleForLabel_def Let_def emit_def split: sum.splits)

text \<open>The theorem at a \<open>DJNZ\<close> at address 2 that branches back to address 0, in a
  memory whose bytes 0 to 3 are assigned and not yet decoded: the target becomes a
  \<open>CODE_LOCAL_LOOP\<close> referred to from 2, and is queued.\<close>

theorem disassembleForLabel_branch_witness:
  "case disassembleForLabel
          (\<lambda>a. \<lparr>op_name = ''DJNZ #n'', op_length = 2, op_flags = {BRANCH_ADDRESS},
                 op_value = 0, op_valueType = CODE_LOCAL_LBL\<rparr>) 2
          \<lparr>op_name = ''DJNZ #n'', op_length = 2, op_flags = {BRANCH_ADDRESS},
            op_value = 0, op_valueType = CODE_LOCAL_LBL\<rparr>
          (setMemory 0 4 Disassembler_new) of
     Inl e \<Rightarrow> False
   | Inr (ok, s') \<Rightarrow> ok \<and> addressQueue s' = [0]
        \<and> map (\<lambda>(a, l). (a, lbl_type l, references l)) (labels s') = [(0, CODE_LOCAL_LOOP, [2])]"
  using disassembleForLabel_branch
    [of "\<lparr>op_name = ''DJNZ #n'', op_length = 2, op_flags = {BRANCH_ADDRESS},
            op_value = 0, op_valueType = CODE_LOCAL_LBL\<rparr>"
        "setMemory 0 4 Disassembler_new" 2
        "\<lambda>a. \<lparr>op_name = ''DJNZ #n'', op_length = 2, op_flags = {BRANCH_ADDRESS},
                 op_value = 0, op_valueType = CODE_LOCAL_LBL\<rparr>"]
  by (auto simp: Let_def getAttributeAt_setMemory getAttributeAt_new
        setFoundLabel_def DisLabel_new_def Set_add_def split: sum.splits prod.splits)

subsection \<open>Pass 1: the ambiguity abort\<close>

lemma find_upto_None: "List.find P [l..u] = None \<longleftrightarrow> (\<forall>j. l \<le> j \<and> j \<le> u \<longrightarrow> \<not> P j)"
  by (auto simp: find_None_iff)

lemma find_upto_Some:
  "List.find P [l..u] = Some i \<Longrightarrow> l \<le> i \<and> i \<le> u \<and> P i \<and> (\<forall>j. l \<le> j \<and> j < i \<longrightarrow> \<not> P j)"
proof (induction l u rule: upto.induct)
  case (1 l u)
  show ?case
  proof (cases "l \<le> u")
    case False
    with "1.prems" show ?thesis by (simp add: upto.simps)
  next
    case True
    then have eq: "[l..u] = l # [l + 1..u]" by (simp add: upto.simps)
    show ?thesis
    proof (cases "P l")
      case True
      with "1.prems" eq \<open>l \<le> u\<close> show ?thesis by auto
    next
      case False
      with "1.prems" eq have "List.find P [l + 1..u] = Some i" by simp
      from "1.IH" [OF \<open>l \<le> u\<close> this]
      have ih: "l + 1 \<le> i" "i \<le> u" "P i" "\<forall>j. l + 1 \<le> j \<and> j < i \<longrightarrow> \<not> P j" by auto
      have "\<not> P j" if "l \<le> j" "j < i" for j
      proof (cases "j = l")
        case True with False show ?thesis by simp
      next
        case False
        with that have "l + 1 \<le> j" by simp
        with ih(4) that show ?thesis by blast
      qed
      with ih show ?thesis by auto
    qed
  qed
qed

lemma findOpcodeStart_Inr:
  "findOpcodeStart s a = Inr b \<Longrightarrow>
     CODE_FIRST \<in> getAttributeAt s b \<and> 1 \<le> a - b \<and> a - b \<le> 4"
  by (auto simp: findOpcodeStart_def split: option.splits if_splits)

lemma findOpcodeStart_Inl:
  "findOpcodeStart s a = Inl e \<longleftrightarrow>
     e = AssertionError \<and> (\<forall>d \<in> {1, 2, 3, 4}. CODE_FIRST \<notin> getAttributeAt s (a - d))"
  by (auto simp: findOpcodeStart_def split: option.splits if_splits)

lemma wf_new: "codeRunsWellFormed Disassembler_new"
  by (simp add: codeRunsWellFormed_def getAttributeAt_new)

lemma wf_same_code:
  assumes "codeRunsWellFormed s"
    and "\<And>b. CODE \<in> getAttributeAt s' b \<longleftrightarrow> CODE \<in> getAttributeAt s b"
    and "\<And>b. CODE_FIRST \<in> getAttributeAt s' b \<longleftrightarrow> CODE_FIRST \<in> getAttributeAt s b"
  shows "codeRunsWellFormed s'"
  using assms unfolding codeRunsWellFormed_def by simp

lemma wf_setMemory: "codeRunsWellFormed s \<Longrightarrow> codeRunsWellFormed (setMemory a len s)"
  by (erule wf_same_code) (simp_all add: getAttributeAt_setMemory)

lemma mod_pred: "1 \<le> (x::int) mod 65536 \<Longrightarrow> (x - 1) mod 65536 = x mod 65536 - 1"
proof -
  assume h: "1 \<le> x mod 65536"
  have "(x - 1) mod 65536 = (x mod 65536 - 1) mod 65536" by (simp add: mod_diff_left_eq)
  also have "\<dots> = x mod 65536 - 1"
  proof (rule mod_pos_pos_trivial)
    show "0 \<le> x mod 65536 - 1" using h by simp
    have "x mod 65536 < 65536" by simp
    then show "x mod 65536 - 1 < 65536" by linarith
  qed
  finally show ?thesis .
qed

lemma mod_self_sub: "((x::int) - x mod 65536) mod 65536 = 0"
  by (simp add: minus_mod_eq_mult_div)

lemma wf_mark:
  assumes wf: "codeRunsWellFormed s" and len: "len \<le> 5"
  shows "codeRunsWellFormed (addAttributeAt a len {CODE} (addAttributeAt a 1 {CODE_FIRST} s))"
  unfolding codeRunsWellFormed_def
proof (intro allI impI)
  fix b
  let ?s' = "addAttributeAt a len {CODE} (addAttributeAt a 1 {CODE_FIRST} s)"
  let ?k = "(b - a) mod 65536"
  assume h: "CODE \<in> getAttributeAt ?s' b \<and> CODE_FIRST \<notin> getAttributeAt ?s' b"
  have mono: "\<And>i. getAttributeAt s i \<subseteq> getAttributeAt ?s' i"
    by (auto simp: getAttributeAt_addAttributeAt)
  have k0: "0 \<le> ?k" by simp
  from h have "\<not> ?k < 1" 
    by (simp add: getAttributeAt_addAttributeAt split: if_splits)
  with k0 have k1: "1 \<le> ?k" by linarith
  from h have nf: "CODE_FIRST \<notin> getAttributeAt s b"
    by (simp add: getAttributeAt_addAttributeAt split: if_splits)
  show "CODE \<in> getAttributeAt ?s' (b - 1) \<and> (\<exists>d\<in>{1, 2, 3, 4}. CODE_FIRST \<in> getAttributeAt ?s' (b - d))"
  proof (cases "?k < len")
    case True
    have "(b - 1 - a) mod 65536 = ?k - 1" using mod_pred [of "b - a"] k1 by (simp add: algebra_simps)
    with True have c: "CODE \<in> getAttributeAt ?s' (b - 1)"
      by (simp add: getAttributeAt_addAttributeAt)
    have "(b - ?k - a) mod 65536 = 0" using mod_self_sub [of "b - a"] by (simp add: algebra_simps)
    then have f: "CODE_FIRST \<in> getAttributeAt ?s' (b - ?k)"
      by (simp add: getAttributeAt_addAttributeAt)
    have "?k = 1 \<or> ?k = 2 \<or> ?k = 3 \<or> ?k = 4" using k1 True len by linarith
    then have "?k \<in> {1, 2, 3, 4}" by simp
    with c f show ?thesis by blast
  next
    case False
    with h have "CODE \<in> getAttributeAt s b"
      by (simp add: getAttributeAt_addAttributeAt split: if_splits)
    with wf nf have "CODE \<in> getAttributeAt s (b - 1)
        \<and> (\<exists>d \<in> {1, 2, 3, 4}. CODE_FIRST \<in> getAttributeAt s (b - d))"
      unfolding codeRunsWellFormed_def by blast
    with mono show ?thesis by blast
  qed
qed


lemma getAttributeAt_queue [simp]:
  "getAttributeAt (s\<lparr>addressQueue := q\<rparr>) i = getAttributeAt s i"
  by (simp add: getAttributeAt_def)

lemma wf_emit [simp]: "codeRunsWellFormed (emit ev msg s) = codeRunsWellFormed s"
  by (simp add: codeRunsWellFormed_def)

lemma wf_setFoundLabel [simp]:
  "codeRunsWellFormed (setFoundLabel addr refs t attr s) = codeRunsWellFormed s"
  by (simp add: codeRunsWellFormed_def)

lemma wf_queue [simp]: "codeRunsWellFormed (s\<lparr>addressQueue := q\<rparr>) = codeRunsWellFormed s"
  by (simp add: codeRunsWellFormed_def)

lemma disassembleForLabel_attr:
  "disassembleForLabel g a opcode s = Inr (ok, s') \<Longrightarrow> getAttributeAt s' i = getAttributeAt s i"
  by (auto simp: disassembleForLabel_def Let_def split: if_splits sum.splits)

lemma disassembleForLabel_wf:
  "disassembleForLabel g a opcode s = Inr (ok, s') \<Longrightarrow> codeRunsWellFormed s' = codeRunsWellFormed s"
  by (simp add: codeRunsWellFormed_def disassembleForLabel_attr)

lemma disassembleForLabel_no_throw:
  assumes "codeRunsWellFormed s"
  shows "disassembleForLabel g a opcode s \<noteq> Inl e"
proof
  assume h: "disassembleForLabel g a opcode s = Inl e"
  then have c: "CODE \<in> getAttributeAt s (op_value opcode)"
    and f: "CODE_FIRST \<notin> getAttributeAt s (op_value opcode)"
    and n: "findOpcodeStart s (op_value opcode) = Inl e"
    by (auto simp: disassembleForLabel_def Let_def split: if_splits sum.splits)
  from assms c f have "\<exists>d \<in> {1, 2, 3, 4}. CODE_FIRST \<in> getAttributeAt s (op_value opcode - d)"
    unfolding codeRunsWellFormed_def by blast
  with n show False unfolding findOpcodeStart_Inl by blast
qed

lemma first_overlap_is_first:
  assumes wf: "codeRunsWellFormed s"
    and a: "CODE \<notin> getAttributeAt s a"
    and f: "List.find (\<lambda>i. CODE \<in> getAttributeAt s (a + i)) [1 .. len - 1] = Some i"
  shows "CODE_FIRST \<in> getAttributeAt s (a + i)"
proof (rule ccontr)
  assume nf: "CODE_FIRST \<notin> getAttributeAt s (a + i)"
  from find_upto_Some [OF f]
  have i: "1 \<le> i" "i \<le> len - 1" "CODE \<in> getAttributeAt s (a + i)"
    and least: "\<forall>j. 1 \<le> j \<and> j < i \<longrightarrow> CODE \<notin> getAttributeAt s (a + j)" by auto
  from wf i(3) nf have p: "CODE \<in> getAttributeAt s (a + i - 1)"
    unfolding codeRunsWellFormed_def by blast
  show False
  proof (cases "i = 1")
    case True with p a show False by simp
  next
    case False
    with i(1) have "1 \<le> i - 1" "i - 1 < i" by auto
    with least have "CODE \<notin> getAttributeAt s (a + (i - 1))" by blast
    with p show False by (simp add: algebra_simps)
  qed
qed

lemma step_wf:
  assumes wf: "codeRunsWellFormed s" and len: "\<forall>x. op_length (g x) \<le> 4"
  shows "\<exists>s'. stateOf (collectLabels_step g a s) = Some s' \<and> codeRunsWellFormed s'"
proof -
  let ?op = "g a"
  let ?s2 = "addAttributeAt a (op_length ?op) {CODE} (addAttributeAt a 1 {CODE_FIRST} s)"
  have l5: "op_length ?op \<le> 5" using len [rule_format, of a] by simp
  have wf2: "codeRunsWellFormed ?s2" by (rule wf_mark [OF wf l5])
  show ?thesis
  proof (cases "CODE \<in> getAttributeAt s a \<or> ASSIGNED \<notin> getAttributeAt s a")
    case True
    with wf show ?thesis by (auto simp: collectLabels_step_def Let_def)
  next
    case False
    then have a: "CODE \<notin> getAttributeAt s a" "ASSIGNED \<in> getAttributeAt s a" by auto
    show ?thesis
    proof (cases "List.find (\<lambda>i. CODE \<in> getAttributeAt s (a + i)) [1 .. op_length ?op - 1]")
      case (Some i)
      from first_overlap_is_first [OF wf a(1) Some] a Some wf show ?thesis
        by (simp add: collectLabels_step_def Let_def)
    next
      case None
      show ?thesis
      proof (cases "disassembleForLabel g a ?op ?s2")
        case (Inl e)
        with disassembleForLabel_no_throw [OF wf2] show ?thesis by blast
      next
        case (Inr r)
        obtain ok s3 where r: "r = (ok, s3)" by (cases r)
        from Inr r disassembleForLabel_wf [of g a ?op ?s2 ok s3] wf2
        have "codeRunsWellFormed s3" by simp
        with a None Inr r show ?thesis
          by (simp add: collectLabels_step_def Let_def)
      qed
    qed
  qed
qed

lemma trace_wf:
  assumes len: "\<forall>x. op_length (g x) \<le> 4"
  shows "codeRunsWellFormed s \<Longrightarrow> collectLabels_trace n g a s = Some r \<Longrightarrow>
         \<exists>s'. stateOf r = Some s' \<and> codeRunsWellFormed s'"
proof (induction n arbitrary: a s)
  case 0
  then show ?case by simp
next
  case (Suc n)
  from step_wf [OF Suc.prems(1) len, of a]
  obtain s1 where s1: "stateOf (collectLabels_step g a s) = Some s1" "codeRunsWellFormed s1"
    by blast
  show ?case
  proof (cases "collectLabels_step g a s")
    case (Continues a' s')
    with s1 Suc.prems Suc.IH [of s' a'] show ?thesis by simp
  next
    case (TraceEnds s')
    then have "r = TraceEnds s'" using Suc.prems(2) by simp
    moreover from s1 TraceEnds have "codeRunsWellFormed s'" by simp
    ultimately show ?thesis by simp
  next
    case (Aborts s')
    then have "r = Aborts s'" using Suc.prems(2) by simp
    moreover from s1 Aborts have "codeRunsWellFormed s'" by simp
    ultimately show ?thesis by simp
  next
    case (Throws e)
    with s1 show ?thesis by simp
  qed
qed

lemma collectLabels_no_throw:
  assumes len: "\<forall>x. op_length (g x) \<le> 4"
  shows "codeRunsWellFormed s \<Longrightarrow> collectLabels n g s \<noteq> Some (Inl e)"
proof (induction n arbitrary: s)
  case 0
  then show ?case by simp
next
  case (Suc n)
  show ?case
  proof (cases "addressQueue s")
    case Nil
    then show ?thesis by simp
  next
    case (Cons a rest)
    show ?thesis
    proof (cases "collectLabels_trace n g a (s\<lparr>addressQueue := rest\<rparr>)")
      case None
      with Cons show ?thesis by simp
    next
      case (Some r)
      from trace_wf [OF len _ Some] Suc.prems
      obtain s' where s': "stateOf r = Some s'" "codeRunsWellFormed s'" by auto
      with Cons Some Suc.IH [of s'] show ?thesis by (cases r) auto
    qed
  qed
qed


lemma step_unassigned:
  "CODE \<notin> getAttributeAt s a \<Longrightarrow> ASSIGNED \<notin> getAttributeAt s a \<Longrightarrow>
   collectLabels_step g a s = TraceEnds (emit ''warning'' (unassignedWarning a) s)"
  by (simp add: collectLabels_step_def)

lemma step_overlap:
  assumes wf: "codeRunsWellFormed s"
    and a: "CODE \<notin> getAttributeAt s a" "ASSIGNED \<in> getAttributeAt s a"
    and ov: "\<exists>i. 1 \<le> i \<and> i < op_length (g a) \<and> CODE \<in> getAttributeAt s (a + i)"
  shows "\<exists>m. a < m \<and> m < a + op_length (g a) \<and> CODE \<in> getAttributeAt s m \<and>
           collectLabels_step g a s =
             Aborts (emit ''warning''
               (ambiguousOpcodeWarning (op_name (g a)) a m (op_name (g m))) s)"
proof -
  let ?f = "List.find (\<lambda>i. CODE \<in> getAttributeAt s (a + i)) [1 .. op_length (g a) - 1]"
  from ov have "?f \<noteq> None" unfolding find_upto_None by auto
  then obtain i where i: "?f = Some i" by blast
  from find_upto_Some [OF i] have b: "1 \<le> i" "i \<le> op_length (g a) - 1"
    "CODE \<in> getAttributeAt s (a + i)" by auto
  from first_overlap_is_first [OF wf a(1) i] have "CODE_FIRST \<in> getAttributeAt s (a + i)" .
  with a i have "collectLabels_step g a s =
      Aborts (emit ''warning''
        (ambiguousOpcodeWarning (op_name (g a)) a (a + i) (op_name (g (a + i)))) s)"
    by (simp add: collectLabels_step_def Let_def)
  with b show ?thesis by (intro exI [where x = "a + i"]) auto
qed

lemma step_midbranch:
  assumes wf: "codeRunsWellFormed s" and len: "op_length (g a) \<le> 4"
    and a: "CODE \<notin> getAttributeAt s a" "ASSIGNED \<in> getAttributeAt s a"
    and nov: "\<not> (\<exists>i. 1 \<le> i \<and> i < op_length (g a) \<and> CODE \<in> getAttributeAt s (a + i))"
    and br: "BRANCH_ADDRESS \<in> op_flags (g a)"
    and mid: "CODE \<in> getAttributeAt
                 (addAttributeAt a (op_length (g a)) {CODE} (addAttributeAt a 1 {CODE_FIRST} s))
                 (op_value (g a))"
             "CODE_FIRST \<notin> getAttributeAt
                 (addAttributeAt a (op_length (g a)) {CODE} (addAttributeAt a 1 {CODE_FIRST} s))
                 (op_value (g a))"
  shows "\<exists>b s'. 1 \<le> op_value (g a) - b \<and> op_value (g a) - b \<le> 4 \<and>
           findOpcodeStart
             (addAttributeAt a (op_length (g a)) {CODE} (addAttributeAt a 1 {CODE_FIRST} s))
             (op_value (g a)) = Inr b \<and>
           collectLabels_step g a s =
             Aborts (emit ''warning''
               (ambiguousBranchWarning (op_name (g a)) a (op_name (g b)) b) s') \<and>
           memoryAttr s' =
             memoryAttr (addAttributeAt a (op_length (g a)) {CODE} (addAttributeAt a 1 {CODE_FIRST} s)) \<and>
           addressQueue s' = addressQueue s \<and> events s' = events s \<and>
           (\<forall>x. x \<noteq> op_value (g a) \<longrightarrow> map_of (labels s') x = map_of (labels s) x)"
proof -
  let ?s2 = "addAttributeAt a (op_length (g a)) {CODE} (addAttributeAt a 1 {CODE_FIRST} s)"
  let ?t = "op_value (g a)"
  have wf2: "codeRunsWellFormed ?s2" using wf_mark [OF wf, of "op_length (g a)" a] len by simp
  from nov have none: "List.find (\<lambda>i. CODE \<in> getAttributeAt s (a + i)) [1 .. op_length (g a) - 1] = None"
    unfolding find_upto_None by auto
  from wf2 mid have "\<exists>d \<in> {1, 2, 3, 4}. CODE_FIRST \<in> getAttributeAt ?s2 (?t - d)"
    unfolding codeRunsWellFormed_def by blast
  then have "\<forall>e. findOpcodeStart ?s2 ?t \<noteq> Inl e" unfolding findOpcodeStart_Inl by blast
  then obtain b where b: "findOpcodeStart ?s2 ?t = Inr b" by (cases "findOpcodeStart ?s2 ?t") auto
  from findOpcodeStart_Inr [OF b] have bd: "1 \<le> ?t - b" "?t - b \<le> 4" by auto
  define vType where "vType =
     (if op_valueType (g a) = CODE_LOCAL_LBL then
        (if ?t \<le> a then CODE_LOCAL_LOOP else op_valueType (g a))
      else if op_valueType (g a) = CODE_LBL then
        (if ASSIGNED \<notin> getAttributeAt ?s2 ?t then CODE_SUB else op_valueType (g a))
      else op_valueType (g a))"
  let ?s1 = "setFoundLabel ?t [a] vType (getAttributeAt ?s2 ?t) ?s2"
  have d: "disassembleForLabel g a (g a) ?s2 =
      Inr (False, emit ''warning'' (ambiguousBranchWarning (op_name (g a)) a (op_name (g b)) b) ?s1)"
    using br mid b by (simp add: disassembleForLabel_def Let_def vType_def)
  have st: "collectLabels_step g a s =
      Aborts (emit ''warning'' (ambiguousBranchWarning (op_name (g a)) a (op_name (g b)) b) ?s1)"
    using a none d by (simp add: collectLabels_step_def Let_def)
  have fr: "memoryAttr ?s1 = memoryAttr ?s2" "addressQueue ?s1 = addressQueue s"
    "events ?s1 = events s"
    by (simp_all add: setFoundLabel_def Let_def)
  have lb: "\<forall>x. x \<noteq> ?t \<longrightarrow> map_of (labels ?s1) x = map_of (labels s) x"
    by (simp add: map_of_setFoundLabel_other)
  from bd b st fr lb show ?thesis by blast
qed

lemma step_abort_only:
  assumes "collectLabels_step g a s = Aborts s'"
  shows "CODE \<notin> getAttributeAt s a \<and> ASSIGNED \<in> getAttributeAt s a \<and>
         ((\<exists>i. 1 \<le> i \<and> i < op_length (g a) \<and> CODE \<in> getAttributeAt s (a + i)) \<or>
          (BRANCH_ADDRESS \<in> op_flags (g a) \<and>
           CODE \<in> getAttributeAt
                 (addAttributeAt a (op_length (g a)) {CODE} (addAttributeAt a 1 {CODE_FIRST} s))
                 (op_value (g a)) \<and>
           CODE_FIRST \<notin> getAttributeAt
                 (addAttributeAt a (op_length (g a)) {CODE} (addAttributeAt a 1 {CODE_FIRST} s))
                 (op_value (g a))))"
proof -
  let ?s2 = "addAttributeAt a (op_length (g a)) {CODE} (addAttributeAt a 1 {CODE_FIRST} s)"
  from assms have a: "CODE \<notin> getAttributeAt s a" "ASSIGNED \<in> getAttributeAt s a"
    by (auto simp: collectLabels_step_def Let_def split: if_splits)
  show ?thesis
  proof (cases "List.find (\<lambda>i. CODE \<in> getAttributeAt s (a + i)) [1 .. op_length (g a) - 1]")
    case (Some i)
    from find_upto_Some [OF Some] a show ?thesis by auto
  next
    case None
    with assms a obtain s3 where "disassembleForLabel g a (g a) ?s2 = Inr (False, s3)"
      by (auto simp: collectLabels_step_def Let_def split: if_splits sum.splits)
    then have "BRANCH_ADDRESS \<in> op_flags (g a) \<and> CODE \<in> getAttributeAt ?s2 (op_value (g a))
        \<and> CODE_FIRST \<notin> getAttributeAt ?s2 (op_value (g a))"
      by (auto simp: disassembleForLabel_def Let_def split: if_splits sum.splits)
    with a show ?thesis by blast
  qed
qed

lemma natToString_small: "n < 16 \<Longrightarrow> natToString 16 n = [digitChar n]"
  by (simp add: natToString.simps)

lemma upto_1_2: "[1..2::int] = [1, 2]"
  by (simp add: upto.simps)


lemma trace_Suc:
  "collectLabels_trace n g a s = Some r \<Longrightarrow> collectLabels_trace (Suc n) g a s = Some r"
proof (induction n arbitrary: a s)
  case 0
  then show ?case by simp
next
  case (Suc n)
  show ?case
  proof (cases "collectLabels_step g a s")
    case (Continues a1 s1)
    with Suc.prems have "collectLabels_trace n g a1 s1 = Some r" by simp
    from Suc.IH [OF this] Continues show ?thesis by simp
  next
    case (TraceEnds s1)
    with Suc.prems show ?thesis by auto
  next
    case (Aborts s1)
    with Suc.prems show ?thesis by auto
  next
    case (Throws e)
    with Suc.prems show ?thesis by auto
  qed
qed

lemma collectLabels_unfold:
  "collectLabels (Suc n) g s =
     (case collectLabels_start s of
        None \<Rightarrow> Some (Inr s)
      | Some (a, s1) \<Rightarrow> collectLabels_from n g a s1)"
  by (simp add: collectLabels_start_def collectLabels_from_def split: list.splits)

lemma collectLabels_Suc:
  "collectLabels n g s = Some r \<Longrightarrow> collectLabels (Suc n) g s = Some r"
proof (induction n arbitrary: s)
  case 0
  then show ?case by simp
next
  case (Suc n)
  show ?case
  proof (cases "addressQueue s")
    case Nil
    with Suc.prems show ?thesis by simp
  next
    case (Cons a rest)
    show ?thesis
    proof (cases "collectLabels_trace n g a (s\<lparr>addressQueue := rest\<rparr>)")
      case None
      with Cons Suc.prems show ?thesis by simp
    next
      case (Some t)
      note tS = trace_Suc [OF Some]
      show ?thesis
      proof (cases t)
        case (TraceEnds s1)
        with Suc.prems Cons Some have "collectLabels n g s1 = Some r" by simp
        from Suc.IH [OF this] Cons tS TraceEnds show ?thesis
          by (simp del: collectLabels_trace.simps)
      next
        case (Aborts s1)
        with Suc.prems Cons Some tS show ?thesis by (simp del: collectLabels_trace.simps)
      next
        case (Continues a1 s1)
        with Suc.prems Cons Some show ?thesis by simp
      next
        case (Throws e)
        with Suc.prems Cons Some tS show ?thesis by (simp del: collectLabels_trace.simps)
      qed
    qed
  qed
qed

lemma collectLabels_mono:
  "collectLabels n g s = Some r \<Longrightarrow> n \<le> m \<Longrightarrow> collectLabels m g s = Some r"
proof (induction m)
  case 0
  then show ?case by simp
next
  case (Suc m)
  show ?case
  proof (cases "n = Suc m")
    case True
    with Suc.prems show ?thesis by simp
  next
    case False
    with Suc.prems have "n \<le> m" by simp
    from collectLabels_Suc [OF Suc.IH [OF Suc.prems(1) this]] show ?thesis .
  qed
qed

lemma from_Suc:
  "collectLabels_from n g a s = Some r \<Longrightarrow> collectLabels_from (Suc n) g a s = Some r"
proof -
  assume h: "collectLabels_from n g a s = Some r"
  then obtain t where Some: "collectLabels_trace n g a s = Some t"
    by (auto simp: collectLabels_from_def split: option.splits)
  note tS = trace_Suc [OF Some]
  show ?thesis
  proof (cases t)
    case (TraceEnds s1)
    with h Some have "collectLabels n g s1 = Some r" by (simp add: collectLabels_from_def)
    from collectLabels_Suc [OF this] tS TraceEnds show ?thesis
      by (simp add: collectLabels_from_def del: collectLabels_trace.simps collectLabels.simps)
  next
    case (Aborts s1)
    with h Some tS show ?thesis
      by (simp add: collectLabels_from_def del: collectLabels_trace.simps collectLabels.simps)
  next
    case (Continues a1 s1)
    with h Some show ?thesis by (simp add: collectLabels_from_def)
  next
    case (Throws e)
    with h Some tS show ?thesis
      by (simp add: collectLabels_from_def del: collectLabels_trace.simps collectLabels.simps)
  qed
qed

lemma from_next:
  assumes "collectLabels_next g (a, s) = Some (a1, s1)"
    and "collectLabels_from n g a1 s1 = Some r"
  shows "collectLabels_from (Suc n) g a s = Some r"
proof (cases "collectLabels_step g a s")
  case (Continues a' s')
  with assms(1) have e: "a' = a1" "s' = s1" by (simp_all add: collectLabels_next_def)
  have tr: "collectLabels_trace (Suc n) g a s = collectLabels_trace n g a1 s1"
    using Continues e by simp
  show ?thesis
  proof (cases "collectLabels_trace n g a1 s1")
    case None
    with assms(2) show ?thesis by (simp add: collectLabels_from_def)
  next
    case (Some t)
    show ?thesis
    proof (cases t)
      case (TraceEnds s2)
      with assms(2) Some have "collectLabels n g s2 = Some r" by (simp add: collectLabels_from_def)
      from collectLabels_Suc [OF this] Some TraceEnds show ?thesis
        unfolding collectLabels_from_def tr by (simp del: collectLabels.simps)
    next
      case (Aborts s2)
      with assms(2) Some show ?thesis unfolding collectLabels_from_def tr by simp
    next
      case (Continues a2 s2)
      with assms(2) Some show ?thesis by (simp add: collectLabels_from_def)
    next
      case (Throws e)
      with assms(2) Some show ?thesis unfolding collectLabels_from_def tr by simp
    qed
  qed
next
  case (TraceEnds s')
  with assms(1) have st: "collectLabels_start s' = Some (a1, s1)"
    by (simp add: collectLabels_next_def)
  have "collectLabels_from (Suc n) g a s = collectLabels (Suc n) g s'"
    using TraceEnds by (simp add: collectLabels_from_def)
  also have "\<dots> = collectLabels_from n g a1 s1"
    unfolding collectLabels_unfold using st by simp
  finally show ?thesis using assms(2) by simp
next
  case (Aborts s')
  with assms(1) show ?thesis by (simp add: collectLabels_next_def)
next
  case (Throws e)
  with assms(1) show ?thesis by (simp add: collectLabels_next_def)
qed

lemma from_after:
  "collectLabels_after k g (a0, t0) = Some (a, s) \<Longrightarrow> collectLabels_from n g a s = Some r \<Longrightarrow>
   collectLabels_from (n + k) g a0 t0 = Some r"
proof (induction k arbitrary: a0 t0)
  case 0
  then show ?case by simp
next
  case (Suc k)
  from Suc.prems(1) obtain a1 t1 where n: "collectLabels_next g (a0, t0) = Some (a1, t1)"
    and a: "collectLabels_after k g (a1, t1) = Some (a, s)"
    by (auto split: option.splits)
  from Suc.IH [OF a Suc.prems(2)] from_next [OF n] show ?case by simp
qed

lemma collectLabels_of_body:
  assumes "collectLabels_body k g s0 = Some (a, s)" and "collectLabels_from n g a s = Some r"
  shows "collectLabels (Suc (n + k)) g s0 = Some r"
proof -
  from assms(1) obtain a0 t0 where st: "collectLabels_start s0 = Some (a0, t0)"
    and af: "collectLabels_after k g (a0, t0) = Some (a, s)"
    by (auto simp: collectLabels_body_def split: option.splits)
  from from_after [OF af assms(2)] st show ?thesis
    unfolding collectLabels_unfold by simp
qed

lemma from_abort:
  "collectLabels_step g a s = Aborts s' \<Longrightarrow> collectLabels_from (Suc n) g a s = Some (Inr s')"
  by (simp add: collectLabels_from_def)

lemma abort_returns:
  assumes "collectLabels_body k g s0 = Some (a, s)" and "collectLabels_step g a s = Aborts s'"
    and "k + 2 \<le> n"
  shows "collectLabels n g s0 = Some (Inr s')"
proof -
  from collectLabels_of_body [OF assms(1) from_abort [OF assms(2), of 0]]
  have "collectLabels (k + 2) g s0 = Some (Inr s')" by simp
  from collectLabels_mono [OF this assms(3)] show ?thesis .
qed

lemma after_append:
  "collectLabels_after k g c = Some c1 \<Longrightarrow>
   collectLabels_after (k + j) g c = collectLabels_after j g c1"
  by (induction k arbitrary: c) (auto split: option.splits)

lemma body_Suc:
  "collectLabels_body k g s0 = Some c \<Longrightarrow>
   collectLabels_body (Suc k) g s0 = collectLabels_next g c"
proof -
  assume h: "collectLabels_body k g s0 = Some c"
  then obtain c0 where st: "collectLabels_start s0 = Some c0"
    and af: "collectLabels_after k g c0 = Some c"
    by (auto simp: collectLabels_body_def split: option.splits)
  from after_append [OF af, of 1] have "collectLabels_after (Suc k) g c0 = collectLabels_next g c"
    by (simp split: option.splits)
  with st show ?thesis by (simp add: collectLabels_body_def)
qed

lemma trace_last_step:
  "collectLabels_trace n g a s = Some r \<Longrightarrow>
   \<exists>k a1 s1. collectLabels_after k g (a, s) = Some (a1, s1) \<and> collectLabels_step g a1 s1 = r
      \<and> (\<forall>a' s'. r \<noteq> Continues a' s')"
proof (induction n arbitrary: a s)
  case 0
  then show ?case by simp
next
  case (Suc n)
  show ?case
  proof (cases "collectLabels_step g a s")
    case (Continues a' s')
    with Suc.prems have "collectLabels_trace n g a' s' = Some r" by simp
    from Suc.IH [OF this] obtain k a1 s1 where
      k: "collectLabels_after k g (a', s') = Some (a1, s1)" "collectLabels_step g a1 s1 = r"
         "\<forall>a' s'. r \<noteq> Continues a' s'" by blast
    from Continues k(1) have "collectLabels_after (Suc k) g (a, s) = Some (a1, s1)"
      by (simp add: collectLabels_next_def)
    with k(2,3) show ?thesis by blast
  next
    case (TraceEnds s')
    with Suc.prems have "r = TraceEnds s'" by simp
    with TraceEnds have "collectLabels_after 0 g (a, s) = Some (a, s) \<and> collectLabels_step g a s = r
        \<and> (\<forall>a' s'. r \<noteq> Continues a' s')" by simp
    then show ?thesis by blast
  next
    case (Aborts s')
    with Suc.prems have "r = Aborts s'" by simp
    with Aborts have "collectLabels_after 0 g (a, s) = Some (a, s) \<and> collectLabels_step g a s = r
        \<and> (\<forall>a' s'. r \<noteq> Continues a' s')" by simp
    then show ?thesis by blast
  next
    case (Throws e)
    with Suc.prems have "r = Throws e" by simp
    with Throws have "collectLabels_after 0 g (a, s) = Some (a, s) \<and> collectLabels_step g a s = r
        \<and> (\<forall>a' s'. r \<noteq> Continues a' s')" by simp
    then show ?thesis by blast
  qed
qed

lemma early_return_is_abort:
  "collectLabels n g s0 = Some (Inr s') \<Longrightarrow>
   addressQueue s' = [] \<or>
   (\<exists>k a s. collectLabels_body k g s0 = Some (a, s) \<and> collectLabels_step g a s = Aborts s')"
proof (induction n arbitrary: s0)
  case 0
  then show ?case by simp
next
  case (Suc n)
  show ?case
  proof (cases "addressQueue s0")
    case Nil
    with Suc.prems show ?thesis by simp
  next
    case (Cons a0 rest)
    let ?t0 = "s0\<lparr>addressQueue := rest\<rparr>"
    have st: "collectLabels_start s0 = Some (a0, ?t0)" using Cons by (simp add: collectLabels_start_def)
    from Suc.prems Cons obtain r where tr: "collectLabels_trace n g a0 ?t0 = Some r"
      by (auto split: option.splits)
    from trace_last_step [OF tr] obtain k a1 s1 where
      k: "collectLabels_after k g (a0, ?t0) = Some (a1, s1)" "collectLabels_step g a1 s1 = r" by blast
    have bk: "collectLabels_body k g s0 = Some (a1, s1)" using st k(1) by (simp add: collectLabels_body_def)
    show ?thesis
    proof (cases r)
      case (Aborts s'')
      with Suc.prems Cons tr have "s'' = s'" by simp
      with bk k(2) Aborts show ?thesis by blast
    next
      case (TraceEnds s'')
      with Suc.prems Cons tr have "collectLabels n g s'' = Some (Inr s')" by simp
      from Suc.IH [OF this] show ?thesis
      proof
        assume "addressQueue s' = []" then show ?thesis by simp
      next
        assume "\<exists>k a s. collectLabels_body k g s'' = Some (a, s) \<and> collectLabels_step g a s = Aborts s'"
        then obtain k2 a2 s2 where b2: "collectLabels_body k2 g s'' = Some (a2, s2)"
          and ab: "collectLabels_step g a2 s2 = Aborts s'" by blast
        from b2 obtain c where c: "collectLabels_start s'' = Some c"
          and ac: "collectLabels_after k2 g c = Some (a2, s2)"
          by (auto simp: collectLabels_body_def split: option.splits)
        have nx: "collectLabels_next g (a1, s1) = Some c"
          using k(2) TraceEnds c by (simp add: collectLabels_next_def)
        from after_append [OF k(1), of "Suc k2"] nx ac
        have "collectLabels_after (k + Suc k2) g (a0, ?t0) = Some (a2, s2)" by simp
        with st have "collectLabels_body (k + Suc k2) g s0 = Some (a2, s2)"
          by (simp add: collectLabels_body_def)
        with ab show ?thesis by blast
      qed
    next
      case (Continues a' s'')
      with Suc.prems Cons tr show ?thesis by simp
    next
      case (Throws e)
      with Suc.prems Cons tr show ?thesis by simp
    qed
  qed
qed

lemma start_wf:
  "codeRunsWellFormed s \<Longrightarrow> collectLabels_start s = Some (a, s1) \<Longrightarrow> codeRunsWellFormed s1"
  by (auto simp: collectLabels_start_def split: list.splits)

lemma next_wf:
  assumes len: "\<forall>x. op_length (g x) \<le> 4" and wf: "codeRunsWellFormed s"
    and n: "collectLabels_next g (a, s) = Some (a1, s1)"
  shows "codeRunsWellFormed s1"
proof -
  from step_wf [OF wf len, of a] obtain s' where
    s': "stateOf (collectLabels_step g a s) = Some s'" "codeRunsWellFormed s'" by blast
  show ?thesis
  proof (cases "collectLabels_step g a s")
    case (Continues a' t)
    with n s' show ?thesis by (simp add: collectLabels_next_def)
  next
    case (TraceEnds t)
    with n s' start_wf [of t a1 s1] show ?thesis by (simp add: collectLabels_next_def)
  next
    case (Aborts t)
    with n show ?thesis by (simp add: collectLabels_next_def)
  next
    case (Throws e)
    with n show ?thesis by (simp add: collectLabels_next_def)
  qed
qed

lemma after_wf:
  assumes len: "\<forall>x. op_length (g x) \<le> 4"
  shows "codeRunsWellFormed s \<Longrightarrow> collectLabels_after k g (a, s) = Some (a1, s1) \<Longrightarrow>
         codeRunsWellFormed s1"
proof (induction k arbitrary: a s)
  case 0
  then show ?case by simp
next
  case (Suc k)
  from Suc.prems(2) obtain a' s' where n: "collectLabels_next g (a, s) = Some (a', s')"
    and a: "collectLabels_after k g (a', s') = Some (a1, s1)"
    by (auto split: option.splits)
  from next_wf [OF len Suc.prems(1) n] Suc.IH [OF _ a] show ?case by simp
qed

lemma body_wf:
  assumes len: "\<forall>x. op_length (g x) \<le> 4" and wf: "codeRunsWellFormed s0"
    and b: "collectLabels_body k g s0 = Some (a, s)"
  shows "codeRunsWellFormed s"
proof -
  from b obtain a0 t0 where st: "collectLabels_start s0 = Some (a0, t0)"
    and af: "collectLabels_after k g (a0, t0) = Some (a, s)"
    by (auto simp: collectLabels_body_def split: option.splits)
  from after_wf [OF len start_wf [OF wf st] af] show ?thesis .
qed


text \<open>
  Claim C3, as the code has it. Let the code attributes be well formed, as pass 1 itself
  keeps them, and let no instruction be longer than 4 bytes. At every pass through the
  loop body of \<open>collectLabels\<close>, say the \<open>k\<close>-th, at the address \<open>a\<close> in the state \<open>s\<close>:
  \<^item> if the byte at \<open>a\<close> is assigned and not yet code, and one of the bytes \<open>1 .. len-1\<close> of
    the instruction decoded at \<open>a\<close> is already \<open>CODE\<close>, the body aborts: the state is
    unchanged except for one \<open>'warning'\<close> event, whose text holds the mnemonic and address
    of the instruction at \<open>a\<close> and the mnemonic and address \<open>m\<close> of the instruction found
    there;
  \<^item> if the instruction is a branch whose target byte is \<open>CODE\<close> but not \<open>CODE_FIRST\<close>
    (after the instruction's own bytes have been marked), the body aborts: the event
    holds both mnemonics and both addresses, the second being the start \<open>b\<close> of the
    instruction that holds the target; the marks and the target's label stay;
  \<^item> the body aborts in no other case;
  \<^item> an abort makes \<open>collectLabels\<close> return, for every bound from \<open>k + 2\<close> on, in the very
    state of the abort: what is left of the queue stays unprocessed, and what has been
    collected stays;
  \<^item> at an unassigned byte the body only emits a warning and ends the trace: the next
    pass through the body is at the next queue entry, if there is one.
  \<open>collectLabels\<close> never throws, and when it returns with addresses left in the queue, it
  does so in the state of an abort. All this is about pass 1: \<open>disassemble()\<close> goes on
  with its later passes.
\<close>

theorem collectLabels_ambiguity_ends_pass:
  assumes wf: "codeRunsWellFormed s0" and len: "\<forall>x. op_length (g x) \<le> 4"
  shows
    "(collectLabels_body k g s0 = Some (a, s) \<longrightarrow>
       (let opcode = g a;
            marked = addAttributeAt a (op_length opcode) {CODE} (addAttributeAt a 1 {CODE_FIRST} s);
            target = op_value opcode;
            decoded = (CODE \<notin> getAttributeAt s a \<and> ASSIGNED \<in> getAttributeAt s a);
            overlap = (\<exists>i. 1 \<le> i \<and> i < op_length opcode \<and> CODE \<in> getAttributeAt s (a + i));
            midBranch = (BRANCH_ADDRESS \<in> op_flags opcode \<and> CODE \<in> getAttributeAt marked target
                         \<and> CODE_FIRST \<notin> getAttributeAt marked target)
        in (decoded \<and> overlap \<longrightarrow>
              (\<exists>m. a < m \<and> m < a + op_length opcode \<and> CODE \<in> getAttributeAt s m \<and>
                 collectLabels_step g a s =
                   Aborts (emit ''warning''
                     (ambiguousOpcodeWarning (op_name opcode) a m (op_name (g m))) s)))
         \<and> (decoded \<and> \<not> overlap \<and> midBranch \<longrightarrow>
              (\<exists>b s'. 1 \<le> target - b \<and> target - b \<le> 4 \<and>
                 findOpcodeStart marked target = Inr b \<and>
                 collectLabels_step g a s =
                   Aborts (emit ''warning''
                     (ambiguousBranchWarning (op_name opcode) a (op_name (g b)) b) s') \<and>
                 memoryAttr s' = memoryAttr marked \<and> addressQueue s' = addressQueue s \<and>
                 events s' = events s \<and>
                 (\<forall>x. x \<noteq> target \<longrightarrow> map_of (labels s') x = map_of (labels s) x)))
         \<and> (\<forall>s'. collectLabels_step g a s = Aborts s' \<longrightarrow> decoded \<and> (overlap \<or> midBranch))
         \<and> (\<forall>s' n. collectLabels_step g a s = Aborts s' \<longrightarrow> k + 2 \<le> n \<longrightarrow>
               collectLabels n g s0 = Some (Inr s'))
         \<and> (CODE \<notin> getAttributeAt s a \<and> ASSIGNED \<notin> getAttributeAt s a \<longrightarrow>
               collectLabels_step g a s = TraceEnds (emit ''warning'' (unassignedWarning a) s)
               \<and> collectLabels_body (Suc k) g s0
                   = collectLabels_start (emit ''warning'' (unassignedWarning a) s))))
     \<and> (\<forall>n e. collectLabels n g s0 \<noteq> Some (Inl e))
     \<and> (\<forall>n s'. collectLabels n g s0 = Some (Inr s') \<longrightarrow>
           addressQueue s' = [] \<or>
           (\<exists>k a s. collectLabels_body k g s0 = Some (a, s) \<and> collectLabels_step g a s = Aborts s'))"
proof (intro conjI impI)
  assume b: "collectLabels_body k g s0 = Some (a, s)"
  have wfs: "codeRunsWellFormed s" by (rule body_wf [OF len wf b])
  have l4: "op_length (g a) \<le> 4" using len by simp
  have c1: "CODE \<notin> getAttributeAt s a \<and> ASSIGNED \<in> getAttributeAt s a \<and>
        (\<exists>i. 1 \<le> i \<and> i < op_length (g a) \<and> CODE \<in> getAttributeAt s (a + i)) \<Longrightarrow>
        (\<exists>m. a < m \<and> m < a + op_length (g a) \<and> CODE \<in> getAttributeAt s m \<and>
              collectLabels_step g a s =
                Aborts (emit ''warning''
                  (ambiguousOpcodeWarning (op_name (g a)) a m (op_name (g m))) s))"
    using step_overlap [OF wfs, of a g] by blast
  have c2: "CODE \<notin> getAttributeAt s a \<and> ASSIGNED \<in> getAttributeAt s a \<Longrightarrow>
        \<not> (\<exists>i. 1 \<le> i \<and> i < op_length (g a) \<and> CODE \<in> getAttributeAt s (a + i)) \<Longrightarrow>
        BRANCH_ADDRESS \<in> op_flags (g a) \<and>
        CODE \<in> getAttributeAt
           (addAttributeAt a (op_length (g a)) {CODE} (addAttributeAt a 1 {CODE_FIRST} s)) (op_value (g a)) \<and>
        CODE_FIRST \<notin> getAttributeAt
           (addAttributeAt a (op_length (g a)) {CODE} (addAttributeAt a 1 {CODE_FIRST} s)) (op_value (g a)) \<Longrightarrow>
        (\<exists>b s'. 1 \<le> op_value (g a) - b \<and> op_value (g a) - b \<le> 4 \<and>
              findOpcodeStart
                (addAttributeAt a (op_length (g a)) {CODE} (addAttributeAt a 1 {CODE_FIRST} s))
                (op_value (g a)) = Inr b \<and>
              collectLabels_step g a s =
                Aborts (emit ''warning''
                  (ambiguousBranchWarning (op_name (g a)) a (op_name (g b)) b) s') \<and>
              memoryAttr s' = memoryAttr
                (addAttributeAt a (op_length (g a)) {CODE} (addAttributeAt a 1 {CODE_FIRST} s)) \<and>
              addressQueue s' = addressQueue s \<and> events s' = events s \<and>
              (\<forall>x. x \<noteq> op_value (g a) \<longrightarrow> map_of (labels s') x = map_of (labels s) x))"
    using step_midbranch [where s = s and g = g and a = a] wfs l4 by blast
  have c3: "\<And>s'. collectLabels_step g a s = Aborts s' \<Longrightarrow>
        CODE \<notin> getAttributeAt s a \<and> ASSIGNED \<in> getAttributeAt s a \<and>
         ((\<exists>i. 1 \<le> i \<and> i < op_length (g a) \<and> CODE \<in> getAttributeAt s (a + i)) \<or>
          (BRANCH_ADDRESS \<in> op_flags (g a) \<and>
           CODE \<in> getAttributeAt
                 (addAttributeAt a (op_length (g a)) {CODE} (addAttributeAt a 1 {CODE_FIRST} s))
                 (op_value (g a)) \<and>
           CODE_FIRST \<notin> getAttributeAt
                 (addAttributeAt a (op_length (g a)) {CODE} (addAttributeAt a 1 {CODE_FIRST} s))
                 (op_value (g a))))"
    by (rule step_abort_only)
  have c4: "\<And>s' n. collectLabels_step g a s = Aborts s' \<Longrightarrow> k + 2 \<le> n \<Longrightarrow>
        collectLabels n g s0 = Some (Inr s')"
    by (rule abort_returns [OF b])
  have c5: "CODE \<notin> getAttributeAt s a \<and> ASSIGNED \<notin> getAttributeAt s a \<Longrightarrow>
        collectLabels_step g a s = TraceEnds (emit ''warning'' (unassignedWarning a) s)
        \<and> collectLabels_body (Suc k) g s0
            = collectLabels_start (emit ''warning'' (unassignedWarning a) s)"
    using step_unassigned [of s a g] body_Suc [OF b, of ] by (simp add: collectLabels_next_def)
  show "let opcode = g a;
            marked = addAttributeAt a (op_length opcode) {CODE} (addAttributeAt a 1 {CODE_FIRST} s);
            target = op_value opcode;
            decoded = (CODE \<notin> getAttributeAt s a \<and> ASSIGNED \<in> getAttributeAt s a);
            overlap = (\<exists>i. 1 \<le> i \<and> i < op_length opcode \<and> CODE \<in> getAttributeAt s (a + i));
            midBranch = (BRANCH_ADDRESS \<in> op_flags opcode \<and> CODE \<in> getAttributeAt marked target
                         \<and> CODE_FIRST \<notin> getAttributeAt marked target)
        in (decoded \<and> overlap \<longrightarrow>
              (\<exists>m. a < m \<and> m < a + op_length opcode \<and> CODE \<in> getAttributeAt s m \<and>
                 collectLabels_step g a s =
                   Aborts (emit ''warning''
                     (ambiguousOpcodeWarning (op_name opcode) a m (op_name (g m))) s)))
         \<and> (decoded \<and> \<not> overlap \<and> midBranch \<longrightarrow>
              (\<exists>b s'. 1 \<le> target - b \<and> target - b \<le> 4 \<and>
                 findOpcodeStart marked target = Inr b \<and>
                 collectLabels_step g a s =
                   Aborts (emit ''warning''
                     (ambiguousBranchWarning (op_name opcode) a (op_name (g b)) b) s') \<and>
                 memoryAttr s' = memoryAttr marked \<and> addressQueue s' = addressQueue s \<and>
                 events s' = events s \<and>
                 (\<forall>x. x \<noteq> target \<longrightarrow> map_of (labels s') x = map_of (labels s) x)))
         \<and> (\<forall>s'. collectLabels_step g a s = Aborts s' \<longrightarrow> decoded \<and> (overlap \<or> midBranch))
         \<and> (\<forall>s' n. collectLabels_step g a s = Aborts s' \<longrightarrow> k + 2 \<le> n \<longrightarrow>
               collectLabels n g s0 = Some (Inr s'))
         \<and> (CODE \<notin> getAttributeAt s a \<and> ASSIGNED \<notin> getAttributeAt s a \<longrightarrow>
               collectLabels_step g a s = TraceEnds (emit ''warning'' (unassignedWarning a) s)
               \<and> collectLabels_body (Suc k) g s0
                   = collectLabels_start (emit ''warning'' (unassignedWarning a) s))"
    unfolding Let_def
    apply (intro conjI impI allI)
    subgoal using c1 by blast
    subgoal using c2 by blast
    subgoal using c3 by blast
    subgoal using c3 by blast
    subgoal using c3 by blast
    subgoal using c4 by blast
    subgoal using c5 by blast
    subgoal using c5 by blast
    done
next
  show "\<forall>n e. collectLabels n g s0 \<noteq> Some (Inl e)"
    using collectLabels_no_throw [OF len wf] by blast
next
  show "\<forall>n s'. collectLabels n g s0 = Some (Inr s') \<longrightarrow>
           addressQueue s' = [] \<or>
           (\<exists>k a s. collectLabels_body k g s0 = Some (a, s) \<and> collectLabels_step g a s = Aborts s')"
    using early_return_is_abort by blast
qed


lemma getAttributeAt_setFixedCodeLabel [simp]:
  "getAttributeAt (setFixedCodeLabel a name s) i = getAttributeAt s i"
  by (simp add: setFixedCodeLabel_def Let_def getAttributeAt_def split: prod.splits)

lemma setFixedCodeLabel_label: "map_of (labels (setFixedCodeLabel a name s)) a \<noteq> None"
  by (simp add: setFixedCodeLabel_def Let_def update_conv' split: prod.splits)

lemma findInterruptLabels_body_no_first:
  "CODE_FIRST \<notin> getAttributeAt s x \<Longrightarrow>
   \<exists>p c. findInterruptLabels_body g x (p0, c0, f, s) = (p, c, f, s)"
  by (simp add: findInterruptLabels_body_def Let_def)

lemma findInterruptLabels_fold_no_first:
  "\<forall>x \<in> set xs. CODE_FIRST \<notin> getAttributeAt s x \<Longrightarrow>
   \<exists>p c. fold (findInterruptLabels_body g) xs (p0, c0, f, s) = (p, c, f, s)"
proof (induction xs arbitrary: p0 c0)
  case Nil
  then show ?case by simp
next
  case (Cons x xs)
  from Cons.prems findInterruptLabels_body_no_first [of s x g p0 c0 f]
  obtain p1 c1 where b: "findInterruptLabels_body g x (p0, c0, f, s) = (p1, c1, f, s)" by auto
  from Cons.IH [of p1 c1] Cons.prems b show ?case by simp
qed

lemma JP_0001_step:
  "collectLabels_step decoder_JP_0001 0 (setMemory 0 3 Disassembler_new) = Aborts state_JP_0001_abort"
proof -
  let ?s0 = "setMemory 0 3 Disassembler_new"
  let ?s2 = "addAttributeAt 0 3 {CODE} (addAttributeAt 0 1 {CODE_FIRST} ?s0)"
  let ?s1 = "setFoundLabel 1 [0] CODE_LBL {ASSIGNED, CODE} ?s2"
  have g0: "op_name (decoder_JP_0001 x) = ''JP #nn''" "op_length (decoder_JP_0001 x) = 3"
    "op_flags (decoder_JP_0001 x) = {BRANCH_ADDRESS, STOP}" "op_value (decoder_JP_0001 x) = 1" "op_valueType (decoder_JP_0001 x) = CODE_LBL"
    for x by (simp_all add: decoder_JP_0001_def)
  have a0: "getAttributeAt ?s0 0 = {ASSIGNED}" "getAttributeAt ?s0 1 = {ASSIGNED}"
    "getAttributeAt ?s0 2 = {ASSIGNED}"
    by (simp_all add: getAttributeAt_setMemory getAttributeAt_new)
  have a2: "getAttributeAt ?s2 1 = {ASSIGNED, CODE}" "getAttributeAt ?s2 0 = {ASSIGNED, CODE_FIRST, CODE}"
    by (auto simp: getAttributeAt_addAttributeAt a0)
  have fo: "findOpcodeStart ?s2 1 = Inr 0" by (simp add: findOpcodeStart_def a2)
  have d: "disassembleForLabel decoder_JP_0001 0 (decoder_JP_0001 0) ?s2 =
      Inr (False, emit ''warning'' (ambiguousBranchWarning ''JP #nn'' 0 ''JP #nn'' 0) ?s1)"
    by (simp add: disassembleForLabel_def Let_def g0 a2 fo)
  show ?thesis
    unfolding state_JP_0001_abort_def
    by (simp add: collectLabels_step_def Let_def g0 a0 upto_1_2 d)
qed

lemma JP_0001_abort_fields:
  "labels state_JP_0001_abort = [(1, (DisLabel_new CODE_LBL)\<lparr>references := [0]\<rparr>)]"
  "snaStartAddress state_JP_0001_abort = - 1"
  "labelIntrptPrefix state_JP_0001_abort = ''INTRPT''"
  "addressQueue state_JP_0001_abort = []"
  by (simp_all add: state_JP_0001_abort_def setFoundLabel_def emit_def Set_add_def DisLabel_new_def)

lemma JP_0001_abort_attr:
  "getAttributeAt state_JP_0001_abort 0 = {ASSIGNED, CODE_FIRST, CODE}"
  "CODE_FIRST \<in> getAttributeAt state_JP_0001_abort x \<longleftrightarrow> x mod 65536 = 0"
proof -
  show "getAttributeAt state_JP_0001_abort 0 = {ASSIGNED, CODE_FIRST, CODE}"
    by (auto simp: state_JP_0001_abort_def getAttributeAt_addAttributeAt getAttributeAt_setMemory
        getAttributeAt_new)
  have "0 \<le> x mod 65536" by simp
  then show "CODE_FIRST \<in> getAttributeAt state_JP_0001_abort x \<longleftrightarrow> x mod 65536 = 0"
    by (auto simp: state_JP_0001_abort_def getAttributeAt_addAttributeAt getAttributeAt_setMemory
        getAttributeAt_new)
qed

lemma JP_0001_findInterruptLabels:
  "findInterruptLabels decoder_JP_0001 state_JP_0001_abort =
     Inr (setFixedCodeLabel 0 (Some ''INTRPT'') state_JP_0001_abort)"
proof -
  let ?s1 = "setFixedCodeLabel 0 (Some ''INTRPT'') state_JP_0001_abort"
  define rest where "rest = [0 + 1 .. 65536 - 1 :: int]"
  have u: "[0 .. MAX_MEM_SIZE - 1] = 0 # rest"
    unfolding MAX_MEM_SIZE_def rest_def by (rule upto_rec1) simp
  have b0: "findInterruptLabels_body decoder_JP_0001 0 ({}, - 1, [], state_JP_0001_abort)
      = ({ASSIGNED, CODE_FIRST, CODE}, 0, [0], ?s1)"
    by (simp add: findInterruptLabels_body_def Let_def JP_0001_abort_fields JP_0001_abort_attr(1))
  have "x mod 65536 \<noteq> 0" if "x \<in> set rest" for x
  proof -
    from that have "1 \<le> x" "x < 65536" unfolding rest_def by auto
    then have "x mod 65536 = x" by simp
    with \<open>1 \<le> x\<close> show ?thesis by simp
  qed
  then have "\<forall>x \<in> set rest. CODE_FIRST \<notin> getAttributeAt ?s1 x"
    by (simp add: JP_0001_abort_attr(2))
  from findInterruptLabels_fold_no_first [OF this, of decoder_JP_0001 "{ASSIGNED, CODE_FIRST, CODE}" 0 "[0]"]
  obtain p c where "fold (findInterruptLabels_body decoder_JP_0001) rest
       ({ASSIGNED, CODE_FIRST, CODE}, 0, [0], ?s1) = (p, c, [0], ?s1)" by blast
  with b0 show ?thesis
    unfolding findInterruptLabels_def u by simp
qed

text \<open>Claim C3 as stated says that the ambiguity aborts the entire disassembly. For the
  bytes \<open>C3 01 00\<close> at address 0 (a \<open>JP\<close> into itself) and the queue 0, pass 1 aborts at
  its first instruction; \<open>disassemble()\<close> then runs \<open>findInterruptLabels\<close>, which finds code
  without a label at address 0, stores the fixed label \<open>INTRPT\<close> there and queues the
  address. So the state after the first two statements of \<open>disassemble()\<close> is not the
  state of the abort.\<close>

theorem disassemble_goes_on_counterexample:
  "\<not> (\<forall>g s0 k a s s' n r.
        codeRunsWellFormed s0 \<and> (\<forall>x. op_length (g x) \<le> 4)
        \<and> collectLabels_body k g s0 = Some (a, s) \<and> collectLabels_step g a s = Aborts s'
        \<and> disassemble_first_passes n g s0 = Some r
        \<longrightarrow> r = Inr s')"
proof
  assume h: "\<forall>g s0 k a s s' n r.
        codeRunsWellFormed s0 \<and> (\<forall>x. op_length (g x) \<le> 4)
        \<and> collectLabels_body k g s0 = Some (a, s) \<and> collectLabels_step g a s = Aborts s'
        \<and> disassemble_first_passes n g s0 = Some r
        \<longrightarrow> r = Inr s'"
  let ?t0 = "setMemory 0 3 Disassembler_new"
  let ?s0 = "?t0\<lparr>addressQueue := [0]\<rparr>"
  let ?r = "Inr (setFixedCodeLabel 0 (Some ''INTRPT'') state_JP_0001_abort) :: error + Disassembler"
  have wf: "codeRunsWellFormed ?s0" by (simp add: wf_setMemory wf_new)
  have len: "\<forall>x. op_length (decoder_JP_0001 x) \<le> 4" by (simp add: decoder_JP_0001_def)
  have q: "?s0\<lparr>addressQueue := []\<rparr> = ?t0" by (simp add: setMemory_def addAttributeAt_def Disassembler_new_def)
  have b: "collectLabels_body 0 decoder_JP_0001 ?s0 = Some (0, ?t0)"
    using q by (simp add: collectLabels_body_def collectLabels_start_def)
  have c: "collectLabels 2 decoder_JP_0001 ?s0 = Some (Inr state_JP_0001_abort)"
    using abort_returns [OF b JP_0001_step, of 2] by simp
  have d: "disassemble_first_passes 2 decoder_JP_0001 ?s0 = Some ?r"
    unfolding disassemble_first_passes_def c by (simp add: JP_0001_findInterruptLabels)
  from h wf len b JP_0001_step d have "?r = Inr state_JP_0001_abort" by blast
  then have "map_of (labels (setFixedCodeLabel 0 (Some ''INTRPT'') state_JP_0001_abort)) 0
      = map_of (labels state_JP_0001_abort) 0" by simp
  then show False
    using setFixedCodeLabel_label [of 0 "Some ''INTRPT''" state_JP_0001_abort]
    by (simp add: JP_0001_abort_fields)
qed


text \<open>The theorem at the bytes \<open>3E 3E C9\<close>, decoded from address 1 first, with the queue
  3, 0, 7: the unassigned byte at 3 gives a warning, the instruction at 0 overlaps the one
  at 1, and 7 stays in the queue. And at \<open>00 C3 02 00\<close> with the queue 0, 9: the \<open>NOP\<close> is
  decoded, the \<open>JP\<close> at 1 branches into itself, its bytes stay marked and 9 stays in the
  queue.\<close>

theorem collectLabels_ambiguity_ends_pass_witness:
  "collectLabels 3 decoder_LD_LD_RET (state_decoded_at_1\<lparr>addressQueue := [3, 0, 7]\<rparr>) =
     Some (Inr (state_decoded_at_1
       \<lparr>addressQueue := [7],
        events := [(''warning'', ''Trying to disassemble unassigned memory area at 0x3.''),
                   (''warning'',
                    ''Aborting disassembly: Ambiguous disassembly: Trying to disassemble opcode ''
                    @ dquote @ ''LD A,#n'' @ dquote
                    @ '' at address 0x0 but address 0x1 alrady contains opcode ''
                    @ dquote @ ''LD A,#n'' @ dquote @ ''.'')]\<rparr>))
   \<and> (\<exists>s'. collectLabels 3 decoder_NOP_JP_0002
               ((setMemory 0 4 Disassembler_new)\<lparr>addressQueue := [0, 9]\<rparr>) = Some (Inr s')
          \<and> addressQueue s' = [9]
          \<and> events s' = [(''warning'', ambiguousBranchWarning ''JP #nn'' 1 ''JP #nn'' 1)]
          \<and> CODE \<in> getAttributeAt s' 3)"
proof -
  have overlap_case:
    "collectLabels 3 decoder_LD_LD_RET (state_decoded_at_1\<lparr>addressQueue := [3, 0, 7]\<rparr>) =
     Some (Inr (state_decoded_at_1
       \<lparr>addressQueue := [7],
        events := [(''warning'', ''Trying to disassemble unassigned memory area at 0x3.''),
                   (''warning'',
                    ''Aborting disassembly: Ambiguous disassembly: Trying to disassemble opcode ''
                    @ dquote @ ''LD A,#n'' @ dquote
                    @ '' at address 0x0 but address 0x1 alrady contains opcode ''
                    @ dquote @ ''LD A,#n'' @ dquote @ ''.'')]\<rparr>))"
  proof -
    let ?g = decoder_LD_LD_RET
    let ?s0 = "state_decoded_at_1\<lparr>addressQueue := [3, 0, 7]\<rparr>"
    let ?t0 = "state_decoded_at_1\<lparr>addressQueue := [0, 7]\<rparr>"
    let ?w3 = "unassignedWarning 3"
    let ?t1 = "(emit ''warning'' ?w3 ?t0)\<lparr>addressQueue := [7]\<rparr>"
    have wf0: "codeRunsWellFormed state_decoded_at_1"
      unfolding state_decoded_at_1_def by (intro wf_mark wf_setMemory wf_new) simp
    then have wfw: "codeRunsWellFormed ?s0" by simp
    have lenw: "\<forall>x. op_length (?g x) \<le> 4" by (simp add: decoder_LD_LD_RET_def)
    have at: "getAttributeAt state_decoded_at_1 0 = {ASSIGNED}"
      "getAttributeAt state_decoded_at_1 1 = {ASSIGNED, CODE_FIRST, CODE}"
      "getAttributeAt state_decoded_at_1 3 = {}"
      by (auto simp: state_decoded_at_1_def getAttributeAt_addAttributeAt getAttributeAt_setMemory getAttributeAt_new)
    have ev: "events state_decoded_at_1 = []" by (simp add: state_decoded_at_1_def)
    have b0: "collectLabels_body 0 ?g ?s0 = Some (3, ?t0)"
      by (simp add: collectLabels_body_def collectLabels_start_def)
    note T0 = collectLabels_ambiguity_ends_pass [OF wfw lenw, of 0 3 ?t0, unfolded Let_def,
        THEN conjunct1, rule_format, OF b0]
    from T0 at have b1: "collectLabels_body (Suc 0) ?g ?s0 = Some (0, ?t1)"
      by (simp add: collectLabels_start_def emit_def)
    note T1 = collectLabels_ambiguity_ends_pass [OF wfw lenw, of "Suc 0" 0 ?t1, unfolded Let_def,
        THEN conjunct1, rule_format, OF b1]
    have ov: "\<exists>i. 1 \<le> i \<and> i < op_length (?g 0) \<and> CODE \<in> getAttributeAt ?t1 (0 + i)"
      by (rule exI [where x = 1]) (simp add: at decoder_LD_LD_RET_def)
    from T1 ov at obtain m where m: "0 < m" "m < 0 + op_length (?g 0)"
      "collectLabels_step ?g 0 ?t1 =
         Aborts (emit ''warning'' (ambiguousOpcodeWarning (op_name (?g 0)) 0 m (op_name (?g m))) ?t1)"
      by auto
    from m(1,2) have m1: "m = 1" by (simp add: decoder_LD_LD_RET_def)
    have st: "collectLabels_step ?g 0 ?t1 =
         Aborts (emit ''warning'' (ambiguousOpcodeWarning ''LD A,#n'' 0 1 ''LD A,#n'') ?t1)"
      using m(3) unfolding m1 by (simp add: decoder_LD_LD_RET_def)
    from T1 st have c: "collectLabels 3 ?g ?s0 =
        Some (Inr (emit ''warning'' (ambiguousOpcodeWarning ''LD A,#n'' 0 1 ''LD A,#n'') ?t1))"
      by simp
    have txt1: "ambiguousOpcodeWarning ''LD A,#n'' 0 1 ''LD A,#n'' =
         ''Aborting disassembly: Ambiguous disassembly: Trying to disassemble opcode ''
           @ dquote @ ''LD A,#n'' @ dquote @ '' at address 0x0 but address 0x1 alrady contains opcode ''
           @ dquote @ ''LD A,#n'' @ dquote @ ''.''"
      by (simp add: ambiguousOpcodeWarning_def Number_toString_def natToString_small digitChar_def)
    have txt3: "unassignedWarning 3 = ''Trying to disassemble unassigned memory area at 0x3.''"
      by (simp add: unassignedWarning_def Number_toString_def natToString_small digitChar_def)
    show ?thesis unfolding c by (simp add: emit_def ev txt1 txt3)
  qed
  have branch_case:
    "\<exists>s'. collectLabels 3 decoder_NOP_JP_0002
               ((setMemory 0 4 Disassembler_new)\<lparr>addressQueue := [0, 9]\<rparr>) = Some (Inr s')
          \<and> addressQueue s' = [9]
          \<and> events s' = [(''warning'', ambiguousBranchWarning ''JP #nn'' 1 ''JP #nn'' 1)]
          \<and> CODE \<in> getAttributeAt s' 3"
  proof -
    let ?g = decoder_NOP_JP_0002
    let ?s0 = "(setMemory 0 4 Disassembler_new)\<lparr>addressQueue := [0, 9]\<rparr>"
    let ?t0 = "(setMemory 0 4 Disassembler_new)\<lparr>addressQueue := [9]\<rparr>"
    let ?t1 = "addAttributeAt 0 1 {CODE} (addAttributeAt 0 1 {CODE_FIRST} ?t0)"
    let ?mk = "addAttributeAt 1 3 {CODE} (addAttributeAt 1 1 {CODE_FIRST} ?t1)"
    have wfj: "codeRunsWellFormed ?s0" by (simp add: wf_setMemory wf_new)
    have lenj: "\<forall>x. op_length (?g x) \<le> 4" by (simp add: decoder_NOP_JP_0002_def)
    have g0: "op_name (?g 0) = ''NOP''" "op_length (?g 0) = 1" "op_flags (?g 0) = {}"
      "op_valueType (?g 0) = NONE"
      by (simp_all add: decoder_NOP_JP_0002_def)
    have g1: "op_name (?g 1) = ''JP #nn''" "op_length (?g 1) = 3"
      "op_flags (?g 1) = {BRANCH_ADDRESS, STOP}" "op_value (?g 1) = 2" "op_valueType (?g 1) = CODE_LBL"
      by (simp_all add: decoder_NOP_JP_0002_def)
    have a0: "getAttributeAt ?t0 0 = {ASSIGNED}"
      by (simp add: getAttributeAt_setMemory getAttributeAt_new)
    have a1: "getAttributeAt ?t1 1 = {ASSIGNED}" "getAttributeAt ?t1 2 = {ASSIGNED}"
      "getAttributeAt ?t1 3 = {ASSIGNED}"
      by (simp_all add: getAttributeAt_addAttributeAt getAttributeAt_setMemory getAttributeAt_new)
    have am: "getAttributeAt ?mk 2 = {ASSIGNED, CODE}" "getAttributeAt ?mk 1 = {ASSIGNED, CODE_FIRST, CODE}"
      "getAttributeAt ?mk 3 = {ASSIGNED, CODE}"
      by (auto simp: getAttributeAt_addAttributeAt getAttributeAt_setMemory getAttributeAt_new)
    have b0: "collectLabels_body 0 ?g ?s0 = Some (0, ?t0)"
      by (simp add: collectLabels_body_def collectLabels_start_def)
    have st0: "collectLabels_step ?g 0 ?t0 = Continues 1 ?t1"
      by (simp add: collectLabels_step_def Let_def g0 disassembleForLabel_def
          getAttributeAt_setMemory getAttributeAt_new)
    have b1: "collectLabels_body (Suc 0) ?g ?s0 = Some (1, ?t1)"
      using body_Suc [OF b0] st0 by (simp add: collectLabels_next_def)
    note T1 = collectLabels_ambiguity_ends_pass [OF wfj lenj, of "Suc 0" 1 ?t1, unfolded Let_def,
        THEN conjunct1, rule_format, OF b1]
    have nov: "\<not> (\<exists>i. 1 \<le> i \<and> i < op_length (?g 1) \<and> CODE \<in> getAttributeAt ?t1 (1 + i))"
    proof
      assume "\<exists>i. 1 \<le> i \<and> i < op_length (?g 1) \<and> CODE \<in> getAttributeAt ?t1 (1 + i)"
      then obtain i where i: "1 \<le> i" "i < 3" "CODE \<in> getAttributeAt ?t1 (1 + i)" by (auto simp: g1)
      then have "i = 1 \<or> i = 2" by linarith
      then show False
      proof
        assume "i = 1"
        with i(3) have "CODE \<in> getAttributeAt ?t1 2" by (simp only: one_add_one)
        then show False unfolding a1(2) by simp
      next
        assume "i = 2"
        with i(3) have "CODE \<in> getAttributeAt ?t1 (1 + 2)" by (simp only:)
        moreover have "(1 :: int) + 2 = 3" by simp
        ultimately have "CODE \<in> getAttributeAt ?t1 3" by (simp only:)
        then show False unfolding a1(3) by simp
      qed
    qed
    have mk: "addAttributeAt 1 (op_length (?g 1)) {CODE} (addAttributeAt 1 1 {CODE_FIRST} ?t1) = ?mk"
      by (simp only: g1)
    have pre: "(CODE \<notin> getAttributeAt ?t1 1 \<and> ASSIGNED \<in> getAttributeAt ?t1 1) \<and>
        \<not> (\<exists>i. 1 \<le> i \<and> i < op_length (?g 1) \<and> CODE \<in> getAttributeAt ?t1 (1 + i)) \<and>
        BRANCH_ADDRESS \<in> op_flags (?g 1) \<and>
        CODE \<in> getAttributeAt
           (addAttributeAt 1 (op_length (?g 1)) {CODE} (addAttributeAt 1 1 {CODE_FIRST} ?t1))
           (op_value (?g 1)) \<and>
        CODE_FIRST \<notin> getAttributeAt
           (addAttributeAt 1 (op_length (?g 1)) {CODE} (addAttributeAt 1 1 {CODE_FIRST} ?t1))
           (op_value (?g 1))"
      unfolding mk using nov by (simp add: a1 am g1)
    from T1 [THEN conjunct2, THEN conjunct1, THEN mp, OF pre]
    obtain b s' where bs0: "findOpcodeStart
           (addAttributeAt 1 (op_length (?g 1)) {CODE} (addAttributeAt 1 1 {CODE_FIRST} ?t1))
           (op_value (?g 1)) = Inr b"
      "collectLabels_step ?g 1 ?t1 =
         Aborts (emit ''warning'' (ambiguousBranchWarning (op_name (?g 1)) 1 (op_name (?g b)) b) s')"
      "memoryAttr s' = memoryAttr
           (addAttributeAt 1 (op_length (?g 1)) {CODE} (addAttributeAt 1 1 {CODE_FIRST} ?t1))"
      "addressQueue s' = addressQueue ?t1" "events s' = events ?t1"
      by blast
    have bs: "findOpcodeStart ?mk 2 = Inr b"
      "collectLabels_step ?g 1 ?t1 =
         Aborts (emit ''warning'' (ambiguousBranchWarning ''JP #nn'' 1 (op_name (?g b)) b) s')"
      "memoryAttr s' = memoryAttr ?mk" "addressQueue s' = addressQueue ?t1" "events s' = events ?t1"
      using bs0 unfolding mk by (simp_all only: g1)
    have "findOpcodeStart ?mk 2 = Inr 1" by (simp add: findOpcodeStart_def am)
    with bs(1) have b: "b = 1" by simp
    let ?r = "emit ''warning'' (ambiguousBranchWarning ''JP #nn'' 1 ''JP #nn'' 1) s'"
    from bs(2) have st: "collectLabels_step ?g 1 ?t1 = Aborts ?r" by (simp add: b g1)
    from T1 st have c: "collectLabels 3 ?g ?s0 = Some (Inr ?r)" by simp
    have "getAttributeAt ?r 3 = getAttributeAt ?mk 3"
      by (simp add: getAttributeAt_def bs(3) emit_def)
    with c bs(4,5) am show ?thesis by (simp add: emit_def)
  qed
  from overlap_case branch_case show ?thesis by (intro conjI)
qed

subsection \<open>Pass 5: labels into the middle of an instruction\<close>

lemma update_fresh: "k \<notin> fst ` set al \<Longrightarrow> AList.update k v al = al @ [(k, v)]"
  by (induction al) auto

lemma changeMap_fold_filter:
  "distinct (map fst xs) \<Longrightarrow> fst ` set xs \<inter> fst ` set acc = {} \<Longrightarrow>
   fold (\<lambda>(address, label) changeMap. if P address label
           then AList.update address label changeMap else changeMap) xs acc
     = acc @ filter (\<lambda>(address, label). P address label) xs"
proof (induction xs arbitrary: acc)
  case Nil
  then show ?case by simp
next
  case (Cons x xs)
  obtain a l where x: "x = (a, l)" by (cases x)
  from Cons.prems have d: "distinct (map fst xs)" and nx: "a \<notin> fst ` set xs"
    and na: "a \<notin> fst ` set acc" and dj: "fst ` set xs \<inter> fst ` set acc = {}"
    using x by auto
  show ?case
  proof (cases "P a l")
    case True
    have "fst ` set xs \<inter> fst ` set (acc @ [(a, l)]) = {}" using dj nx by auto
    from Cons.IH [OF d this] True x na show ?thesis by (simp add: update_fresh)
  next
    case False
    from Cons.IH [OF d dj] False x show ?thesis by simp
  qed
qed

lemma selfModifyingChangeMap_filter:
  "distinct (map fst (labels s)) \<Longrightarrow>
   selfModifyingChangeMap s =
     filter (\<lambda>(address, label). lbl_type label = DATA_LBL \<and> CODE \<in> getAttributeAt s address
                \<and> CODE_FIRST \<notin> getAttributeAt s address) (labels s)"
  unfolding selfModifyingChangeMap_def
  using changeMap_fold_filter [of "labels s" "[]"
      "\<lambda>address label. lbl_type label = DATA_LBL \<and> CODE \<in> getAttributeAt s address
                \<and> CODE_FIRST \<notin> getAttributeAt s address"]
  by simp

lemma findOpcodeStart_attr:
  "(\<And>b. getAttributeAt s' b = getAttributeAt s b) \<Longrightarrow> findOpcodeStart s' a = findOpcodeStart s a"
  by (simp add: findOpcodeStart_def)

lemma setFoundLabel_label_grows:
  "\<exists>L. map_of (labels (setFoundLabel f refs t attr s)) f = Some L
       \<and> set refs - {f} \<subseteq> set (references L)
       \<and> NumberType_rank t \<le> NumberType_rank (lbl_type L)
       \<and> (\<forall>L0. map_of (labels s) f = Some L0 \<longrightarrow>
             set (references L0) \<subseteq> set (references L)
             \<and> NumberType_rank (lbl_type L0) \<le> NumberType_rank (lbl_type L))"
proof (cases "map_of (labels s) f")
  case None
  then show ?thesis
    by (simp add: map_of_setFoundLabel_None set_fold_refs DisLabel_new_def)
next
  case (Some L0)
  then show ?thesis
    by (auto simp: map_of_setFoundLabel_Some set_fold_refs)
qed

lemma adjust_attr:
  "adjustSelfModifyingLabel e s = Inr s' \<Longrightarrow> getAttributeAt s' b = getAttributeAt s b"
  by (auto simp: adjustSelfModifyingLabel_def Let_def getAttributeAt_def setFoundLabel_def
      split: prod.splits sum.splits)

lemma adjust_unfold:
  "findOpcodeStart s a = Inr f \<Longrightarrow>
   adjustSelfModifyingLabel (a, l) s =
     Inr ((setFoundLabel f (references l) (lbl_type l) (getAttributeAt s f) s)
            \<lparr>labels := AList.delete a
                (labels (setFoundLabel f (references l) (lbl_type l) (getAttributeAt s f) s)),
             offsetLabels := AList.update a (f - a) (offsetLabels s)\<rparr>)"
  by (simp add: adjustSelfModifyingLabel_def Let_def setFoundLabel_def)

lemma adjust_establish:
  assumes f: "findOpcodeStart s a = Inr f" and t: "lbl_type l = DATA_LBL"
    and r: "adjustSelfModifyingLabel (a, l) s = Inr s'"
  shows "movedTo s' a l f"
proof -
  from findOpcodeStart_Inr [OF f] have fa: "f \<noteq> a" by auto
  let ?s1 = "setFoundLabel f (references l) (lbl_type l) (getAttributeAt s f) s"
  from r adjust_unfold [OF f, of l]
  have s': "s' = ?s1\<lparr>labels := AList.delete a (labels ?s1),
       offsetLabels := AList.update a (f - a) (offsetLabels s)\<rparr>"
    by simp
  obtain L where L: "map_of (labels ?s1) f = Some L" "set (references l) - {f} \<subseteq> set (references L)"
    "NumberType_rank (lbl_type l) \<le> NumberType_rank (lbl_type L)"
    using setFoundLabel_label_grows [of f "references l" "lbl_type l" "getAttributeAt s f" s] by blast
  have 1: "map_of (labels s') a = None" by (simp add: s' delete_conv')
  have 2: "map_of (offsetLabels s') a = Some (f - a)" by (simp add: s' update_conv')
  have 3: "map_of (labels s') f = Some L" using L(1) fa by (simp add: s' delete_conv')
  from 1 2 3 L(2,3) t show ?thesis unfolding movedTo_def by auto
qed

lemma adjust_preserve:
  assumes m: "movedTo s a l f"
    and cf: "CODE_FIRST \<in> getAttributeAt s f" and ca: "CODE_FIRST \<notin> getAttributeAt s a"
    and ca': "CODE_FIRST \<notin> getAttributeAt s a'" and ne: "a' \<noteq> a"
    and r: "adjustSelfModifyingLabel (a', l') s = Inr s'"
  shows "movedTo s' a l f"
proof -
  from r obtain f' where f': "findOpcodeStart s a' = Inr f'"
    by (auto simp: adjustSelfModifyingLabel_def split: sum.splits)
  from findOpcodeStart_Inr [OF f'] have cf': "CODE_FIRST \<in> getAttributeAt s f'" by simp
  from cf' ca have f'a: "f' \<noteq> a" by auto
  from cf ca' have a'f: "a' \<noteq> f" by auto
  let ?s1 = "setFoundLabel f' (references l') (lbl_type l') (getAttributeAt s f') s"
  from r adjust_unfold [OF f', of l']
  have s': "s' = ?s1\<lparr>labels := AList.delete a' (labels ?s1),
       offsetLabels := AList.update a' (f' - a') (offsetLabels s)\<rparr>"
    by simp
  from m obtain L where L: "map_of (labels s) a = None" "map_of (offsetLabels s) a = Some (f - a)"
    "map_of (labels s) f = Some L" "set (references l) - {f} \<subseteq> set (references L)"
    "NumberType_rank DATA_LBL \<le> NumberType_rank (lbl_type L)"
    unfolding movedTo_def by blast
  have 1: "map_of (labels s') a = None"
    using L(1) f'a by (simp add: s' delete_conv' map_of_setFoundLabel_other)
  have 2: "map_of (offsetLabels s') a = Some (f - a)"
    using L(2) ne by (simp add: s' update_conv')
  have "\<exists>L'. map_of (labels ?s1) f = Some L' \<and> set (references L) \<subseteq> set (references L')
       \<and> NumberType_rank (lbl_type L) \<le> NumberType_rank (lbl_type L')"
  proof (cases "f' = f")
    case True
    with setFoundLabel_label_grows [of f "references l'" "lbl_type l'" "getAttributeAt s f" s] L(3)
    show ?thesis by auto
  next
    case False
    with L(3) show ?thesis by (simp add: map_of_setFoundLabel_other)
  qed
  then obtain L' where L': "map_of (labels ?s1) f = Some L'" "set (references L) \<subseteq> set (references L')"
    "NumberType_rank (lbl_type L) \<le> NumberType_rank (lbl_type L')" by blast
  have 3: "map_of (labels s') f = Some L'" using L'(1) a'f by (simp add: s' delete_conv')
  from 1 2 3 L(4,5) L'(2,3) show ?thesis unfolding movedTo_def
    by (intro conjI exI [of _ L']) auto
qed

lemma adjust_loop:
  assumes wf: "codeRunsWellFormed s0"
  shows "(\<And>b. getAttributeAt s b = getAttributeAt s0 b) \<Longrightarrow>
    distinct (map fst cm) \<Longrightarrow>
    \<forall>(a, l) \<in> set cm. lbl_type l = DATA_LBL \<and> CODE \<in> getAttributeAt s0 a
                          \<and> CODE_FIRST \<notin> getAttributeAt s0 a \<Longrightarrow>
    \<exists>s'. adjustSelfModifyingLabels_loop cm s = Inr s'
       \<and> (\<forall>b. getAttributeAt s' b = getAttributeAt s0 b)
       \<and> (\<forall>(a, l) \<in> set cm. \<exists>f. findOpcodeStart s0 a = Inr f \<and> movedTo s' a l f)
       \<and> (\<forall>a l f. movedTo s a l f \<and> a \<notin> fst ` set cm \<and> CODE_FIRST \<in> getAttributeAt s0 f
              \<and> CODE_FIRST \<notin> getAttributeAt s0 a \<longrightarrow> movedTo s' a l f)"
proof (induction cm arbitrary: s)
  case Nil
  then show ?case by simp
next
  case (Cons e cm)
  obtain a l where e: "e = (a, l)" by (cases e)
  from Cons.prems(3) e have c: "lbl_type l = DATA_LBL" "CODE \<in> getAttributeAt s0 a"
    "CODE_FIRST \<notin> getAttributeAt s0 a" by auto
  from wf c(2,3) have "\<exists>d \<in> {1, 2, 3, 4}. CODE_FIRST \<in> getAttributeAt s0 (a - d)"
    unfolding codeRunsWellFormed_def by blast
  then have "\<forall>x. findOpcodeStart s0 a \<noteq> Inl x" unfolding findOpcodeStart_Inl by blast
  then obtain f where f0: "findOpcodeStart s0 a = Inr f" by (cases "findOpcodeStart s0 a") auto
  have f: "findOpcodeStart s a = Inr f" using f0 findOpcodeStart_attr [of s s0 a] Cons.prems(1) by simp
  from findOpcodeStart_Inr [OF f0] have cf: "CODE_FIRST \<in> getAttributeAt s0 f" by simp
  obtain s1 where s1: "adjustSelfModifyingLabel (a, l) s = Inr s1"
    using adjust_unfold [OF f, of l] by blast
  have at1: "\<And>b. getAttributeAt s1 b = getAttributeAt s0 b"
    using adjust_attr [OF s1] Cons.prems(1) by simp
  have d: "distinct (map fst cm)" and na: "a \<notin> fst ` set cm" using Cons.prems(2) e by auto
  have rest: "\<forall>(a, l) \<in> set cm. lbl_type l = DATA_LBL \<and> CODE \<in> getAttributeAt s0 a
                          \<and> CODE_FIRST \<notin> getAttributeAt s0 a" using Cons.prems(3) by auto
  from Cons.IH [OF at1 d rest] obtain s' where s':
    "adjustSelfModifyingLabels_loop cm s1 = Inr s'"
    "\<forall>b. getAttributeAt s' b = getAttributeAt s0 b"
    "\<forall>(a, l) \<in> set cm. \<exists>f. findOpcodeStart s0 a = Inr f \<and> movedTo s' a l f"
    "\<forall>a l f. movedTo s1 a l f \<and> a \<notin> fst ` set cm \<and> CODE_FIRST \<in> getAttributeAt s0 f
              \<and> CODE_FIRST \<notin> getAttributeAt s0 a \<longrightarrow> movedTo s' a l f"
    by blast
  have m1: "movedTo s1 a l f" by (rule adjust_establish [OF f c(1) s1])
  with s'(4) na cf c(3) have ma: "movedTo s' a l f" by blast
  have pres: "movedTo s' x lx fx" if h: "movedTo s x lx fx" "x \<notin> fst ` set (e # cm)"
    "CODE_FIRST \<in> getAttributeAt s0 fx" "CODE_FIRST \<notin> getAttributeAt s0 x" for x lx fx
  proof -
    from h(2) e have xa: "a \<noteq> x" and xn: "x \<notin> fst ` set cm" by auto
    have "movedTo s1 x lx fx"
      using adjust_preserve [OF h(1) _ _ _ xa s1] h(3,4) c(3) Cons.prems(1) by simp
    with s'(4) xn h(3,4) show ?thesis by blast
  qed
  have loop: "adjustSelfModifyingLabels_loop (e # cm) s = Inr s'" using e s1 s'(1) by simp
  from loop s'(2) s'(3) ma f0 e pres show ?case
    by (intro exI [of _ s']) auto
qed


lemma findOpcodeStart_nearest:
  "findOpcodeStart s a = Inr b \<Longrightarrow> 1 \<le> d \<Longrightarrow> d < a - b \<Longrightarrow>
   CODE_FIRST \<notin> getAttributeAt s (a - d)"
proof -
  assume h: "findOpcodeStart s a = Inr b" and d: "1 \<le> d" "d < a - b"
  from findOpcodeStart_Inr [OF h] d have "d = 1 \<or> d = 2 \<or> d = 3" by linarith
  then show ?thesis
  proof (elim disjE)
    assume "d = 1" with h d show ?thesis
      by (auto simp: findOpcodeStart_def split: if_splits)
  next
    assume "d = 2" with h d show ?thesis
      by (auto simp: findOpcodeStart_def split: if_splits)
  next
    assume "d = 3" with h d show ?thesis
      by (auto simp: findOpcodeStart_def split: if_splits)
  qed
qed

lemma convertToLabel_offset:
  assumes "map_of (labels s) a = None" "map_of (offsetLabels s) a = Some (f - a)" "f - a < 0"
    "map_of (labels s) f = Some L"
  shows "convertToLabel s a = Some (nameString L @ ''+'' @ Number_toString (a - f) 10)"
  using assms by (simp add: convertToLabel_def)


lemma getAttributeAt_labels [simp]:
  "getAttributeAt (s\<lparr>labels := ls\<rparr>) i = getAttributeAt s i"
  by (simp add: getAttributeAt_def)

lemma wf_labels [simp]: "codeRunsWellFormed (s\<lparr>labels := ls\<rparr>) = codeRunsWellFormed s"
  by (simp add: codeRunsWellFormed_def)

lemma natToString_digit: "n < 10 \<Longrightarrow> natToString 10 n = [digitChar n]"
  by (simp add: natToString.simps)


text \<open>
  Claim C5. Let the code attributes be well formed and the label map have one entry
  per address. Then pass 5 does not throw, and for every \<open>DATA_LBL\<close> label \<open>l\<close> at an
  address \<open>a\<close> that is \<open>CODE\<close> but not \<open>CODE_FIRST\<close> there is the nearest \<open>CODE_FIRST\<close>
  address \<open>firstByte\<close> before \<open>a\<close>, 1 to 4 bytes back, such that afterwards: no label is
  left at \<open>a\<close>; \<open>offsetLabels[a] = firstByte - a\<close>, a negative number; there is a label
  at \<open>firstByte\<close>, set by \<open>setFoundLabel\<close> from \<open>l\<close>'s referrers and type, so it has all
  referrers of \<open>l\<close> (but \<open>firstByte\<close> itself, which \<open>setFoundLabel\<close> leaves out) and a type
  of at least \<open>DATA_LBL\<close>'s rank; and the convert-to-label hook renders \<open>a\<close> as that
  label's name followed by \<open>+\<close> and the distance \<open>a - firstByte\<close>, now and in any later
  state that keeps the offset and has a label at \<open>firstByte\<close> and none at \<open>a\<close>.
\<close>

theorem adjustSelfModifyingLabels_moves:
  assumes wf: "codeRunsWellFormed s" and dist: "distinct (map fst (labels s))"
  shows "\<exists>s'. adjustSelfModifyingLabels s = Inr s' \<and>
     (\<forall>a l. map_of (labels s) a = Some l \<and> lbl_type l = DATA_LBL
            \<and> CODE \<in> getAttributeAt s a \<and> CODE_FIRST \<notin> getAttributeAt s a \<longrightarrow>
        (\<exists>firstByte L.
           CODE_FIRST \<in> getAttributeAt s firstByte \<and> 1 \<le> a - firstByte \<and> a - firstByte \<le> 4
           \<and> (\<forall>d. 1 \<le> d \<and> d < a - firstByte \<longrightarrow> CODE_FIRST \<notin> getAttributeAt s (a - d))
           \<and> map_of (labels s') a = None
           \<and> map_of (offsetLabels s') a = Some (firstByte - a) \<and> firstByte - a < 0
           \<and> map_of (labels s') firstByte = Some L
           \<and> set (references l) - {firstByte} \<subseteq> set (references L)
           \<and> NumberType_rank DATA_LBL \<le> NumberType_rank (lbl_type L)
           \<and> convertToLabel s' a = Some (nameString L @ ''+'' @ Number_toString (a - firstByte) 10)
           \<and> (\<forall>s'' L''. map_of (labels s'') a = None
                  \<and> map_of (offsetLabels s'') a = map_of (offsetLabels s') a
                  \<and> map_of (labels s'') firstByte = Some L'' \<longrightarrow>
                convertToLabel s'' a
                  = Some (nameString L'' @ ''+'' @ Number_toString (a - firstByte) 10))))"
proof -
  let ?P = "\<lambda>(address, label). lbl_type label = DATA_LBL \<and> CODE \<in> getAttributeAt s address
                \<and> CODE_FIRST \<notin> getAttributeAt s address"
  let ?cm = "filter ?P (labels s)"
  have cm: "selfModifyingChangeMap s = ?cm" by (rule selfModifyingChangeMap_filter [OF dist])
  have d: "distinct (map fst ?cm)" using dist by (simp add: distinct_map_filter)
  have c: "\<forall>(a, l) \<in> set ?cm. lbl_type l = DATA_LBL \<and> CODE \<in> getAttributeAt s a
                          \<and> CODE_FIRST \<notin> getAttributeAt s a" by auto
  from adjust_loop [OF wf _ d c, of s] obtain s' where s':
    "adjustSelfModifyingLabels_loop ?cm s = Inr s'"
    "\<forall>(a, l) \<in> set ?cm. \<exists>f. findOpcodeStart s a = Inr f \<and> movedTo s' a l f"
    by auto
  have main: "\<exists>firstByte L.
           CODE_FIRST \<in> getAttributeAt s firstByte \<and> 1 \<le> a - firstByte \<and> a - firstByte \<le> 4
           \<and> (\<forall>d. 1 \<le> d \<and> d < a - firstByte \<longrightarrow> CODE_FIRST \<notin> getAttributeAt s (a - d))
           \<and> map_of (labels s') a = None
           \<and> map_of (offsetLabels s') a = Some (firstByte - a) \<and> firstByte - a < 0
           \<and> map_of (labels s') firstByte = Some L
           \<and> set (references l) - {firstByte} \<subseteq> set (references L)
           \<and> NumberType_rank DATA_LBL \<le> NumberType_rank (lbl_type L)
           \<and> convertToLabel s' a = Some (nameString L @ ''+'' @ Number_toString (a - firstByte) 10)
           \<and> (\<forall>s'' L''. map_of (labels s'') a = None
                  \<and> map_of (offsetLabels s'') a = map_of (offsetLabels s') a
                  \<and> map_of (labels s'') firstByte = Some L'' \<longrightarrow>
                convertToLabel s'' a
                  = Some (nameString L'' @ ''+'' @ Number_toString (a - firstByte) 10))"
    if h: "map_of (labels s) a = Some l" "lbl_type l = DATA_LBL"
       "CODE \<in> getAttributeAt s a" "CODE_FIRST \<notin> getAttributeAt s a" for a l
  proof -
    from h(1) have "(a, l) \<in> set (labels s)" by (rule map_of_SomeD)
    with h have "(a, l) \<in> set ?cm" by simp
    with s'(2) obtain f where f: "findOpcodeStart s a = Inr f" and m: "movedTo s' a l f" by blast
    from findOpcodeStart_Inr [OF f] have b: "CODE_FIRST \<in> getAttributeAt s f" "1 \<le> a - f" "a - f \<le> 4"
      by auto
    from m obtain L where L: "map_of (labels s') a = None" "map_of (offsetLabels s') a = Some (f - a)"
      "map_of (labels s') f = Some L" "set (references l) - {f} \<subseteq> set (references L)"
      "NumberType_rank DATA_LBL \<le> NumberType_rank (lbl_type L)"
      unfolding movedTo_def by blast
    have neg: "f - a < 0" using b(2) by simp
    have near: "\<forall>d. 1 \<le> d \<and> d < a - f \<longrightarrow> CODE_FIRST \<notin> getAttributeAt s (a - d)"
      using findOpcodeStart_nearest [OF f] by blast
    have r1: "convertToLabel s' a = Some (nameString L @ ''+'' @ Number_toString (a - f) 10)"
      by (rule convertToLabel_offset [OF L(1) L(2) neg L(3)])
    have r2: "\<forall>s'' L''. map_of (labels s'') a = None
                  \<and> map_of (offsetLabels s'') a = map_of (offsetLabels s') a
                  \<and> map_of (labels s'') f = Some L'' \<longrightarrow>
                convertToLabel s'' a = Some (nameString L'' @ ''+'' @ Number_toString (a - f) 10)"
      using L(2) neg by (simp add: convertToLabel_def)
    from b near L neg r1 r2 show ?thesis by blast
  qed
  have "adjustSelfModifyingLabels s = Inr s'" using s'(1) cm by (simp add: adjustSelfModifyingLabels_def)
  with main show ?thesis by blast
qed



text \<open>The theorem at the spec's scenario: the label moves from \<open>0x1001\<close> to \<open>0x1000\<close>
  with its referrer, \<open>offsetLabels[0x1001] = -1\<close>, and once the label is named
  \<open>SELF_MOD1\<close> the hook renders \<open>0x1001\<close> as \<open>SELF_MOD1+1\<close>.\<close>

theorem adjustSelfModifyingLabels_moves_witness:
  "\<exists>s'. adjustSelfModifyingLabels state_self_modifying = Inr s'
      \<and> map (\<lambda>(a, l). (a, lbl_type l, references l)) (labels s') = [(4096, DATA_LBL, [8192])]
      \<and> offsetLabels s' = [(4097, - 1)]
      \<and> convertToLabel s' 4097 = Some ''undefined+1''
      \<and> convertToLabel
           (s'\<lparr>labels := [(4096, (DisLabel_new DATA_LBL)\<lparr>lbl_name := Some ''SELF_MOD1''\<rparr>)]\<rparr>) 4097
          = Some ''SELF_MOD1+1''"
proof -
  let ?s = state_self_modifying
  let ?l = "(DisLabel_new DATA_LBL)\<lparr>references := [8192]\<rparr>"
  have wfs: "codeRunsWellFormed ?s"
    unfolding state_self_modifying_def by (simp, intro wf_mark wf_setMemory wf_new) simp
  have ds: "distinct (map fst (labels ?s))" by (simp add: state_self_modifying_def)
  have at: "getAttributeAt ?s 4096 = {ASSIGNED, CODE_FIRST, CODE}"
    "getAttributeAt ?s 4097 = {ASSIGNED, CODE}"
    by (auto simp: state_self_modifying_def getAttributeAt_addAttributeAt getAttributeAt_setMemory
        getAttributeAt_new)
  have lb: "labels ?s = [(4097, ?l)]" by (simp add: state_self_modifying_def)
  have ol: "offsetLabels ?s = []" by (simp add: state_self_modifying_def)
  have cm: "selfModifyingChangeMap ?s = [(4097, ?l)]"
    by (simp add: selfModifyingChangeMap_def lb at DisLabel_new_def)
  have fo: "findOpcodeStart ?s 4097 = Inr 4096" by (simp add: findOpcodeStart_def at)
  from adjustSelfModifyingLabels_moves [OF wfs ds] obtain s' where
    s': "adjustSelfModifyingLabels ?s = Inr s'" by blast
  have ev: "adjustSelfModifyingLabels ?s =
      Inr ((setFoundLabel 4096 [8192] DATA_LBL {ASSIGNED, CODE_FIRST, CODE} ?s)
            \<lparr>labels := AList.delete 4097
                (labels (setFoundLabel 4096 [8192] DATA_LBL {ASSIGNED, CODE_FIRST, CODE} ?s)),
             offsetLabels := AList.update 4097 (4096 - 4097) (offsetLabels ?s)\<rparr>)"
    using adjust_unfold [OF fo, of ?l]
    by (simp add: adjustSelfModifyingLabels_def cm at DisLabel_new_def)
  have l': "labels s' =
     [(4096, (DisLabel_new DATA_LBL)\<lparr>references := [8192]\<rparr>)]"
    using s' ev by (auto simp: setFoundLabel_def lb DisLabel_new_def Set_add_def)
  have o': "offsetLabels s' = [(4097, - 1)]"
    using s' ev by (auto simp: ol)
  have c1: "convertToLabel s' 4097 = Some ''undefined+1''"
    by (simp add: convertToLabel_def l' o' nameString_def DisLabel_new_def Number_toString_def
        natToString_digit digitChar_def)
  have c2: "convertToLabel
           (s'\<lparr>labels := [(4096, (DisLabel_new DATA_LBL)\<lparr>lbl_name := Some ''SELF_MOD1''\<rparr>)]\<rparr>) 4097
          = Some ''SELF_MOD1+1''"
    by (simp add: convertToLabel_def o' nameString_def DisLabel_new_def Number_toString_def
        natToString_digit digitChar_def)
  from s' l' o' c1 c2 show ?thesis
    by (intro exI [of _ s']) (simp add: DisLabel_new_def)
qed

subsection \<open>\<open>getDisassembly\<close> before \<open>disassemble\<close>\<close>

text \<open>
  Claim C10. When \<open>disassemble\<close> has not set \<open>disassembledLines\<close>, \<open>getDisassembly\<close>
  emits one \<open>'warning'\<close> event (\<open>No disassembly was done.\<close>) and returns the empty
  string; apart from the record of emitted events no field of the disassembler changes.
\<close>

theorem getDisassembly_not_disassembled:
  assumes "disassembledLines s = None"
  shows "fst (getDisassembly s) = ''''
       \<and> events (snd (getDisassembly s)) = events s @ [(''warning'', ''No disassembly was done.'')]
       \<and> (snd (getDisassembly s))\<lparr>events := events s\<rparr> = s"
  using assms by (simp add: getDisassembly_def emit_def)

text \<open>The theorem at a freshly constructed disassembler.\<close>

theorem getDisassembly_not_disassembled_witness:
  "disassembledLines Disassembler_new = None
   \<and> fst (getDisassembly Disassembler_new) = ''''
   \<and> events (snd (getDisassembly Disassembler_new)) = [(''warning'', ''No disassembly was done.'')]
   \<and> (snd (getDisassembly Disassembler_new))\<lparr>events := []\<rparr> = Disassembler_new"
  using getDisassembly_not_disassembled [of Disassembler_new]
  by simp

subsection \<open>Reachable addresses\<close>

text \<open>What a walk adds: new addresses only, each once, all within any set that holds the
  start and is closed under the two successors; and what it adds is closed itself.\<close>

lemma walk_result:
  assumes cl: "\<forall>x t. x \<in> R \<longrightarrow> br x = Some t \<or> fl x = Some t \<longrightarrow> asg t \<longrightarrow> t \<in> R"
  shows "depthFirstWalk n asg br fl a vs = Some r \<Longrightarrow> set vs \<subseteq> R \<Longrightarrow> (asg a \<longrightarrow> a \<in> R) \<Longrightarrow>
     distinct vs \<Longrightarrow>
     (\<exists>new. r = vs @ new) \<and> distinct r \<and> set r \<subseteq> R \<and> (asg a \<longrightarrow> a \<in> set r)
     \<and> (\<forall>x \<in> set r - set vs. \<forall>t. (br x = Some t \<or> fl x = Some t) \<and> asg t \<longrightarrow> t \<in> set r)"
proof (induction n arbitrary: a vs r)
  case 0
  then show ?case by simp
next
  case (Suc n)
  show ?case
  proof (cases "\<not> asg a \<or> a \<in> set vs")
    case True
    with Suc.prems(1) have "r = vs" by (auto split: if_splits)
    with True Suc.prems show ?thesis by auto
  next
    case False
    then have na: "asg a" "a \<notin> set vs" by auto
    with Suc.prems(3) have aR: "a \<in> R" by simp
    let ?v1 = "vs @ [a]"
    have v1: "set ?v1 \<subseteq> R" "distinct ?v1" using Suc.prems(2,4) aR na by auto
    from Suc.prems(1) na obtain v2 where
      b: "(case br a of Some t \<Rightarrow> depthFirstWalk n asg br fl t ?v1 | None \<Rightarrow> Some ?v1) = Some v2"
      and f: "(case fl a of None \<Rightarrow> Some v2 | Some x \<Rightarrow> depthFirstWalk n asg br fl x v2) = Some r"
      by (auto split: option.splits)
    have p2: "(\<exists>new. v2 = ?v1 @ new) \<and> distinct v2 \<and> set v2 \<subseteq> R
        \<and> (\<forall>t. br a = Some t \<and> asg t \<longrightarrow> t \<in> set v2)
        \<and> (\<forall>x \<in> set v2 - set ?v1. \<forall>t. (br x = Some t \<or> fl x = Some t) \<and> asg t \<longrightarrow> t \<in> set v2)"
    proof (cases "br a")
      case None
      with b have "v2 = ?v1" by simp
      with v1 None show ?thesis by simp
    next
      case (Some t)
      with b have w: "depthFirstWalk n asg br fl t ?v1 = Some v2" by simp
      have "asg t \<longrightarrow> t \<in> R" using cl aR Some by blast
      note ih = Suc.IH [OF w v1(1) this v1(2)]
      from ih have i1: "\<exists>new. v2 = ?v1 @ new" by (rule conjunct1)
      from ih have i2: "distinct v2" by (rule conjunct2 [THEN conjunct1])
      from ih have i3: "set v2 \<subseteq> R" by (rule conjunct2 [THEN conjunct2, THEN conjunct1])
      from ih have i4: "asg t \<longrightarrow> t \<in> set v2"
        by (rule conjunct2 [THEN conjunct2, THEN conjunct2, THEN conjunct1])
      from ih have i5: "\<forall>x \<in> set v2 - set ?v1. \<forall>t. (br x = Some t \<or> fl x = Some t) \<and> asg t \<longrightarrow> t \<in> set v2"
        by (rule conjunct2 [THEN conjunct2, THEN conjunct2, THEN conjunct2])
      from i4 Some have i4': "\<forall>t. br a = Some t \<and> asg t \<longrightarrow> t \<in> set v2" by simp
      from i1 i2 i3 i4' i5 show ?thesis by (intro conjI)
    qed
    then obtain new2 where n2: "v2 = ?v1 @ new2" by blast
    from p2 have d2: "distinct v2" and r2: "set v2 \<subseteq> R" by blast+
    have p3: "(\<exists>new. r = v2 @ new) \<and> distinct r \<and> set r \<subseteq> R
        \<and> (\<forall>t. fl a = Some t \<and> asg t \<longrightarrow> t \<in> set r)
        \<and> (\<forall>x \<in> set r - set v2. \<forall>t. (br x = Some t \<or> fl x = Some t) \<and> asg t \<longrightarrow> t \<in> set r)"
    proof (cases "fl a")
      case None
      with f have "r = v2" by simp
      with d2 r2 None show ?thesis by simp
    next
      case (Some x)
      with f have w: "depthFirstWalk n asg br fl x v2 = Some r" by simp
      have "asg x \<longrightarrow> x \<in> R" using cl aR Some by blast
      note ih = Suc.IH [OF w r2 this d2]
      from ih have i1: "\<exists>new. r = v2 @ new" by (rule conjunct1)
      from ih have i2: "distinct r" by (rule conjunct2 [THEN conjunct1])
      from ih have i3: "set r \<subseteq> R" by (rule conjunct2 [THEN conjunct2, THEN conjunct1])
      from ih have i4: "asg x \<longrightarrow> x \<in> set r"
        by (rule conjunct2 [THEN conjunct2, THEN conjunct2, THEN conjunct1])
      from ih have i5: "\<forall>x \<in> set r - set v2. \<forall>t. (br x = Some t \<or> fl x = Some t) \<and> asg t \<longrightarrow> t \<in> set r"
        by (rule conjunct2 [THEN conjunct2, THEN conjunct2, THEN conjunct2])
      from i4 Some have i4': "\<forall>t. fl a = Some t \<and> asg t \<longrightarrow> t \<in> set r" by simp
      from i1 i2 i3 i4' i5 show ?thesis by (intro conjI)
    qed
    then obtain new3 where n3: "r = v2 @ new3" by blast
    have sub: "set v2 \<subseteq> set r" using n3 by auto
    have ar: "a \<in> set r" using n2 n3 by simp
    have closed: "t \<in> set r" if x: "x \<in> set r - set vs" and e: "br x = Some t \<or> fl x = Some t"
      and t: "asg t" for x t
    proof (cases "x = a")
      case True
      from e show ?thesis
      proof
        assume "br x = Some t"
        with True p2 t have "t \<in> set v2" by blast
        with sub show ?thesis by blast
      next
        assume "fl x = Some t"
        with True p3 t show ?thesis by blast
      qed
    next
      case False
      show ?thesis
      proof (cases "x \<in> set v2")
        case True
        with False x have "x \<in> set v2 - set ?v1" by auto
        with p2 e t have "t \<in> set v2" by blast
        with sub show ?thesis by blast
      next
        case False
        with x have "x \<in> set r - set v2" by auto
        with p3 e t show ?thesis by blast
      qed
    qed
    have e: "\<exists>new. r = vs @ new" using n2 n3 by simp
    from p3 have d3: "distinct r" and r3: "set r \<subseteq> R" by blast+
    from closed have c: "\<forall>x \<in> set r - set vs. \<forall>t. (br x = Some t \<or> fl x = Some t) \<and> asg t \<longrightarrow> t \<in> set r"
      by blast
    from e d3 r3 ar c show ?thesis by (intro conjI) simp_all
  qed
qed

lemma reachableFrom_closed:
  "\<forall>x t. x \<in> reachableFrom asg br fl start \<longrightarrow> br x = Some t \<or> fl x = Some t \<longrightarrow> asg t \<longrightarrow>
     t \<in> reachableFrom asg br fl start"
  by (auto intro: reachableFrom.branch reachableFrom.flow)

lemma reachableFrom_assigned:
  "x \<in> reachableFrom asg br fl start \<Longrightarrow> asg x"
  by (induction rule: reachableFrom.induct) auto

lemma walk_reachable:
  assumes w: "depthFirstWalk n asg br fl start [] = Some r"
  shows "set r = reachableFrom asg br fl start \<and> distinct r"
proof -
  let ?R = "reachableFrom asg br fl start"
  have s: "asg start \<longrightarrow> start \<in> ?R" by (auto intro: reachableFrom.start)
  from walk_result [where R = ?R, OF reachableFrom_closed w _ s]
  have d: "distinct r" and sub: "set r \<subseteq> ?R" and st: "asg start \<longrightarrow> start \<in> set r"
    and cl: "\<forall>x \<in> set r. \<forall>t. (br x = Some t \<or> fl x = Some t) \<and> asg t \<longrightarrow> t \<in> set r"
    by auto
  have "x \<in> set r" if "x \<in> ?R" for x
    using that
  proof (induction rule: reachableFrom.induct)
    case start
    with st show ?case by simp
  next
    case (branch a t)
    with cl show ?case by blast
  next
    case (flow a t)
    with cl show ?case by blast
  qed
  with sub d show ?thesis by blast
qed

lemma walk_terminates_aux:
  assumes cl: "\<forall>x t. x \<in> R \<longrightarrow> br x = Some t \<or> fl x = Some t \<longrightarrow> asg t \<longrightarrow> t \<in> R"
    and fin: "finite R"
  shows "set vs \<subseteq> R \<Longrightarrow> distinct vs \<Longrightarrow> (asg a \<longrightarrow> a \<in> R) \<Longrightarrow> card (R - set vs) < n \<Longrightarrow>
         \<exists>r. depthFirstWalk n asg br fl a vs = Some r"
proof (induction n arbitrary: a vs)
  case 0
  then show ?case by simp
next
  case (Suc n)
  show ?case
  proof (cases "\<not> asg a \<or> a \<in> set vs")
    case True
    then have "depthFirstWalk (Suc n) asg br fl a vs = Some vs" by auto
    then show ?thesis by blast
  next
    case False
    then have na: "asg a" "a \<notin> set vs" by auto
    with Suc.prems(3) have aR: "a \<in> R" by simp
    let ?v1 = "vs @ [a]"
    have v1: "set ?v1 \<subseteq> R" "distinct ?v1" using Suc.prems(1,2) aR na by auto
    have "R - set ?v1 \<subset> R - set vs" using aR na by auto
    then have "card (R - set ?v1) < card (R - set vs)"
      using fin by (intro psubset_card_mono) auto
    with Suc.prems(4) have c1: "card (R - set ?v1) < n" by simp
    have "\<exists>v2. (case br a of Some t \<Rightarrow> depthFirstWalk n asg br fl t ?v1 | None \<Rightarrow> Some ?v1) = Some v2"
    proof (cases "br a")
      case None
      then show ?thesis by simp
    next
      case (Some t)
      have "asg t \<longrightarrow> t \<in> R" using cl aR Some by blast
      from Suc.IH [OF v1 this c1] Some show ?thesis by simp
    qed
    then obtain v2 where
      b: "(case br a of Some t \<Rightarrow> depthFirstWalk n asg br fl t ?v1 | None \<Rightarrow> Some ?v1) = Some v2"
      by blast
    have p2: "(\<exists>new. v2 = ?v1 @ new) \<and> distinct v2 \<and> set v2 \<subseteq> R"
    proof (cases "br a")
      case None
      with b v1 show ?thesis by auto
    next
      case (Some t)
      with b have w: "depthFirstWalk n asg br fl t ?v1 = Some v2" by simp
      have "asg t \<longrightarrow> t \<in> R" using cl aR Some by blast
      from walk_result [where R = R, OF cl w v1(1) this v1(2)] show ?thesis by blast
    qed
    then have "R - set v2 \<subseteq> R - set ?v1" by auto
    then have "card (R - set v2) \<le> card (R - set ?v1)" using fin by (intro card_mono) auto
    with c1 have c2: "card (R - set v2) < n" by simp
    from p2 have d2: "distinct v2" and r2: "set v2 \<subseteq> R" by blast+
    have "\<exists>r. (case fl a of None \<Rightarrow> Some v2 | Some x \<Rightarrow> depthFirstWalk n asg br fl x v2) = Some r"
    proof (cases "fl a")
      case None
      then show ?thesis by simp
    next
      case (Some x)
      have "asg x \<longrightarrow> x \<in> R" using cl aR Some by blast
      from Suc.IH [OF r2 d2 this c2] Some show ?thesis by simp
    qed
    then obtain r where
      f: "(case fl a of None \<Rightarrow> Some v2 | Some x \<Rightarrow> depthFirstWalk n asg br fl x v2) = Some r"
      by blast
    have "depthFirstWalk (Suc n) asg br fl a vs = Some r"
      using na b f by simp
    then show ?thesis by blast
  qed
qed

lemma walk_terminates:
  assumes "finite (reachableFrom asg br fl start)" and "card (reachableFrom asg br fl start) < n"
  shows "\<exists>r. depthFirstWalk n asg br fl start [] = Some r
           \<and> set r = reachableFrom asg br fl start \<and> distinct r"
proof -
  let ?R = "reachableFrom asg br fl start"
  have s: "asg start \<longrightarrow> start \<in> ?R" by (auto intro: reachableFrom.start)
  have c: "card (?R - set []) < n" using assms(2) by simp
  from walk_terminates_aux [where R = ?R and vs = "[]", OF reachableFrom_closed assms(1) _ _ s c]
  obtain r where w: "depthFirstWalk n asg br fl start [] = Some r" by auto
  from walk_reachable [OF w] w show ?thesis by blast
qed

subsection \<open>Pass 8: local labels\<close>

lemma map_of_findLocalLabel:
  "map_of (findLocalLabel A address addr lbls) x =
     (if x = addr then map_option (localLabelResult A address addr) (map_of lbls addr)
      else map_of lbls x)"
  by (auto simp: findLocalLabel_def localLabelResult_def Let_def update_conv' split: option.splits)

lemma localLabelResult_idem:
  "localLabelResult A address addr (localLabelResult A address addr L) = localLabelResult A address addr L"
  by (auto simp: localLabelResult_def)

lemma map_of_fold_findLocalLabel:
  "map_of (fold (findLocalLabel A address) xs lbls) x =
     (if x \<in> set xs then map_option (localLabelResult A address x) (map_of lbls x)
      else map_of lbls x)"
proof (induction xs arbitrary: lbls)
  case Nil
  then show ?case by simp
next
  case (Cons y ys)
  show ?case
    by (cases "map_of lbls x")
       (auto simp: Cons.IH map_of_findLocalLabel localLabelResult_idem)
qed

lemma keys_findLocalLabel: "map fst (findLocalLabel A address addr lbls) = map fst lbls"
proof -
  have "map_of lbls addr = Some v \<Longrightarrow> map fst (AList.update addr w lbls) = map fst lbls" for v w
    by (induction lbls) auto
  then show ?thesis by (auto simp: findLocalLabel_def Let_def split: option.splits)
qed


lemma gsa_walk:
  "getSubroutineAddresses n g s a addrs =
     depthFirstWalk n (\<lambda>x. ASSIGNED \<in> getAttributeAt s x) (subroutineBranch g) (subroutineFlow g)
       a addrs"
proof (induction n arbitrary: a addrs)
  case 0
  show ?case by simp
next
  case (Suc n)
  show ?case
    by (simp add: Suc.IH Let_def subroutineBranch_def subroutineFlow_def
        split: option.splits)
qed

lemma gsa_terminates:
  assumes "finite (subroutineAddresses g s a)" and "card (subroutineAddresses g s a) < n"
  shows "\<exists>arr. getSubroutineAddresses n g s a [] = Some arr
           \<and> set arr = subroutineAddresses g s a \<and> distinct arr"
  using walk_terminates [OF assms [unfolded subroutineAddresses_def]]
  unfolding subroutineAddresses_def gsa_walk by blast

lemma gsa_reachable:
  "getSubroutineAddresses n g s a [] = Some arr \<Longrightarrow>
   set arr = subroutineAddresses g s a \<and> distinct arr"
  unfolding subroutineAddresses_def gsa_walk by (rule walk_reachable)

lemma gsa_cong:
  "memoryAttr s1 = memoryAttr s \<Longrightarrow>
   getSubroutineAddresses n g s1 a addrs = getSubroutineAddresses n g s a addrs"
  unfolding gsa_walk by (simp add: getAttributeAt_def)

lemma demoted_simps [simp]:
  "references (demoted x L) = references L" "isFixed (demoted x L) = isFixed L"
  "\<not> topLevelCodeLabel (demoted x L)" "\<not> demotable S a x (demoted y L)"
  "lbl_type (demoted x L) \<noteq> CODE_LBL" "lbl_type (demoted x L) \<noteq> CODE_SUB"
  by (simp_all add: demoted_def topLevelCodeLabel_def demotable_def)

lemma localLabelResult_demoted:
  "x \<in> set arr \<Longrightarrow>
   localLabelResult arr a x L = (if demotable (set arr) a x L then demoted x L else L)"
  by (auto simp: localLabelResult_def demotable_def demoted_def)

text \<open>One iteration of the outer loop.\<close>

lemma iteration:
  assumes m: "memoryAttr s1 = memoryAttr s"
    and f: "\<forall>la. map_of (labels s1) a = Some la \<and> topLevelCodeLabel la \<longrightarrow>
              finite (subroutineAddresses g s a) \<and> card (subroutineAddresses g s a) < fuel"
  shows "\<exists>s2. findLocalLabelsInSubroutine fuel g a s1 = Some s2
      \<and> s2\<lparr>labels := labels s1\<rparr> = s1 \<and> map fst (labels s2) = map fst (labels s1)
      \<and> (\<forall>x. map_of (labels s2) x =
            (case map_of (labels s1) x of
               None \<Rightarrow> None
             | Some L \<Rightarrow>
                 Some (if (\<exists>la. map_of (labels s1) a = Some la \<and> topLevelCodeLabel la)
                          \<and> demotable (subroutineAddresses g s a) a x L
                       then demoted x L else L)))"
proof (cases "\<exists>la. map_of (labels s1) a = Some la \<and> topLevelCodeLabel la")
  case False
  then have "findLocalLabelsInSubroutine fuel g a s1 = Some s1"
    by (auto simp: findLocalLabelsInSubroutine_def topLevelCodeLabel_def split: option.splits)
  with False show ?thesis by (auto split: option.splits)
next
  case True
  then obtain la where la: "map_of (labels s1) a = Some la" "topLevelCodeLabel la" by blast
  with f have "finite (subroutineAddresses g s a)" "card (subroutineAddresses g s a) < fuel" by auto
  from gsa_terminates [OF this] gsa_cong [OF m, of fuel g a "[]"]
  obtain arr where arr: "getSubroutineAddresses fuel g s1 a [] = Some arr"
    "set arr = subroutineAddresses g s a" by auto
  let ?s2 = "s1\<lparr>labels := fold (findLocalLabel arr a) arr (labels s1)\<rparr>"
  have r: "findLocalLabelsInSubroutine fuel g a s1 = Some ?s2"
    using la arr(1) by (auto simp: findLocalLabelsInSubroutine_def topLevelCodeLabel_def)
  have k: "map fst (fold (findLocalLabel arr a) xs ls) = map fst ls" for xs ls
    by (induction xs arbitrary: ls) (simp_all add: keys_findLocalLabel)
  have mp: "map_of (labels ?s2) x =
            (case map_of (labels s1) x of
               None \<Rightarrow> None
             | Some L \<Rightarrow>
                 Some (if (\<exists>la. map_of (labels s1) a = Some la \<and> topLevelCodeLabel la)
                          \<and> demotable (subroutineAddresses g s a) a x L
                       then demoted x L else L))" for x
  proof (cases "x \<in> set arr")
    case True
    with la show ?thesis
      by (simp add: map_of_fold_findLocalLabel localLabelResult_demoted arr(2) split: option.splits)
  next
    case False
    then have "\<not> demotable (subroutineAddresses g s a) a x L" for L
      by (simp add: demotable_def arr(2) [symmetric])
    with False show ?thesis
      by (simp add: map_of_fold_findLocalLabel split: option.splits)
  qed
  from r k mp show ?thesis by (intro exI [of _ ?s2]) simp
qed


lemma demotedOnly_refl: "demotedOnly s s"
  by (simp add: demotedOnly_def split: option.splits)

lemma demotedOnly_cases:
  "demotedOnly s s1 \<Longrightarrow> map_of (labels s) x = Some L \<Longrightarrow>
   map_of (labels s1) x = Some L \<or> map_of (labels s1) x = Some (demoted x L)"
  unfolding demotedOnly_def by (auto split: option.splits dest: spec [of _ x])

lemma demotedOnly_None:
  "demotedOnly s s1 \<Longrightarrow> map_of (labels s) x = None \<Longrightarrow> map_of (labels s1) x = None"
  unfolding demotedOnly_def by (auto split: option.splits dest: spec [of _ x])

lemma demotedOnly_memoryAttr: "demotedOnly s s1 \<Longrightarrow> memoryAttr s1 = memoryAttr s"
proof -
  assume "demotedOnly s s1"
  then have "s1\<lparr>labels := labels s\<rparr> = s" by (simp add: demotedOnly_def)
  then have "memoryAttr (s1\<lparr>labels := labels s\<rparr>) = memoryAttr s" by simp
  then show ?thesis by simp
qed

lemma demotedOnly_top:
  assumes d: "demotedOnly s s1" and l: "map_of (labels s1) a = Some la" and t: "topLevelCodeLabel la"
  shows "map_of (labels s) a = Some la"
proof (cases "map_of (labels s) a")
  case None
  with demotedOnly_None [OF d None] l show ?thesis by simp
next
  case (Some L)
  from demotedOnly_cases [OF d Some] l have "la = L \<or> la = demoted a L" by auto
  with t Some show ?thesis by auto
qed

lemma demoted_neq: "demotable S a x L \<Longrightarrow> demoted x L \<noteq> L"
proof
  assume d: "demotable S a x L" and e: "demoted x L = L"
  from e have "lbl_type (demoted x L) = lbl_type L" by simp
  with d show False by (auto simp: demotable_def)
qed

lemma pass_loop:
  assumes fin: "\<forall>a la. map_of (labels s) a = Some la \<and> topLevelCodeLabel la \<longrightarrow>
                  finite (subroutineAddresses g s a) \<and> card (subroutineAddresses g s a) < fuel"
  shows "demotedOnly s s1 \<Longrightarrow>
     \<exists>s'. findLocalLabelsInSubroutines_loop fuel g ks s1 = Some s' \<and> demotedOnly s s'
       \<and> (\<forall>x. map_of (labels s1) x \<noteq> map_of (labels s) x \<longrightarrow>
               map_of (labels s') x = map_of (labels s1) x)
       \<and> (\<forall>before a after. ks = before @ a # after \<longrightarrow>
             (\<exists>sm. findLocalLabelsInSubroutines_loop fuel g before s1 = Some sm
                \<and> ((\<exists>la. map_of (labels sm) a = Some la \<and> topLevelCodeLabel la) \<longrightarrow>
                     (\<forall>x L. map_of (labels s) x = Some L
                            \<and> demotable (subroutineAddresses g s a) a x L \<longrightarrow>
                        map_of (labels s') x = Some (demoted x L)))))
       \<and> (\<forall>x. map_of (labels s') x \<noteq> map_of (labels s1) x \<longrightarrow>
             (\<exists>a \<in> set ks. \<exists>la L. map_of (labels s) a = Some la \<and> topLevelCodeLabel la
                \<and> map_of (labels s) x = Some L \<and> demotable (subroutineAddresses g s a) a x L))
       \<and> (\<forall>a \<in> set ks. (\<exists>la. map_of (labels s') a = Some la \<and> topLevelCodeLabel la) \<longrightarrow>
             (\<forall>x L. map_of (labels s) x = Some L
                    \<and> demotable (subroutineAddresses g s a) a x L \<longrightarrow>
                map_of (labels s') x = Some (demoted x L)))"
proof (induction ks arbitrary: s1)
  case Nil
  then show ?case by simp
next
  case (Cons k ks)
  note d1 = Cons.prems
  let ?R = "subroutineAddresses g s"
  let ?top = "\<exists>la. map_of (labels s1) k = Some la \<and> topLevelCodeLabel la"
  have f: "\<forall>la. map_of (labels s1) k = Some la \<and> topLevelCodeLabel la \<longrightarrow>
              finite (?R k) \<and> card (?R k) < fuel"
    using fin demotedOnly_top [OF d1] by blast
  from iteration [OF demotedOnly_memoryAttr [OF d1] f]
  obtain s2 where it: "findLocalLabelsInSubroutine fuel g k s1 = Some s2"
    and fr: "s2\<lparr>labels := labels s1\<rparr> = s1" and ky: "map fst (labels s2) = map fst (labels s1)"
    and mp: "\<And>x. map_of (labels s2) x =
            (case map_of (labels s1) x of
               None \<Rightarrow> None
             | Some L \<Rightarrow> Some (if ?top \<and> demotable (?R k) k x L then demoted x L else L))"
    by blast
  \<comment> \<open>what the iteration does to a label, in terms of the labels at the start\<close>
  have kept: "map_of (labels s2) x = map_of (labels s1) x"
    if "map_of (labels s1) x \<noteq> map_of (labels s) x" for x
  proof (cases "map_of (labels s) x")
    case None
    with demotedOnly_None [OF d1 None] that show ?thesis by simp
  next
    case (Some L)
    with demotedOnly_cases [OF d1 Some] that have "map_of (labels s1) x = Some (demoted x L)" by auto
    then show ?thesis by (simp add: mp)
  qed
  have d2: "demotedOnly s s2"
    unfolding demotedOnly_def
  proof (intro conjI allI)
    from d1 have a: "s1\<lparr>labels := labels s\<rparr> = s" by (simp add: demotedOnly_def)
    from fr have "(s2\<lparr>labels := labels s1\<rparr>)\<lparr>labels := labels s\<rparr> = s1\<lparr>labels := labels s\<rparr>" by simp
    with a show "s2\<lparr>labels := labels s\<rparr> = s" by simp
    from d1 ky show "map fst (labels s2) = map fst (labels s)" by (simp add: demotedOnly_def)
    fix x
    show "case map_of (labels s) x of
            None \<Rightarrow> map_of (labels s2) x = None
          | Some L \<Rightarrow> map_of (labels s2) x = Some L \<or> map_of (labels s2) x = Some (demoted x L)"
    proof (cases "map_of (labels s) x")
      case None
      with demotedOnly_None [OF d1 None] show ?thesis by (simp add: mp)
    next
      case (Some L)
      from demotedOnly_cases [OF d1 Some] show ?thesis
      proof
        assume "map_of (labels s1) x = Some L"
        with Some show ?thesis by (simp add: mp)
      next
        assume "map_of (labels s1) x = Some (demoted x L)"
        with Some show ?thesis by (simp add: mp)
      qed
    qed
  qed
  from Cons.IH [OF d2] obtain s' where
    run: "findLocalLabelsInSubroutines_loop fuel g ks s2 = Some s'" and d': "demotedOnly s s'"
    and A2o: "\<forall>x. map_of (labels s2) x \<noteq> map_of (labels s) x \<longrightarrow>
               map_of (labels s') x = map_of (labels s2) x"
    and B2o: "\<forall>before a after. ks = before @ a # after \<longrightarrow>
             (\<exists>sm. findLocalLabelsInSubroutines_loop fuel g before s2 = Some sm
                \<and> ((\<exists>la. map_of (labels sm) a = Some la \<and> topLevelCodeLabel la) \<longrightarrow>
                     (\<forall>x L. map_of (labels s) x = Some L
                            \<and> demotable (subroutineAddresses g s a) a x L \<longrightarrow>
                        map_of (labels s') x = Some (demoted x L))))"
    and C2o: "\<forall>x. map_of (labels s') x \<noteq> map_of (labels s2) x \<longrightarrow>
             (\<exists>a \<in> set ks. \<exists>la L. map_of (labels s) a = Some la \<and> topLevelCodeLabel la
                \<and> map_of (labels s) x = Some L \<and> demotable (subroutineAddresses g s a) a x L)"
    and D2o: "\<forall>a \<in> set ks. (\<exists>la. map_of (labels s') a = Some la \<and> topLevelCodeLabel la) \<longrightarrow>
             (\<forall>x L. map_of (labels s) x = Some L
                    \<and> demotable (subroutineAddresses g s a) a x L \<longrightarrow>
                map_of (labels s') x = Some (demoted x L))"
    by (elim exE conjE) (rule that, assumption+)
  note A2 = A2o [rule_format]
  note B2 = B2o [rule_format]
  note C2 = C2o [rule_format]
  have D2: "\<forall>x L. map_of (labels s) x = Some L \<and> demotable (?R a) a x L \<longrightarrow>
                map_of (labels s') x = Some (demoted x L)"
    if "a \<in> set ks" "\<exists>la. map_of (labels s') a = Some la \<and> topLevelCodeLabel la" for a
    using D2o that by blast
  have run': "findLocalLabelsInSubroutines_loop fuel g (k # ks) s1 = Some s'"
    using it run by simp
  have A: "map_of (labels s') x = map_of (labels s1) x"
    if "map_of (labels s1) x \<noteq> map_of (labels s) x" for x
  proof -
    from kept [OF that] that have "map_of (labels s2) x \<noteq> map_of (labels s) x" by simp
    from A2 [OF this] kept [OF that] show ?thesis by simp
  qed
  have T: "map_of (labels s') x = Some (demoted x L)"
    if tp: ?top and xl: "map_of (labels s) x = Some L" and dm: "demotable (?R k) k x L" for x L
  proof -
    have "map_of (labels s2) x = Some (demoted x L)"
      using demotedOnly_cases [OF d1 xl]
    proof
      assume "map_of (labels s1) x = Some L"
      with tp dm show ?thesis by (simp add: mp)
    next
      assume "map_of (labels s1) x = Some (demoted x L)"
      then show ?thesis by (simp add: mp)
    qed
    moreover from this xl demoted_neq [OF dm] have "map_of (labels s2) x \<noteq> map_of (labels s) x" by simp
    ultimately show ?thesis using A2 by simp
  qed
  have B: "\<exists>sm. findLocalLabelsInSubroutines_loop fuel g before s1 = Some sm
                \<and> ((\<exists>la. map_of (labels sm) a = Some la \<and> topLevelCodeLabel la) \<longrightarrow>
                     (\<forall>x L. map_of (labels s) x = Some L \<and> demotable (?R a) a x L \<longrightarrow>
                        map_of (labels s') x = Some (demoted x L)))"
    if sp: "k # ks = before @ a # after" for before a after
  proof (cases before)
    case Nil
    with sp have ak: "a = k" by simp
    have "findLocalLabelsInSubroutines_loop fuel g [] s1 = Some s1" by simp
    moreover have "(\<exists>la. map_of (labels s1) a = Some la \<and> topLevelCodeLabel la) \<longrightarrow>
                     (\<forall>x L. map_of (labels s) x = Some L \<and> demotable (?R a) a x L \<longrightarrow>
                        map_of (labels s') x = Some (demoted x L))"
      unfolding ak using T by blast
    ultimately show ?thesis unfolding Nil by blast
  next
    case (Cons k' b')
    with sp have e: "k' = k" "ks = b' @ a # after" by simp_all
    from B2 [OF e(2)] obtain sm where sm: "findLocalLabelsInSubroutines_loop fuel g b' s2 = Some sm"
      "(\<exists>la. map_of (labels sm) a = Some la \<and> topLevelCodeLabel la) \<longrightarrow>
                     (\<forall>x L. map_of (labels s) x = Some L \<and> demotable (?R a) a x L \<longrightarrow>
                        map_of (labels s') x = Some (demoted x L))" by blast
    have "findLocalLabelsInSubroutines_loop fuel g before s1 = Some sm"
      unfolding Cons e(1) using it sm(1) by simp
    with sm(2) show ?thesis by blast
  qed
  have C: "\<exists>a \<in> set (k # ks). \<exists>la L. map_of (labels s) a = Some la \<and> topLevelCodeLabel la
                \<and> map_of (labels s) x = Some L \<and> demotable (?R a) a x L"
    if ne: "map_of (labels s') x \<noteq> map_of (labels s1) x" for x
  proof (cases "map_of (labels s2) x = map_of (labels s1) x")
    case True
    with ne have "map_of (labels s') x \<noteq> map_of (labels s2) x" by simp
    from C2 [OF this] show ?thesis by auto
  next
    case False
    then obtain Lc where lc: "map_of (labels s1) x = Some Lc"
      and tp: ?top and dm: "demotable (?R k) k x Lc"
      by (cases "map_of (labels s1) x") (auto simp: mp split: if_splits)
    from tp obtain la where la: "map_of (labels s1) k = Some la" "topLevelCodeLabel la" by blast
    from demotedOnly_top [OF d1 la] have ok: "map_of (labels s) k = Some la" .
    have "map_of (labels s) x = Some Lc"
    proof (cases "map_of (labels s) x")
      case None
      with demotedOnly_None [OF d1 None] lc show ?thesis by simp
    next
      case (Some L)
      from demotedOnly_cases [OF d1 Some] lc have "Lc = L \<or> Lc = demoted x L" by auto
      with dm Some show ?thesis by auto
    qed
    with ok la(2) dm show ?thesis by auto
  qed
  have D: "\<forall>x L. map_of (labels s) x = Some L \<and> demotable (?R a) a x L \<longrightarrow>
                map_of (labels s') x = Some (demoted x L)"
    if mem: "a \<in> set (k # ks)" and fl: "\<exists>la. map_of (labels s') a = Some la \<and> topLevelCodeLabel la"
    for a
  proof (cases "a = k")
    case False
    with mem have "a \<in> set ks" by simp
    from D2 [OF this fl] show ?thesis .
  next
    case True
    from fl obtain la where la: "map_of (labels s') k = Some la" "topLevelCodeLabel la"
      unfolding True by blast
    from demotedOnly_top [OF d' la] have ok: "map_of (labels s) k = Some la" .
    have "map_of (labels s1) k = Some la"
    proof (rule ccontr)
      assume n: "map_of (labels s1) k \<noteq> Some la"
      with ok have "map_of (labels s1) k \<noteq> map_of (labels s) k" by simp
      from A [OF this] la(1) n show False by simp
    qed
    with la(2) have ?top by blast
    with T show ?thesis unfolding True by blast
  qed
  show ?case
  proof (intro exI [of _ s'] conjI)
    show "findLocalLabelsInSubroutines_loop fuel g (k # ks) s1 = Some s'" by (rule run')
    show "demotedOnly s s'" by (rule d')
    show "\<forall>x. map_of (labels s1) x \<noteq> map_of (labels s) x \<longrightarrow>
               map_of (labels s') x = map_of (labels s1) x" using A by blast
    show "\<forall>before a after. k # ks = before @ a # after \<longrightarrow>
             (\<exists>sm. findLocalLabelsInSubroutines_loop fuel g before s1 = Some sm
                \<and> ((\<exists>la. map_of (labels sm) a = Some la \<and> topLevelCodeLabel la) \<longrightarrow>
                     (\<forall>x L. map_of (labels s) x = Some L
                            \<and> demotable (subroutineAddresses g s a) a x L \<longrightarrow>
                        map_of (labels s') x = Some (demoted x L))))"
      by (intro allI impI) (erule B)
    show "\<forall>x. map_of (labels s') x \<noteq> map_of (labels s1) x \<longrightarrow>
             (\<exists>a \<in> set (k # ks). \<exists>la L. map_of (labels s) a = Some la \<and> topLevelCodeLabel la
                \<and> map_of (labels s) x = Some L \<and> demotable (subroutineAddresses g s a) a x L)"
      by (intro allI impI) (erule C)
    show "\<forall>a \<in> set (k # ks). (\<exists>la. map_of (labels s') a = Some la \<and> topLevelCodeLabel la) \<longrightarrow>
             (\<forall>x L. map_of (labels s) x = Some L
                    \<and> demotable (subroutineAddresses g s a) a x L \<longrightarrow>
                map_of (labels s') x = Some (demoted x L))"
      by (intro ballI impI) (erule (1) D)
  qed
qed


text \<open>
  Claim C6, as the code has it. Let the fuel exceed the number of addresses reachable
  from every top-level code label (\<open>CODE_LBL\<close>, \<open>CODE_SUB\<close>, \<open>CODE_RST\<close>), these sets being
  finite. Then pass 8 returns, and it changes the types of labels only, each label being
  left as it is or demoted: to \<open>CODE_LOCAL_LOOP\<close> if some referrer \<open>R\<close> has
  \<open>0 \<le> R - addr \<le> 128\<close>, and to \<open>CODE_LOCAL_LBL\<close> otherwise.
  \<^item> For every label that is a top-level code label when the pass reaches it (in the
    order of the label map, after the iterations for the labels before it), every
    address of its reachable set other than its own that carries a non-fixed \<open>CODE_LBL\<close>
    or \<open>CODE_SUB\<close> label all of whose referrers lie in the set ends the pass demoted.
  \<^item> This holds in particular for every label that is a top-level code label after the
    pass.
  \<^item> A label is demoted only if it is non-fixed, \<open>CODE_LBL\<close> or \<open>CODE_SUB\<close>, and
    lies with all its referrers in the reachable set of some other top-level code
    label; so fixed labels, and labels with a referrer outside every such set, stay.
  A label that an earlier iteration has demoted is skipped when its turn comes.
\<close>

theorem findLocalLabelsInSubroutines_demotes:
  assumes fuel: "\<forall>address label. map_of (labels s) address = Some label \<and> topLevelCodeLabel label \<longrightarrow>
      finite (subroutineAddresses g s address) \<and> card (subroutineAddresses g s address) < fuel"
  shows "\<exists>s'. findLocalLabelsInSubroutines fuel g s = Some s' \<and> demotedOnly s s'
     \<and> (\<forall>before address after. map fst (labels s) = before @ address # after \<longrightarrow>
           (\<exists>s1. findLocalLabelsInSubroutines_loop fuel g before s = Some s1
              \<and> ((\<exists>label. map_of (labels s1) address = Some label \<and> topLevelCodeLabel label) \<longrightarrow>
                   (\<forall>addr L. map_of (labels s) addr = Some L
                          \<and> demotable (subroutineAddresses g s address) address addr L \<longrightarrow>
                      map_of (labels s') addr = Some (demoted addr L)))))
     \<and> (\<forall>address label. map_of (labels s') address = Some label \<and> topLevelCodeLabel label \<longrightarrow>
           (\<forall>addr L. map_of (labels s) addr = Some L
                  \<and> demotable (subroutineAddresses g s address) address addr L \<longrightarrow>
              map_of (labels s') addr = Some (demoted addr L)))
     \<and> (\<forall>addr L. map_of (labels s) addr = Some L \<and> map_of (labels s') addr \<noteq> Some L \<longrightarrow>
           (\<exists>address label. map_of (labels s) address = Some label \<and> topLevelCodeLabel label
              \<and> demotable (subroutineAddresses g s address) address addr L))"
proof -
  let ?ks = "map fst (labels s)"
  from pass_loop [OF fuel demotedOnly_refl, of ?ks] obtain s' where
    run: "findLocalLabelsInSubroutines_loop fuel g ?ks s = Some s'" and d': "demotedOnly s s'"
    and B: "\<forall>before a after. ?ks = before @ a # after \<longrightarrow>
             (\<exists>sm. findLocalLabelsInSubroutines_loop fuel g before s = Some sm
                \<and> ((\<exists>la. map_of (labels sm) a = Some la \<and> topLevelCodeLabel la) \<longrightarrow>
                     (\<forall>x L. map_of (labels s) x = Some L
                            \<and> demotable (subroutineAddresses g s a) a x L \<longrightarrow>
                        map_of (labels s') x = Some (demoted x L))))"
    and C: "\<forall>x. map_of (labels s') x \<noteq> map_of (labels s) x \<longrightarrow>
             (\<exists>a \<in> set ?ks. \<exists>la L. map_of (labels s) a = Some la \<and> topLevelCodeLabel la
                \<and> map_of (labels s) x = Some L \<and> demotable (subroutineAddresses g s a) a x L)"
    and D: "\<forall>a \<in> set ?ks. (\<exists>la. map_of (labels s') a = Some la \<and> topLevelCodeLabel la) \<longrightarrow>
             (\<forall>x L. map_of (labels s) x = Some L
                    \<and> demotable (subroutineAddresses g s a) a x L \<longrightarrow>
                map_of (labels s') x = Some (demoted x L))"
    by (elim exE conjE) (rule that, assumption+)
  have keys: "map fst (labels s') = ?ks" using d' by (simp add: demotedOnly_def)
  have fin: "\<forall>addr L. map_of (labels s) addr = Some L
                  \<and> demotable (subroutineAddresses g s address) address addr L \<longrightarrow>
              map_of (labels s') addr = Some (demoted addr L)"
    if l: "map_of (labels s') address = Some label" "topLevelCodeLabel label" for address label
  proof -
    from l(1) have "(address, label) \<in> set (labels s')" by (rule map_of_SomeD)
    then have "address \<in> set (map fst (labels s'))" by force
    then have "address \<in> set ?ks" by (simp only: keys)
    with D l show ?thesis by blast
  qed
  have only: "\<exists>address label. map_of (labels s) address = Some label \<and> topLevelCodeLabel label
              \<and> demotable (subroutineAddresses g s address) address addr L"
    if c: "map_of (labels s) addr = Some L" "map_of (labels s') addr \<noteq> Some L" for addr L
  proof -
    from c have "map_of (labels s') addr \<noteq> map_of (labels s) addr" by simp
    with C obtain a la L' where "map_of (labels s) a = Some la" "topLevelCodeLabel la"
      "map_of (labels s) addr = Some L'" "demotable (subroutineAddresses g s a) a addr L'" by blast
    with c(1) show ?thesis by auto
  qed
  show ?thesis
  proof (intro exI [of _ s'] conjI)
    show "findLocalLabelsInSubroutines fuel g s = Some s'"
      using run by (simp add: findLocalLabelsInSubroutines_def)
    show "demotedOnly s s'" by (rule d')
    show "\<forall>before address after. map fst (labels s) = before @ address # after \<longrightarrow>
           (\<exists>s1. findLocalLabelsInSubroutines_loop fuel g before s = Some s1
              \<and> ((\<exists>label. map_of (labels s1) address = Some label \<and> topLevelCodeLabel label) \<longrightarrow>
                   (\<forall>addr L. map_of (labels s) addr = Some L
                          \<and> demotable (subroutineAddresses g s address) address addr L \<longrightarrow>
                      map_of (labels s') addr = Some (demoted addr L))))"
      by (rule B)
    show "\<forall>address label. map_of (labels s') address = Some label \<and> topLevelCodeLabel label \<longrightarrow>
           (\<forall>addr L. map_of (labels s) addr = Some L
                  \<and> demotable (subroutineAddresses g s address) address addr L \<longrightarrow>
              map_of (labels s') addr = Some (demoted addr L))"
      using fin by blast
    show "\<forall>addr L. map_of (labels s) addr = Some L \<and> map_of (labels s') addr \<noteq> Some L \<longrightarrow>
           (\<exists>address label. map_of (labels s) address = Some label \<and> topLevelCodeLabel label
              \<and> demotable (subroutineAddresses g s address) address addr L)"
      using only by blast
  qed
qed

lemma state_branches_attr:
  "getAttributeAt state_branches i = (if i mod 65536 < 10 then {ASSIGNED} else {})"
  by (simp add: state_branches_def getAttributeAt_setMemory getAttributeAt_new)

lemma walks_branches:
  "getSubroutineAddresses 10 decoder_branches state_branches 0 [] = Some [0, 1, 2, 5, 9]"
  "getSubroutineAddresses 10 decoder_branches state_branches 1 [] = Some [1, 2, 5, 9]"
  "getSubroutineAddresses 10 decoder_branches state_branches 5 [] = Some [5, 9]"
  "getSubroutineAddresses 10 decoder_branches state_branches 9 [] = Some [9]"
  by (simp_all add: eval_nat_numeral state_branches_attr decoder_branches_def Let_def)

lemma reach_branches:
  "subroutineAddresses decoder_branches state_branches 0 = {0, 1, 2, 5, 9}"
  "subroutineAddresses decoder_branches state_branches 1 = {1, 2, 5, 9}"
  "subroutineAddresses decoder_branches state_branches 5 = {5, 9}"
  "subroutineAddresses decoder_branches state_branches 9 = {9}"
  using walks_branches [THEN gsa_reachable] by simp_all


text \<open>The theorem at a subroutine at 0 with the reachable set \<open>0, 1, 2, 5, 9\<close>: the
  label at 1 (referred to from 2) becomes a loop, the label at 9 (referred to from 5,
  and reached through the branch at 5) a local label, the label at 5 (referred to from
  512) and the start label stay.\<close>

theorem findLocalLabelsInSubroutines_demotes_witness:
  "subroutineAddresses decoder_branches state_branches 0 = {0, 1, 2, 5, 9}
   \<and> (\<exists>s'. findLocalLabelsInSubroutines 10 decoder_branches state_branches = Some s'
      \<and> map_of (labels s') 0 = Some ((DisLabel_new CODE_SUB)\<lparr>references := [256]\<rparr>)
      \<and> map_of (labels s') 1 = Some ((DisLabel_new CODE_LOCAL_LOOP)\<lparr>references := [2]\<rparr>)
      \<and> map_of (labels s') 5 = Some ((DisLabel_new CODE_LBL)\<lparr>references := [512]\<rparr>)
      \<and> map_of (labels s') 9 = Some ((DisLabel_new CODE_LOCAL_LBL)\<lparr>references := [5]\<rparr>))"
proof -
  let ?g = decoder_branches
  let ?s = state_branches
  let ?R = "subroutineAddresses ?g ?s"
  have lb: "labels ?s = [(0, (DisLabel_new CODE_SUB)\<lparr>references := [256]\<rparr>),
                   (1, (DisLabel_new CODE_LBL)\<lparr>references := [2]\<rparr>),
                   (5, (DisLabel_new CODE_LBL)\<lparr>references := [512]\<rparr>),
                   (9, (DisLabel_new CODE_LBL)\<lparr>references := [5]\<rparr>)]"
    by (simp add: state_branches_def)
  have dom: "address = 0 \<or> address = 1 \<or> address = 5 \<or> address = 9"
    if "map_of (labels ?s) address = Some label" for address label
    using that unfolding lb by (simp split: if_splits)
  have small: "finite (?R address) \<and> card (?R address) < 10 \<and> 256 \<notin> ?R address \<and> 512 \<notin> ?R address"
    if "map_of (labels ?s) address = Some label" for address label
    using dom [OF that] by (elim disjE) (simp_all add: reach_branches)
  have fuel: "\<forall>address label. map_of (labels ?s) address = Some label \<and> topLevelCodeLabel label \<longrightarrow>
      finite (?R address) \<and> card (?R address) < 10"
    using small by blast
  from findLocalLabelsInSubroutines_demotes [OF fuel] obtain s' where
    run: "findLocalLabelsInSubroutines 10 ?g ?s = Some s'"
    and turn: "\<forall>before address after. map fst (labels ?s) = before @ address # after \<longrightarrow>
           (\<exists>s1. findLocalLabelsInSubroutines_loop 10 ?g before ?s = Some s1
              \<and> ((\<exists>label. map_of (labels s1) address = Some label \<and> topLevelCodeLabel label) \<longrightarrow>
                   (\<forall>addr L. map_of (labels ?s) addr = Some L
                          \<and> demotable (?R address) address addr L \<longrightarrow>
                      map_of (labels s') addr = Some (demoted addr L))))"
    and only: "\<forall>addr L. map_of (labels ?s) addr = Some L \<and> map_of (labels s') addr \<noteq> Some L \<longrightarrow>
           (\<exists>address label. map_of (labels ?s) address = Some label \<and> topLevelCodeLabel label
              \<and> demotable (?R address) address addr L)"
    by (elim exE conjE) (rule that, assumption+)
  have "map fst (labels ?s) = [] @ 0 # [1, 5, 9]" by (simp add: lb)
  with turn obtain s1 where s1: "findLocalLabelsInSubroutines_loop 10 ?g [] ?s = Some s1"
    and t0: "(\<exists>label. map_of (labels s1) 0 = Some label \<and> topLevelCodeLabel label) \<longrightarrow>
                   (\<forall>addr L. map_of (labels ?s) addr = Some L \<and> demotable (?R 0) 0 addr L \<longrightarrow>
                      map_of (labels s') addr = Some (demoted addr L))"
    by blast
  from s1 have "s1 = ?s" by simp
  with t0 have dem: "map_of (labels s') addr = Some (demoted addr L)"
    if "map_of (labels ?s) addr = Some L" "demotable (?R 0) 0 addr L" for addr L
    using that by (auto simp: lb topLevelCodeLabel_def DisLabel_new_def)
  have keep: "map_of (labels s') addr = Some L"
    if l: "map_of (labels ?s) addr = Some L" and o: "256 \<in> set (references L) \<or> 512 \<in> set (references L)"
    for addr L
  proof (rule ccontr)
    assume "map_of (labels s') addr \<noteq> Some L"
    with only l obtain address label where a: "map_of (labels ?s) address = Some label"
      "demotable (?R address) address addr L" by blast
    from a(2) have "set (references L) \<subseteq> ?R address" by (simp add: demotable_def)
    with o small [OF a(1)] show False by auto
  qed
  have l0: "map_of (labels s') 0 = Some ((DisLabel_new CODE_SUB)\<lparr>references := [256]\<rparr>)"
    by (rule keep) (simp_all add: lb)
  have l5: "map_of (labels s') 5 = Some ((DisLabel_new CODE_LBL)\<lparr>references := [512]\<rparr>)"
    by (rule keep) (simp_all add: lb)
  have l1: "map_of (labels s') 1 = Some ((DisLabel_new CODE_LOCAL_LOOP)\<lparr>references := [2]\<rparr>)"
    using dem [of 1 "(DisLabel_new CODE_LBL)\<lparr>references := [2]\<rparr>"]
    by (simp add: lb demotable_def demoted_def reach_branches DisLabel_new_def)
  have l9: "map_of (labels s') 9 = Some ((DisLabel_new CODE_LOCAL_LBL)\<lparr>references := [5]\<rparr>)"
    using dem [of 9 "(DisLabel_new CODE_LBL)\<lparr>references := [5]\<rparr>"]
    by (simp add: lb demotable_def demoted_def reach_branches DisLabel_new_def)
  from run l0 l1 l5 l9 reach_branches(1) show ?thesis by blast
qed

lemma state_mutual_attr:
  "getAttributeAt state_mutual i = (if i mod 65536 < 6 then {ASSIGNED} else {})"
  by (simp add: state_mutual_def getAttributeAt_setMemory getAttributeAt_new)

lemma walks_mutual:
  "getSubroutineAddresses 10 decoder_mutual state_mutual 0 [] = Some [0, 3]"
  "getSubroutineAddresses 10 decoder_mutual state_mutual 3 [] = Some [3, 0]"
  by (simp_all add: eval_nat_numeral state_mutual_attr decoder_mutual_def Let_def)

lemma run_mutual:
  "findLocalLabelsInSubroutines 10 decoder_mutual state_mutual =
     Some (state_mutual\<lparr>labels := [(0, (DisLabel_new CODE_LBL)\<lparr>references := [3]\<rparr>),
                                    (3, (DisLabel_new CODE_LOCAL_LBL)\<lparr>references := [0]\<rparr>)]\<rparr>)"
proof -
  have lb: "labels state_mutual = [(0, (DisLabel_new CODE_LBL)\<lparr>references := [3]\<rparr>),
                   (3, (DisLabel_new CODE_LBL)\<lparr>references := [0]\<rparr>)]"
    by (simp add: state_mutual_def)
  let ?s2 = "state_mutual\<lparr>labels := [(0, (DisLabel_new CODE_LBL)\<lparr>references := [3]\<rparr>),
                                    (3, (DisLabel_new CODE_LOCAL_LBL)\<lparr>references := [0]\<rparr>)]\<rparr>"
  have 1: "findLocalLabelsInSubroutine 10 decoder_mutual 0 state_mutual = Some ?s2"
    by (simp add: findLocalLabelsInSubroutine_def lb walks_mutual findLocalLabel_def Let_def
        DisLabel_new_def)
  have 2: "findLocalLabelsInSubroutine 10 decoder_mutual 3 ?s2 = Some ?s2"
    by (simp add: findLocalLabelsInSubroutine_def DisLabel_new_def)
  show ?thesis
    by (simp add: findLocalLabelsInSubroutines_def lb 1 2)
qed

text \<open>Claim C6 as stated speaks of every top-level code label. For two \<open>CODE_LBL\<close>
  labels at 0 and 3 whose instructions jump to each other, the iteration for the label
  at 0 demotes the label at 3; when the pass comes to the label at 3 it is no top-level
  label any more and is skipped, so the label at 0 stays \<open>CODE_LBL\<close>, although it lies in
  the reachable set of the label at 3, is not fixed, and its only referrer 3 lies in that
  set.\<close>

theorem findLocalLabelsInSubroutines_skips_counterexample:
  "\<not> (\<forall>fuel g s s' address label addr L.
        findLocalLabelsInSubroutines fuel g s = Some s'
        \<and> map_of (labels s) address = Some label \<and> topLevelCodeLabel label
        \<and> map_of (labels s) addr = Some L
        \<and> demotable (subroutineAddresses g s address) address addr L
        \<longrightarrow> map_of (labels s') addr = Some (demoted addr L))"
proof
  assume h: "\<forall>fuel g s s' address label addr L.
        findLocalLabelsInSubroutines fuel g s = Some s'
        \<and> map_of (labels s) address = Some label \<and> topLevelCodeLabel label
        \<and> map_of (labels s) addr = Some L
        \<and> demotable (subroutineAddresses g s address) address addr L
        \<longrightarrow> map_of (labels s') addr = Some (demoted addr L)"
  let ?L0 = "(DisLabel_new CODE_LBL)\<lparr>references := [3]\<rparr>"
  let ?L3 = "(DisLabel_new CODE_LBL)\<lparr>references := [0]\<rparr>"
  let ?s' = "state_mutual\<lparr>labels := [(0, ?L0), (3, (DisLabel_new CODE_LOCAL_LBL)\<lparr>references := [0]\<rparr>)]\<rparr>"
  have r3: "subroutineAddresses decoder_mutual state_mutual 3 = {0, 3}"
    using walks_mutual(2) [THEN gsa_reachable] by auto
  have a: "map_of (labels state_mutual) 3 = Some ?L3" "map_of (labels state_mutual) 0 = Some ?L0"
    by (simp_all add: state_mutual_def)
  have t: "topLevelCodeLabel ?L3" by (simp add: topLevelCodeLabel_def DisLabel_new_def)
  have d: "demotable (subroutineAddresses decoder_mutual state_mutual 3) 3 0 ?L0"
    by (simp add: demotable_def r3 DisLabel_new_def)
  from h run_mutual a t d have "map_of (labels ?s') 0 = Some (demoted 0 ?L0)" by blast
  then show False by (simp add: demoted_def DisLabel_new_def)
qed

subsection \<open>Pass 10: the cyclomatic complexity\<close>

lemma walkAdds_nil: "walkAdds g st [] st"
  by (simp add: walkAdds_def)

lemma walkAdds_instruction: "walkAdds g st [a] (countInstruction (g a) st)"
  by (simp add: walkAdds_def countInstruction_def conditionalBranch_def countedReturn_def Let_def)

lemma walkAdds_append:
  "walkAdds g st xs st1 \<Longrightarrow> walkAdds g st1 ys st2 \<Longrightarrow> walkAdds g st (xs @ ys) st2"
  by (simp add: walkAdds_def)

lemma walkAdds_nested:
  "walkAdds g zeroStatistics new addStat \<Longrightarrow> walkAdds g st new (addStatistics st addStat)"
  by (simp add: walkAdds_def addStatistics_def zeroStatistics_def)

lemma cas_counts:
  "countAddressStatistic n g s a addrs st = Some (st', addrs') \<Longrightarrow>
   \<exists>new. addrs' = addrs @ new \<and> distinct new \<and> set new \<inter> set addrs = {} \<and> walkAdds g st new st'"
proof (induction n arbitrary: a addrs st st' addrs')
  case 0
  then show ?case by simp
next
  case (Suc n)
  show ?case
  proof (cases "ASSIGNED \<notin> getAttributeAt s a \<or> a \<in> set addrs")
    case True
    with Suc.prems have "st' = st" "addrs' = addrs" by (auto split: if_splits)
    then show ?thesis by (simp add: walkAdds_nil)
  next
    case False
    then have as: "ASSIGNED \<in> getAttributeAt s a" and nv: "a \<notin> set addrs" by auto
    let ?op = "g a"
    let ?st2 = "countInstruction ?op st"
    define follow where "follow = (BRANCH_ADDRESS \<in> op_flags ?op \<and> CALL \<notin> op_flags ?op
        \<and> \<not> isSubroutineLabelAt s (op_value ?op))"
    define mid where "mid = (if follow
                  then (case countAddressStatistic n g s (op_value ?op) (addrs @ [a])
                               zeroStatistics of
                          None \<Rightarrow> None
                        | Some (addStat, addresses2) \<Rightarrow>
                            Some (addStatistics ?st2 addStat, addresses2))
                  else Some (?st2, addrs @ [a]))"
    have unfold: "countAddressStatistic (Suc n) g s a addrs st =
        (case mid of None \<Rightarrow> None
         | Some (st3, addresses3) \<Rightarrow>
             if isSubroutineLabelAt s (a + op_length ?op) then Some (st3, addresses3)
             else if STOP \<in> op_flags ?op then Some (st3, addresses3)
             else countAddressStatistic n g s (a + op_length ?op) addresses3 st3)"
      using as nv by (simp add: Let_def mid_def follow_def)
    from Suc.prems unfold obtain st3 ad3 where mid3: "mid = Some (st3, ad3)"
      by (cases mid) auto
    have m: "\<exists>new. ad3 = (addrs @ [a]) @ new \<and> distinct new \<and> set new \<inter> set (addrs @ [a]) = {}
        \<and> walkAdds g ?st2 new st3"
    proof (cases follow)
      case False
      with mid3 have "st3 = ?st2" "ad3 = addrs @ [a]" by (auto simp: mid_def)
      then show ?thesis by (simp add: walkAdds_nil)
    next
      case True
      with mid3 obtain addStat where r: "countAddressStatistic n g s (op_value ?op) (addrs @ [a])
            zeroStatistics = Some (addStat, ad3)"
        and s3: "st3 = addStatistics ?st2 addStat"
        by (auto simp: mid_def split: option.splits)
      from Suc.IH [OF r] obtain new where "ad3 = (addrs @ [a]) @ new" "distinct new"
        "set new \<inter> set (addrs @ [a]) = {}" "walkAdds g zeroStatistics new addStat"
        by blast
      then show ?thesis using s3 walkAdds_nested by blast
    qed
    then obtain new1 where n1: "ad3 = (addrs @ [a]) @ new1" "distinct new1"
        "set new1 \<inter> set (addrs @ [a]) = {}" "walkAdds g ?st2 new1 st3"
      by blast
    have fin: "\<exists>new. addrs' = ad3 @ new \<and> distinct new \<and> set new \<inter> set ad3 = {}
        \<and> walkAdds g st3 new st'"
    proof (cases "isSubroutineLabelAt s (a + op_length ?op) \<or> STOP \<in> op_flags ?op")
      case True
      with Suc.prems unfold mid3 have "st' = st3" "addrs' = ad3" by (auto split: if_splits)
      then show ?thesis by (simp add: walkAdds_nil)
    next
      case False
      with Suc.prems unfold mid3
      have "countAddressStatistic n g s (a + op_length ?op) ad3 st3 = Some (st', addrs')"
        by (auto split: if_splits)
      from Suc.IH [OF this] show ?thesis .
    qed
    then obtain new2 where n2: "addrs' = ad3 @ new2" "distinct new2" "set new2 \<inter> set ad3 = {}"
        "walkAdds g st3 new2 st'"
      by blast
    let ?new = "[a] @ new1 @ new2"
    have 1: "addrs' = addrs @ ?new" using n1(1) n2(1) by simp
    have 2: "distinct ?new" using n1(1,2,3) n2(2,3) by auto
    have 3: "set ?new \<inter> set addrs = {}" using nv n1(1,3) n2(3) by auto
    have 4: "walkAdds g st ?new st'"
      by (intro walkAdds_append [OF walkAdds_instruction] walkAdds_append [OF n1(4)] n2(4))
    from 1 2 3 4 show ?thesis by blast
  qed
qed


lemma cas_cong:
  "labels s1 = labels s \<Longrightarrow> memoryAttr s1 = memoryAttr s \<Longrightarrow>
   countAddressStatistic n g s1 a addrs st = countAddressStatistic n g s a addrs st"
proof (induction n arbitrary: a addrs st)
  case 0
  show ?case by simp
next
  case (Suc n)
  have at: "getAttributeAt s1 = getAttributeAt s"
    using Suc.prems by (simp add: getAttributeAt_def fun_eq_iff)
  have sl: "isSubroutineLabelAt s1 = isSubroutineLabelAt s"
    using Suc.prems by (simp add: isSubroutineLabelAt_def fun_eq_iff)
  show ?case
    by (simp only: countAddressStatistic.simps at sl Suc.IH [OF Suc.prems])
qed

lemma countStatistics_label_frame:
  "countStatistics_label fuel g (a, l) s1 = Some s2 \<Longrightarrow>
   labels s2 = labels s1 \<and> memoryAttr s2 = memoryAttr s1
   \<and> (\<forall>x. x \<noteq> a \<longrightarrow> map_of (subroutineStatistics s2) x = map_of (subroutineStatistics s1) x)"
  by (auto simp: countStatistics_label_def Let_def update_conv' split: if_splits option.splits prod.splits)

lemma countStatistics_label_counted:
  "countStatistics_label fuel g (a, l) s1 = Some s2 \<Longrightarrow> \<not> isEqu l \<Longrightarrow>
   lbl_type l = CODE_SUB \<or> lbl_type l = CODE_RST \<or> lbl_type l = CODE_LBL \<Longrightarrow>
   \<exists>st0 reach. countAddressStatistic fuel g s1 a [] zeroStatistics = Some (st0, reach)
      \<and> map_of (subroutineStatistics s2) a
          = Some (st0\<lparr>CyclomaticComplexity := CyclomaticComplexity st0 + 1\<rparr>)"
  by (auto simp: countStatistics_label_def Let_def update_conv' split: if_splits option.splits prod.splits)

lemma countStatistics_loop_result:
  "countStatistics_loop fuel g es s1 = Some s' \<Longrightarrow>
   labels s1 = labels s \<Longrightarrow> memoryAttr s1 = memoryAttr s \<Longrightarrow> distinct (map fst es) \<Longrightarrow>
   (\<forall>x. x \<notin> fst ` set es \<longrightarrow> map_of (subroutineStatistics s') x = map_of (subroutineStatistics s1) x)
   \<and> (\<forall>(a, l) \<in> set es. \<not> isEqu l \<and> (lbl_type l = CODE_SUB \<or> lbl_type l = CODE_RST \<or> lbl_type l = CODE_LBL) \<longrightarrow>
        (\<exists>st0 reach. countAddressStatistic fuel g s a [] zeroStatistics = Some (st0, reach)
           \<and> map_of (subroutineStatistics s') a
               = Some (st0\<lparr>CyclomaticComplexity := CyclomaticComplexity st0 + 1\<rparr>)))"
proof (induction es arbitrary: s1)
  case Nil
  then show ?case by simp
next
  case (Cons e es)
  obtain a l where e: "e = (a, l)" by (cases e)
  from Cons.prems(1) e obtain s2 where s2: "countStatistics_label fuel g (a, l) s1 = Some s2"
    and rest: "countStatistics_loop fuel g es s2 = Some s'"
    by (auto split: option.splits)
  from countStatistics_label_frame [OF s2] Cons.prems(2,3)
  have fr: "labels s2 = labels s" "memoryAttr s2 = memoryAttr s"
    "\<forall>x. x \<noteq> a \<longrightarrow> map_of (subroutineStatistics s2) x = map_of (subroutineStatistics s1) x"
    by auto
  from Cons.prems(4) e have d: "distinct (map fst es)" and na: "a \<notin> fst ` set es" by auto
  from Cons.IH [OF rest fr(1,2) d]
  have ih1: "\<forall>x. x \<notin> fst ` set es \<longrightarrow> map_of (subroutineStatistics s') x = map_of (subroutineStatistics s2) x"
    and ih2: "\<forall>(a, l) \<in> set es. \<not> isEqu l \<and> (lbl_type l = CODE_SUB \<or> lbl_type l = CODE_RST \<or> lbl_type l = CODE_LBL) \<longrightarrow>
        (\<exists>st0 reach. countAddressStatistic fuel g s a [] zeroStatistics = Some (st0, reach)
           \<and> map_of (subroutineStatistics s') a
               = Some (st0\<lparr>CyclomaticComplexity := CyclomaticComplexity st0 + 1\<rparr>))"
    by auto
  have 1: "\<forall>x. x \<notin> fst ` set (e # es) \<longrightarrow>
      map_of (subroutineStatistics s') x = map_of (subroutineStatistics s1) x"
    using ih1 fr(3) e by auto
  have here: "\<not> isEqu l \<and> (lbl_type l = CODE_SUB \<or> lbl_type l = CODE_RST \<or> lbl_type l = CODE_LBL) \<longrightarrow>
        (\<exists>st0 reach. countAddressStatistic fuel g s a [] zeroStatistics = Some (st0, reach)
           \<and> map_of (subroutineStatistics s') a
               = Some (st0\<lparr>CyclomaticComplexity := CyclomaticComplexity st0 + 1\<rparr>))"
  proof
    assume c: "\<not> isEqu l \<and> (lbl_type l = CODE_SUB \<or> lbl_type l = CODE_RST \<or> lbl_type l = CODE_LBL)"
    from countStatistics_label_counted [OF s2] c obtain st0 reach where
      r: "countAddressStatistic fuel g s1 a [] zeroStatistics = Some (st0, reach)"
      "map_of (subroutineStatistics s2) a
          = Some (st0\<lparr>CyclomaticComplexity := CyclomaticComplexity st0 + 1\<rparr>)" by blast
    from r(1) cas_cong [OF Cons.prems(2,3)]
    have "countAddressStatistic fuel g s a [] zeroStatistics = Some (st0, reach)" by simp
    moreover from ih1 na r(2) have "map_of (subroutineStatistics s') a
          = Some (st0\<lparr>CyclomaticComplexity := CyclomaticComplexity st0 + 1\<rparr>)" by simp
    ultimately show "\<exists>st0 reach. countAddressStatistic fuel g s a [] zeroStatistics = Some (st0, reach)
           \<and> map_of (subroutineStatistics s') a
               = Some (st0\<lparr>CyclomaticComplexity := CyclomaticComplexity st0 + 1\<rparr>)" by blast
  qed
  from 1 here ih2 e show ?case by auto
qed

lemma startsWith_RET_upper:
  "startsWith str ''RET '' \<Longrightarrow> startsWith (toUpperCase str) ''RET ''"
proof -
  assume "startsWith str ''RET ''"
  then have a: "take (length ''RET '') str = ''RET ''" by (simp only: startsWith_def)
  have "take (length ''RET '') (toUpperCase str) = toUpperCase (take (length ''RET '') str)"
    by (simp only: toUpperCase_def take_map)
  also have "\<dots> = toUpperCase ''RET ''" by (simp only: a)
  also have "\<dots> = ''RET ''" by (simp add: toUpperCase_def)
  finally show ?thesis by (simp only: startsWith_def)
qed


lemma cas_walk:
  "map_option snd (countAddressStatistic n g s a addrs st) =
     depthFirstWalk n (\<lambda>x. ASSIGNED \<in> getAttributeAt s x) (statisticsBranch g s) (statisticsFlow g s)
       a addrs"
proof (induction n arbitrary: a addrs st)
  case 0
  show ?case by simp
next
  case (Suc n)
  let ?asg = "\<lambda>x. ASSIGNED \<in> getAttributeAt s x"
  let ?W = "depthFirstWalk n ?asg (statisticsBranch g s) (statisticsFlow g s)"
  show ?case
  proof (cases "ASSIGNED \<notin> getAttributeAt s a \<or> a \<in> set addrs")
    case True
    then show ?thesis by auto
  next
    case False
    then have as: "ASSIGNED \<in> getAttributeAt s a" and nv: "a \<notin> set addrs" by auto
    let ?op = "g a"
    let ?st2 = "countInstruction ?op st"
    define follow where "follow = (BRANCH_ADDRESS \<in> op_flags ?op \<and> CALL \<notin> op_flags ?op
        \<and> \<not> isSubroutineLabelAt s (op_value ?op))"
    define mid where "mid = (if follow
                  then (case countAddressStatistic n g s (op_value ?op) (addrs @ [a])
                               zeroStatistics of
                          None \<Rightarrow> None
                        | Some (addStat, addresses2) \<Rightarrow>
                            Some (addStatistics ?st2 addStat, addresses2))
                  else Some (?st2, addrs @ [a]))"
    define wmid where "wmid = (case statisticsBranch g s a of
                 Some target \<Rightarrow> ?W target (addrs @ [a])
               | None \<Rightarrow> Some (addrs @ [a]))"
    have unfold: "countAddressStatistic (Suc n) g s a addrs st =
        (case mid of None \<Rightarrow> None
         | Some (st3, addresses3) \<Rightarrow>
             if isSubroutineLabelAt s (a + op_length ?op) then Some (st3, addresses3)
             else if STOP \<in> op_flags ?op then Some (st3, addresses3)
             else countAddressStatistic n g s (a + op_length ?op) addresses3 st3)"
      using as nv by (simp add: Let_def mid_def follow_def)
    have wunfold: "depthFirstWalk (Suc n) ?asg (statisticsBranch g s) (statisticsFlow g s) a addrs =
        (case wmid of None \<Rightarrow> None
         | Some v2 \<Rightarrow> (case statisticsFlow g s a of None \<Rightarrow> Some v2 | Some x \<Rightarrow> ?W x v2))"
      using as nv by (simp add: wmid_def)
    have m: "map_option snd mid = wmid"
    proof (cases follow)
      case False
      then have "statisticsBranch g s a = None" by (auto simp: statisticsBranch_def follow_def)
      with False show ?thesis by (simp add: mid_def wmid_def)
    next
      case True
      then have b: "statisticsBranch g s a = Some (op_value ?op)"
        by (auto simp: statisticsBranch_def follow_def)
      from Suc.IH [of "op_value ?op" "addrs @ [a]" zeroStatistics] True b show ?thesis
        by (cases "countAddressStatistic n g s (op_value ?op) (addrs @ [a]) zeroStatistics")
           (auto simp: mid_def wmid_def)
    qed
    show ?thesis
    proof (cases mid)
      case None
      with m have "wmid = None" by simp
      with None unfold wunfold show ?thesis by simp
    next
      case (Some p)
      obtain st3 ad3 where p: "p = (st3, ad3)" by (cases p)
      with Some m have w: "wmid = Some ad3" by auto
      show ?thesis
      proof (cases "isSubroutineLabelAt s (a + op_length ?op) \<or> STOP \<in> op_flags ?op")
        case True
        then have "statisticsFlow g s a = None" by (simp add: statisticsFlow_def)
        with True Some p w unfold wunfold show ?thesis by auto
      next
        case False
        then have "statisticsFlow g s a = Some (a + op_length ?op)" by (simp add: statisticsFlow_def)
        with False Some p w unfold wunfold Suc.IH [of "a + op_length ?op" ad3 st3] show ?thesis
          by auto
      qed
    qed
  qed
qed

lemma cas_terminates:
  assumes "finite (statisticsAddresses g s a)" and "card (statisticsAddresses g s a) < n"
  shows "\<exists>st0 reach. countAddressStatistic n g s a [] zeroStatistics = Some (st0, reach)
           \<and> set reach = statisticsAddresses g s a \<and> distinct reach"
proof -
  from walk_terminates [OF assms [unfolded statisticsAddresses_def]]
  obtain r where r: "depthFirstWalk n (\<lambda>x. ASSIGNED \<in> getAttributeAt s x) (statisticsBranch g s)
       (statisticsFlow g s) a [] = Some r" "set r = statisticsAddresses g s a" "distinct r"
    unfolding statisticsAddresses_def by blast
  from r(1) cas_walk [of n g s a "[]" zeroStatistics]
  obtain st0 where "countAddressStatistic n g s a [] zeroStatistics = Some (st0, r)"
    by (cases "countAddressStatistic n g s a [] zeroStatistics") auto
  with r(2,3) show ?thesis by blast
qed

lemma cas_reachable:
  assumes "countAddressStatistic n g s a [] st = Some (st0, reach)"
  shows "set reach = statisticsAddresses g s a \<and> distinct reach"
proof -
  from assms cas_walk [of n g s a "[]" st]
  have "depthFirstWalk n (\<lambda>x. ASSIGNED \<in> getAttributeAt s x) (statisticsBranch g s)
       (statisticsFlow g s) a [] = Some reach" by simp
  from walk_reachable [OF this] show ?thesis by (simp add: statisticsAddresses_def)
qed


lemma countStatistics_loop_total:
  "labels s1 = labels s \<Longrightarrow> memoryAttr s1 = memoryAttr s \<Longrightarrow>
   \<forall>(a, l) \<in> set es. \<not> isEqu l \<and> (lbl_type l = CODE_SUB \<or> lbl_type l = CODE_RST \<or> lbl_type l = CODE_LBL)
      \<longrightarrow> finite (statisticsAddresses g s a) \<and> card (statisticsAddresses g s a) < fuel \<Longrightarrow>
   \<exists>s'. countStatistics_loop fuel g es s1 = Some s'"
proof (induction es arbitrary: s1)
  case Nil
  then show ?case by simp
next
  case (Cons e es)
  obtain a l where e: "e = (a, l)" by (cases e)
  have "\<exists>s2. countStatistics_label fuel g (a, l) s1 = Some s2"
  proof (cases "\<not> isEqu l \<and> (lbl_type l = CODE_SUB \<or> lbl_type l = CODE_RST \<or> lbl_type l = CODE_LBL)")
    case False
    then show ?thesis by (auto simp: countStatistics_label_def)
  next
    case True
    with Cons.prems(3) e have "finite (statisticsAddresses g s a)"
      "card (statisticsAddresses g s a) < fuel" by auto
    from cas_terminates [OF this] cas_cong [OF Cons.prems(1,2), of fuel g a "[]" zeroStatistics]
    obtain st0 reach where "countAddressStatistic fuel g s1 a [] zeroStatistics = Some (st0, reach)"
      by auto
    with True show ?thesis by (auto simp: countStatistics_label_def Let_def)
  qed
  then obtain s2 where s2: "countStatistics_label fuel g (a, l) s1 = Some s2" by blast
  from countStatistics_label_frame [OF s2] Cons.prems(1,2)
  have fr: "labels s2 = labels s" "memoryAttr s2 = memoryAttr s" by auto
  from Cons.prems(3) have "\<forall>(a, l) \<in> set es. \<not> isEqu l \<and> (lbl_type l = CODE_SUB \<or> lbl_type l = CODE_RST \<or> lbl_type l = CODE_LBL)
      \<longrightarrow> finite (statisticsAddresses g s a) \<and> card (statisticsAddresses g s a) < fuel" by simp
  from Cons.IH [OF fr this] s2 e show ?case by simp
qed

text \<open>
  Claim C8. Let the label map have one entry per address, and let the fuel exceed the
  number of addresses reachable from every counted label, these sets being finite. Then
  \<open>countStatistics\<close> returns, and for every label of the label map that is not \<open>isEqu\<close>
  and has type \<open>CODE_SUB\<close>, \<open>CODE_RST\<close> or \<open>CODE_LBL\<close>, the statistics it stores have a
  cyclomatic complexity of 1, plus the number of reachable instructions that have a
  branch address and a comma in their mnemonic, plus the number of reachable
  instructions that have no branch address and whose upper-cased mnemonic starts with
  \<open>RET\<close> and a space; so it is at least 1. When the decoder's mnemonics are such that a
  name starts with \<open>RET\<close> and a space whenever its upper-cased form does, and that no
  instruction with a branch address has such a name, the last number is the number of
  reachable instructions whose mnemonic starts with \<open>RET\<close> and a space. The size is the
  sum of the lengths of the reachable instructions and the instruction count is their
  number. Reachable means: from the label's address by linear flow and by branches that
  are not calls, over assigned bytes, without entering a \<open>CODE_SUB\<close> or \<open>CODE_RST\<close>
  label.
\<close>

theorem countStatistics_cyclomaticComplexity:
  assumes dist: "distinct (map fst (labels s))"
    and fuel: "\<forall>(address, label) \<in> set (labels s).
        \<not> isEqu label
        \<and> (lbl_type label = CODE_SUB \<or> lbl_type label = CODE_RST \<or> lbl_type label = CODE_LBL)
        \<longrightarrow> finite (statisticsAddresses g s address)
            \<and> card (statisticsAddresses g s address) < fuel"
  shows "\<exists>s'. countStatistics fuel g s = Some s'
     \<and> (\<forall>address label.
          map_of (labels s) address = Some label \<and> \<not> isEqu label
          \<and> (lbl_type label = CODE_SUB \<or> lbl_type label = CODE_RST \<or> lbl_type label = CODE_LBL)
          \<longrightarrow>
          (\<exists>statistics.
             map_of (subroutineStatistics s') address = Some statistics
             \<and> CyclomaticComplexity statistics =
                 1 + int (card {x \<in> statisticsAddresses g s address.
                                  BRANCH_ADDRESS \<in> op_flags (g x) \<and> CHR '','' \<in> set (op_name (g x))})
                   + int (card {x \<in> statisticsAddresses g s address.
                                  BRANCH_ADDRESS \<notin> op_flags (g x)
                                  \<and> startsWith (toUpperCase (op_name (g x))) ''RET ''})
             \<and> ((\<forall>x. startsWith (toUpperCase (op_name (g x))) ''RET ''
                        \<longrightarrow> startsWith (op_name (g x)) ''RET '')
                  \<and> (\<forall>x. BRANCH_ADDRESS \<in> op_flags (g x)
                        \<longrightarrow> \<not> startsWith (op_name (g x)) ''RET '')
                \<longrightarrow> CyclomaticComplexity statistics =
                 1 + int (card {x \<in> statisticsAddresses g s address.
                                  BRANCH_ADDRESS \<in> op_flags (g x) \<and> CHR '','' \<in> set (op_name (g x))})
                   + int (card {x \<in> statisticsAddresses g s address.
                                  startsWith (op_name (g x)) ''RET ''}))
             \<and> sizeInBytes statistics = (\<Sum>x \<in> statisticsAddresses g s address. op_length (g x))
             \<and> countOfInstructions statistics = int (card (statisticsAddresses g s address))
             \<and> 1 \<le> CyclomaticComplexity statistics))"
proof -
  from countStatistics_loop_total [OF refl refl fuel]
  obtain s' where run: "countStatistics_loop fuel g (labels s) s = Some s'" by blast
  have cr: "countedReturn g = (\<lambda>x. BRANCH_ADDRESS \<notin> op_flags (g x)
                                   \<and> startsWith (toUpperCase (op_name (g x))) ''RET '')"
    by (simp add: countedReturn_def fun_eq_iff)
  have cb: "conditionalBranch g = (\<lambda>x. BRANCH_ADDRESS \<in> op_flags (g x)
                                      \<and> CHR '','' \<in> set (op_name (g x)))"
    by (simp add: conditionalBranch_def fun_eq_iff)
  have each: "\<exists>statistics.
             map_of (subroutineStatistics s') address = Some statistics
             \<and> CyclomaticComplexity statistics =
                 1 + int (card {x \<in> statisticsAddresses g s address.
                                  BRANCH_ADDRESS \<in> op_flags (g x) \<and> CHR '','' \<in> set (op_name (g x))})
                   + int (card {x \<in> statisticsAddresses g s address.
                                  BRANCH_ADDRESS \<notin> op_flags (g x)
                                  \<and> startsWith (toUpperCase (op_name (g x))) ''RET ''})
             \<and> ((\<forall>x. startsWith (toUpperCase (op_name (g x))) ''RET ''
                        \<longrightarrow> startsWith (op_name (g x)) ''RET '')
                  \<and> (\<forall>x. BRANCH_ADDRESS \<in> op_flags (g x)
                        \<longrightarrow> \<not> startsWith (op_name (g x)) ''RET '')
                \<longrightarrow> CyclomaticComplexity statistics =
                 1 + int (card {x \<in> statisticsAddresses g s address.
                                  BRANCH_ADDRESS \<in> op_flags (g x) \<and> CHR '','' \<in> set (op_name (g x))})
                   + int (card {x \<in> statisticsAddresses g s address.
                                  startsWith (op_name (g x)) ''RET ''}))
             \<and> sizeInBytes statistics = (\<Sum>x \<in> statisticsAddresses g s address. op_length (g x))
             \<and> countOfInstructions statistics = int (card (statisticsAddresses g s address))
             \<and> 1 \<le> CyclomaticComplexity statistics"
    if lab: "map_of (labels s) address = Some label" "\<not> isEqu label"
      "lbl_type label = CODE_SUB \<or> lbl_type label = CODE_RST \<or> lbl_type label = CODE_LBL"
    for address label
  proof -
    from lab(1) have mem: "(address, label) \<in> set (labels s)" by (rule map_of_SomeD)
    from countStatistics_loop_result [OF run refl refl dist] mem lab(2,3)
    obtain st0 reach where r: "countAddressStatistic fuel g s address [] zeroStatistics = Some (st0, reach)"
      "map_of (subroutineStatistics s') address
          = Some (st0\<lparr>CyclomaticComplexity := CyclomaticComplexity st0 + 1\<rparr>)"
      by blast
    from cas_counts [OF r(1)] have w: "walkAdds g zeroStatistics reach st0" by auto
    from cas_reachable [OF r(1)] have sr: "set reach = statisticsAddresses g s address"
      and d: "distinct reach" by auto
    have f: "int (length (filter P reach)) = int (card {x \<in> statisticsAddresses g s address. P x})" for P
    proof -
      have "{x. P x} \<inter> set reach = {x \<in> statisticsAddresses g s address. P x}" using sr by auto
      with distinct_length_filter [OF d, of P] show ?thesis by simp
    qed
    have sm: "sum_list (map (\<lambda>x. op_length (g x)) reach) = (\<Sum>x \<in> statisticsAddresses g s address. op_length (g x))"
      using sum_list_distinct_conv_sum_set [OF d, of "\<lambda>x. op_length (g x)"] sr by simp
    have ln: "int (length reach) = int (card (statisticsAddresses g s address))"
      using distinct_card [OF d] sr by simp
    let ?st = "st0\<lparr>CyclomaticComplexity := CyclomaticComplexity st0 + 1\<rparr>"
    from w have cc: "CyclomaticComplexity ?st =
          1 + int (card {x \<in> statisticsAddresses g s address.
                                  BRANCH_ADDRESS \<in> op_flags (g x) \<and> CHR '','' \<in> set (op_name (g x))})
            + int (card {x \<in> statisticsAddresses g s address.
                                  BRANCH_ADDRESS \<notin> op_flags (g x)
                                  \<and> startsWith (toUpperCase (op_name (g x))) ''RET ''})"
      and sz: "sizeInBytes ?st = (\<Sum>x \<in> statisticsAddresses g s address. op_length (g x))"
      and cn: "countOfInstructions ?st = int (card (statisticsAddresses g s address))"
      by (simp_all add: walkAdds_def cr cb zeroStatistics_def f sm ln)
    have same: "{x \<in> statisticsAddresses g s address.
                   BRANCH_ADDRESS \<notin> op_flags (g x)
                   \<and> startsWith (toUpperCase (op_name (g x))) ''RET ''}
              = {x \<in> statisticsAddresses g s address. startsWith (op_name (g x)) ''RET ''}"
      if "\<forall>x. startsWith (toUpperCase (op_name (g x))) ''RET ''
                        \<longrightarrow> startsWith (op_name (g x)) ''RET ''"
         "\<forall>x. BRANCH_ADDRESS \<in> op_flags (g x) \<longrightarrow> \<not> startsWith (op_name (g x)) ''RET ''"
      using that startsWith_RET_upper by blast
    have cc2: "(\<forall>x. startsWith (toUpperCase (op_name (g x))) ''RET ''
                        \<longrightarrow> startsWith (op_name (g x)) ''RET '')
                  \<and> (\<forall>x. BRANCH_ADDRESS \<in> op_flags (g x)
                        \<longrightarrow> \<not> startsWith (op_name (g x)) ''RET '')
                \<longrightarrow> CyclomaticComplexity ?st =
                 1 + int (card {x \<in> statisticsAddresses g s address.
                                  BRANCH_ADDRESS \<in> op_flags (g x) \<and> CHR '','' \<in> set (op_name (g x))})
                   + int (card {x \<in> statisticsAddresses g s address.
                                  startsWith (op_name (g x)) ''RET ''})"
      using cc same by simp
    from cc have ge: "1 \<le> CyclomaticComplexity ?st" by simp
    from r(2) cc cc2 sz cn ge show ?thesis by blast
  qed
  from run each show ?thesis unfolding countStatistics_def by blast
qed

lemma state_JPNZ_RETNZ_attr:
  "getAttributeAt state_JPNZ_RETNZ i = (if i mod 65536 < 7 then {ASSIGNED} else {})"
  by (simp add: state_JPNZ_RETNZ_def getAttributeAt_setMemory getAttributeAt_new)

lemma state_JPNZ_RETNZ_labels:
  "labels state_JPNZ_RETNZ = [(0, DisLabel_new CODE_SUB),
                   (4, (DisLabel_new CODE_SUB)\<lparr>references := [256]\<rparr>),
                   (6, (DisLabel_new CODE_LOCAL_LBL)\<lparr>references := [0]\<rparr>)]"
  by (simp add: state_JPNZ_RETNZ_def)

lemma walk_JPNZ_RETNZ:
  "\<exists>st0. countAddressStatistic 10 decoder_JPNZ_RETNZ state_JPNZ_RETNZ 0 [] zeroStatistics
     = Some (st0, [0, 6, 3])"
  "\<exists>st0. countAddressStatistic 10 decoder_JPNZ_RETNZ state_JPNZ_RETNZ 4 [] zeroStatistics
     = Some (st0, [4])"
  by (simp_all add: eval_nat_numeral state_JPNZ_RETNZ_attr decoder_JPNZ_RETNZ_def Let_def
      isSubroutineLabelAt_def state_JPNZ_RETNZ_labels DisLabel_new_def)

text \<open>The theorem at a subroutine with one conditional jump, whose target is reached
  through the branch only, and one conditional return, after which another subroutine
  begins: 3 instructions, 5 bytes, cyclomatic complexity 3; the subroutine at 4 is one
  \<open>RET\<close>.\<close>

theorem countStatistics_cyclomaticComplexity_witness:
  "statisticsAddresses decoder_JPNZ_RETNZ state_JPNZ_RETNZ 0 = {0, 3, 6}
   \<and> statisticsAddresses decoder_JPNZ_RETNZ state_JPNZ_RETNZ 4 = {4}
   \<and> (\<exists>s'. countStatistics 10 decoder_JPNZ_RETNZ state_JPNZ_RETNZ = Some s'
      \<and> map_of (subroutineStatistics s') 0
          = Some \<lparr>sizeInBytes = 5, countOfInstructions = 3, CyclomaticComplexity = 3\<rparr>
      \<and> map_of (subroutineStatistics s') 4
          = Some \<lparr>sizeInBytes = 1, countOfInstructions = 1, CyclomaticComplexity = 1\<rparr>)"
proof -
  let ?g = decoder_JPNZ_RETNZ
  let ?s = state_JPNZ_RETNZ
  have upper: "\<forall>x. startsWith (toUpperCase (op_name (?g x))) ''RET ''
      \<longrightarrow> startsWith (op_name (?g x)) ''RET ''"
    by (simp add: decoder_JPNZ_RETNZ_def toUpperCase_def startsWith_def)
  have ret: "\<forall>x. BRANCH_ADDRESS \<in> op_flags (?g x) \<longrightarrow> \<not> startsWith (op_name (?g x)) ''RET ''"
    by (simp add: decoder_JPNZ_RETNZ_def startsWith_def)
  have dist: "distinct (map fst (labels ?s))" by (simp add: state_JPNZ_RETNZ_labels)
  have lab0: "map_of (labels ?s) 0 = Some (DisLabel_new CODE_SUB)"
    and lab4: "map_of (labels ?s) 4 = Some ((DisLabel_new CODE_SUB)\<lparr>references := [256]\<rparr>)"
    by (simp_all add: state_JPNZ_RETNZ_labels)
  from walk_JPNZ_RETNZ obtain st0 st4 where
    w0: "countAddressStatistic 10 ?g ?s 0 [] zeroStatistics = Some (st0, [0, 6, 3])"
    and w4: "countAddressStatistic 10 ?g ?s 4 [] zeroStatistics = Some (st4, [4])" by blast
  have "set [0, 6, 3] = {0, 3, 6 :: int}" by auto
  with cas_reachable [OF w0] have r0: "statisticsAddresses ?g ?s 0 = {0, 3, 6}" by simp
  from cas_reachable [OF w4] have r4: "statisticsAddresses ?g ?s 4 = {4}" by simp
  have fuel: "\<forall>(address, label) \<in> set (labels ?s).
        \<not> isEqu label
        \<and> (lbl_type label = CODE_SUB \<or> lbl_type label = CODE_RST \<or> lbl_type label = CODE_LBL)
        \<longrightarrow> finite (statisticsAddresses ?g ?s address)
            \<and> card (statisticsAddresses ?g ?s address) < 10"
    by (simp add: state_JPNZ_RETNZ_labels DisLabel_new_def r0 r4)
  from countStatistics_cyclomaticComplexity [OF dist fuel]
  obtain s' where s': "countStatistics 10 ?g ?s = Some s'"
    and all: "\<forall>address label.
          map_of (labels ?s) address = Some label \<and> \<not> isEqu label
          \<and> (lbl_type label = CODE_SUB \<or> lbl_type label = CODE_RST \<or> lbl_type label = CODE_LBL)
          \<longrightarrow>
          (\<exists>statistics.
             map_of (subroutineStatistics s') address = Some statistics
             \<and> CyclomaticComplexity statistics =
                 1 + int (card {x \<in> statisticsAddresses ?g ?s address.
                                  BRANCH_ADDRESS \<in> op_flags (?g x) \<and> CHR '','' \<in> set (op_name (?g x))})
                   + int (card {x \<in> statisticsAddresses ?g ?s address.
                                  BRANCH_ADDRESS \<notin> op_flags (?g x)
                                  \<and> startsWith (toUpperCase (op_name (?g x))) ''RET ''})
             \<and> ((\<forall>x. startsWith (toUpperCase (op_name (?g x))) ''RET ''
                        \<longrightarrow> startsWith (op_name (?g x)) ''RET '')
                  \<and> (\<forall>x. BRANCH_ADDRESS \<in> op_flags (?g x)
                        \<longrightarrow> \<not> startsWith (op_name (?g x)) ''RET '')
                \<longrightarrow> CyclomaticComplexity statistics =
                 1 + int (card {x \<in> statisticsAddresses ?g ?s address.
                                  BRANCH_ADDRESS \<in> op_flags (?g x) \<and> CHR '','' \<in> set (op_name (?g x))})
                   + int (card {x \<in> statisticsAddresses ?g ?s address.
                                  startsWith (op_name (?g x)) ''RET ''}))
             \<and> sizeInBytes statistics = (\<Sum>x \<in> statisticsAddresses ?g ?s address. op_length (?g x))
             \<and> countOfInstructions statistics = int (card (statisticsAddresses ?g ?s address))
             \<and> 1 \<le> CyclomaticComplexity statistics)"
    by (elim exE conjE) (rule that, assumption+)
  have st: "\<exists>statistics.
             map_of (subroutineStatistics s') address = Some statistics
             \<and> CyclomaticComplexity statistics =
                 1 + int (card {x \<in> statisticsAddresses ?g ?s address.
                                  BRANCH_ADDRESS \<in> op_flags (?g x)
                                  \<and> CHR '','' \<in> set (op_name (?g x))})
                   + int (card {x \<in> statisticsAddresses ?g ?s address.
                                  startsWith (op_name (?g x)) ''RET ''})
             \<and> sizeInBytes statistics
                 = (\<Sum>x \<in> statisticsAddresses ?g ?s address. op_length (?g x))
             \<and> countOfInstructions statistics
                 = int (card (statisticsAddresses ?g ?s address))"
    if "map_of (labels ?s) address = Some label \<and> \<not> isEqu label
          \<and> (lbl_type label = CODE_SUB \<or> lbl_type label = CODE_RST \<or> lbl_type label = CODE_LBL)"
    for address label
  proof -
    from all [rule_format, OF that] obtain statistics where
      m: "map_of (subroutineStatistics s') address = Some statistics"
      and i: "(\<forall>x. startsWith (toUpperCase (op_name (?g x))) ''RET ''
                        \<longrightarrow> startsWith (op_name (?g x)) ''RET '')
                  \<and> (\<forall>x. BRANCH_ADDRESS \<in> op_flags (?g x)
                        \<longrightarrow> \<not> startsWith (op_name (?g x)) ''RET '')
                \<longrightarrow> CyclomaticComplexity statistics =
                 1 + int (card {x \<in> statisticsAddresses ?g ?s address.
                                  BRANCH_ADDRESS \<in> op_flags (?g x) \<and> CHR '','' \<in> set (op_name (?g x))})
                   + int (card {x \<in> statisticsAddresses ?g ?s address.
                                  startsWith (op_name (?g x)) ''RET ''})"
      and sz: "sizeInBytes statistics = (\<Sum>x \<in> statisticsAddresses ?g ?s address. op_length (?g x))"
      and cn: "countOfInstructions statistics = int (card (statisticsAddresses ?g ?s address))"
      by (elim exE conjE) (rule that, assumption+)
    from i [THEN mp, OF conjI [OF upper ret]] have "CyclomaticComplexity statistics =
                 1 + int (card {x \<in> statisticsAddresses ?g ?s address.
                                  BRANCH_ADDRESS \<in> op_flags (?g x) \<and> CHR '','' \<in> set (op_name (?g x))})
                   + int (card {x \<in> statisticsAddresses ?g ?s address.
                                  startsWith (op_name (?g x)) ''RET ''})"
      .
    with m sz cn show ?thesis by (intro exI [of _ statistics] conjI)
  qed
  from st [of 0 "DisLabel_new CODE_SUB"] lab0
  obtain stat0 where m0: "map_of (subroutineStatistics s') 0 = Some stat0"
    and cc0: "CyclomaticComplexity stat0 =
                 1 + int (card {x \<in> {0, 3, 6 :: int}.
                                  BRANCH_ADDRESS \<in> op_flags (?g x)
                                  \<and> CHR '','' \<in> set (op_name (?g x))})
                   + int (card {x \<in> {0, 3, 6 :: int}. startsWith (op_name (?g x)) ''RET ''})"
    and sz0: "sizeInBytes stat0 = (\<Sum>x \<in> {0, 3, 6 :: int}. op_length (?g x))"
    and cn0: "countOfInstructions stat0 = int (card {0, 3, 6 :: int})"
    unfolding r0 by (auto simp: DisLabel_new_def)
  from st [of 4 "(DisLabel_new CODE_SUB)\<lparr>references := [256]\<rparr>"] lab4
  obtain stat4 where m4: "map_of (subroutineStatistics s') 4 = Some stat4"
    and cc4: "CyclomaticComplexity stat4 =
                 1 + int (card {x \<in> {4 :: int}.
                                  BRANCH_ADDRESS \<in> op_flags (?g x)
                                  \<and> CHR '','' \<in> set (op_name (?g x))})
                   + int (card {x \<in> {4 :: int}. startsWith (op_name (?g x)) ''RET ''})"
    and sz4: "sizeInBytes stat4 = (\<Sum>x \<in> {4 :: int}. op_length (?g x))"
    and cn4: "countOfInstructions stat4 = int (card {4 :: int})"
    unfolding r4 by (auto simp: DisLabel_new_def)
  have c1: "{x \<in> {0, 3, 6 :: int}. BRANCH_ADDRESS \<in> op_flags (?g x)
                \<and> CHR '','' \<in> set (op_name (?g x))} = {0}"
    by (auto simp: decoder_JPNZ_RETNZ_def split: if_splits)
  have c2: "{x \<in> {0, 3, 6 :: int}. startsWith (op_name (?g x)) ''RET ''} = {3}"
    by (auto simp: decoder_JPNZ_RETNZ_def startsWith_def split: if_splits)
  have c3: "{x \<in> {4 :: int}. BRANCH_ADDRESS \<in> op_flags (?g x)
                \<and> CHR '','' \<in> set (op_name (?g x))} = {}"
    by (auto simp: decoder_JPNZ_RETNZ_def split: if_splits)
  have c4: "{x \<in> {4 :: int}. startsWith (op_name (?g x)) ''RET ''} = {}"
    by (auto simp: decoder_JPNZ_RETNZ_def startsWith_def split: if_splits)
  have e0: "stat0 = \<lparr>sizeInBytes = 5, countOfInstructions = 3, CyclomaticComplexity = 3\<rparr>"
    using cc0 sz0 cn0 unfolding c1 c2 by (cases stat0) (simp add: decoder_JPNZ_RETNZ_def)
  have e4: "stat4 = \<lparr>sizeInBytes = 1, countOfInstructions = 1, CyclomaticComplexity = 1\<rparr>"
    using cc4 sz4 cn4 unfolding c3 c4 by (cases stat4) (simp add: decoder_JPNZ_RETNZ_def)
  from s' m0 m4 e0 e4 r0 r4 show ?thesis by simp
qed

subsection \<open>The call graph: the font size\<close>

lemma fontSize_degenerate:
  assumes "CyclomaticComplexity (statisticsMax s) = CyclomaticComplexity (statisticsMin s)"
    and "CyclomaticComplexity stats = CyclomaticComplexity (statisticsMin s)"
  shows "getCallGraph_fontSize s stats = NaN"
  using assms by (simp add: getCallGraph_fontSize_def js_minus_def signedInfinity_def)

lemma fontSize_interpolation:
  assumes "CyclomaticComplexity (statisticsMin s) < CyclomaticComplexity (statisticsMax s)"
  shows "getCallGraph_fontSize s stats =
     Finite (of_int \<lfloor>13 + 27 / (of_int (CyclomaticComplexity (statisticsMax s))
                                  - of_int (CyclomaticComplexity (statisticsMin s)))
                         * (of_int (CyclomaticComplexity stats)
                            - of_int (CyclomaticComplexity (statisticsMin s))) + 1 / 2 :: real\<rfloor>)"
  using assms by (simp add: getCallGraph_fontSize_def js_minus_def)

lemma fontSize_bounds:
  assumes lt: "CyclomaticComplexity (statisticsMin s) < CyclomaticComplexity (statisticsMax s)"
    and lo: "CyclomaticComplexity (statisticsMin s) \<le> CyclomaticComplexity stats"
    and hi: "CyclomaticComplexity stats \<le> CyclomaticComplexity (statisticsMax s)"
  shows "\<exists>n. getCallGraph_fontSize s stats = Finite (of_int n) \<and> 13 \<le> n \<and> n \<le> 40"
proof -
  let ?mx = "of_int (CyclomaticComplexity (statisticsMax s)) :: real"
  let ?mn = "of_int (CyclomaticComplexity (statisticsMin s)) :: real"
  let ?cc = "of_int (CyclomaticComplexity stats) :: real"
  let ?x = "27 / (?mx - ?mn) * (?cc - ?mn)"
  have d: "0 < ?mx - ?mn" using lt by simp
  have n: "0 \<le> ?cc - ?mn" using lo by simp
  have u: "?cc - ?mn \<le> ?mx - ?mn" using hi by simp
  have x0: "0 \<le> ?x" using d n by simp
  have "?x = 27 * ((?cc - ?mn) / (?mx - ?mn))" by simp
  also have "\<dots> \<le> 27 * 1" using d u by (intro mult_left_mono) (simp_all add: divide_le_eq_1)
  finally have x1: "?x \<le> 27" by simp
  have lo': "13 \<le> \<lfloor>13 + ?x + 1 / 2\<rfloor>" using x0 by (simp add: le_floor_iff)
  have hi': "\<lfloor>13 + ?x + 1 / 2\<rfloor> \<le> 40" using x1 by (simp add: floor_le_iff)
  from fontSize_interpolation [OF lt, of stats] lo' hi' show ?thesis by blast
qed

lemma walk_single_RET:
  "countAddressStatistic 10 decoder_single_RET state_single_RET 0 [] zeroStatistics =
     Some (\<lparr>sizeInBytes = 3, countOfInstructions = 2, CyclomaticComplexity = 0\<rparr>, [0, 2])"
proof -
  have at: "getAttributeAt state_single_RET i = (if i mod 65536 < 3 then {ASSIGNED} else {})" for i
    by (simp add: state_single_RET_def getAttributeAt_setMemory getAttributeAt_new)
  have lb: "labels state_single_RET = [(0, DisLabel_new CODE_SUB)]"
    by (simp add: state_single_RET_def)
  show ?thesis
    by (simp add: eval_nat_numeral at decoder_single_RET_def Let_def countInstruction_def
        addStatistics_def zeroStatistics_def isSubroutineLabelAt_def lb DisLabel_new_def
        startsWith_def toUpperCase_def)
qed

lemma run_single_RET:
  "countStatistics 10 decoder_single_RET state_single_RET =
     Some (state_single_RET\<lparr>subroutineStatistics :=
                      [(0, \<lparr>sizeInBytes = 3, countOfInstructions = 2, CyclomaticComplexity = 1\<rparr>)],
                    statisticsMax := \<lparr>sizeInBytes = 3, countOfInstructions = 2, CyclomaticComplexity = 1\<rparr>,
                    statisticsMin := \<lparr>sizeInBytes = 3, countOfInstructions = 2, CyclomaticComplexity = 1\<rparr>\<rparr>)"
proof -
  have f: "labels state_single_RET = [(0, DisLabel_new CODE_SUB)]"
    "subroutineStatistics state_single_RET = []"
    "statisticsMax state_single_RET = \<lparr>sizeInBytes = 0, countOfInstructions = 0, CyclomaticComplexity = 0\<rparr>"
    "statisticsMin state_single_RET = \<lparr>sizeInBytes = MAX_SAFE_INTEGER, countOfInstructions = MAX_SAFE_INTEGER,
                       CyclomaticComplexity = MAX_SAFE_INTEGER\<rparr>"
    by (simp_all add: state_single_RET_def setMemory_def addAttributeAt_def Disassembler_new_def)
  show ?thesis
    by (simp add: countStatistics_def f countStatistics_label_def walk_single_RET Let_def
        DisLabel_new_def MAX_SAFE_INTEGER_def updateStatisticsMax_def updateStatisticsMin_def)
qed


text \<open>
  Claim C9. The font size of a node is a linear interpolation of its cyclomatic
  complexity over \<open>[statisticsMin.CC, statisticsMax.CC]\<close> onto 13 to 40 and so lies
  between 13 and 40, also when both bounds are equal. With exact arithmetic the code
  does this when \<open>statisticsMin.CC < statisticsMax.CC\<close> (lemma \<open>fontSize_bounds\<close>). When
  the bounds are equal the factor is \<open>27 / 0 = Infinity\<close>, every node has
  \<open>CC - min = 0\<close>, and \<open>Infinity * 0\<close> is \<open>NaN\<close> (lemma \<open>fontSize_degenerate\<close>): the font
  size printed is \<open>NaN\<close>. This is so for the spec's first scenario, one subroutine
  \<open>LD A,5; RET\<close>, after \<open>countStatistics\<close> has run on it.
\<close>

theorem getCallGraph_fontSize_single_subroutine:
  "\<exists>s' stats. countStatistics 10 decoder_single_RET state_single_RET = Some s'
      \<and> map_of (subroutineStatistics s') 0 = Some stats
      \<and> CyclomaticComplexity stats = 1
      \<and> CyclomaticComplexity (statisticsMin s') = 1
      \<and> CyclomaticComplexity (statisticsMax s') = 1
      \<and> getCallGraph_fontSize s' stats = NaN"
  by (simp add: run_single_RET getCallGraph_fontSize_def js_minus_def signedInfinity_def)

subsection \<open>Trace files\<close>

lemma suffix_position:
  assumes "dropWhile P (drop k xs) = c # rest"
  shows "drop (length xs - length rest) xs = rest \<and> k < length xs - length rest
         \<and> length xs - length rest \<le> length xs"
proof -
  let ?n = "length (takeWhile P (drop k xs))"
  have "dropWhile P (drop k xs) = drop ?n (drop k xs)" by (rule dropWhile_eq_drop)
  with assms have d: "drop (?n + k) xs = c # rest" by simp
  then have r: "drop (Suc (?n + k)) xs = rest"
    by (metis drop_Suc tl_drop list.sel(3))
  from d have "length (drop (?n + k) xs) = Suc (length rest)" by simp
  then have l: "length xs - (?n + k) = Suc (length rest)" by simp
  then have e: "length xs - length rest = Suc (?n + k)" by simp
  from r e show ?thesis by simp
qed

lemma indexOf_suffix:
  "k \<le> length xs \<Longrightarrow>
   indexOf xs c k =
     (case dropWhile (\<lambda>x. x \<noteq> c) (drop k xs) of
        [] \<Rightarrow> - 1
      | d # rest \<Rightarrow> int (length xs - length rest) - 1)"
proof (induction "length xs - k" arbitrary: k)
  case 0
  then have "k = length xs" by simp
  then show ?case by (simp add: indexOf_def)
next
  case (Suc n)
  then have lt: "k < length xs" by simp
  then have u: "[k ..< length xs] = k # [Suc k ..< length xs]" by (simp add: upt_conv_Cons)
  have dr: "drop k xs = xs ! k # drop (Suc k) xs" using lt by (simp add: Cons_nth_drop_Suc)
  show ?case
  proof (cases "xs ! k = c")
    case True
    then show ?thesis using lt by (simp add: indexOf_def u dr)
  next
    case False
    have "n = length xs - Suc k" using Suc.hyps(2) by simp
    from Suc.hyps(1) [OF this] lt
    have "indexOf xs c (Suc k) =
      (case dropWhile (\<lambda>x. x \<noteq> c) (drop (Suc k) xs) of
        [] \<Rightarrow> - 1
      | d # rest \<Rightarrow> int (length xs - length rest) - 1)" by simp
    moreover have "indexOf xs c k = indexOf xs c (Suc k)" using False by (simp add: indexOf_def u)
    ultimately show ?thesis using False by (simp add: dr)
  qed
qed

lemma scan_unfold:
  "useMameTraceFile_scan trace k buffer =
     (if validPrefix (substr trace k 5)
      then (if indexOf trace newline (k + 5) + 1 \<noteq> 0
            then useMameTraceFile_scan trace (nat (indexOf trace newline (k + 5) + 1))
                   (buffer @ [parseInt16 (substr trace k 5)])
            else buffer @ [parseInt16 (substr trace k 5)])
      else (if indexOf trace newline k + 1 \<noteq> 0
            then useMameTraceFile_scan trace (nat (indexOf trace newline k + 1)) buffer
            else buffer))"
  by (subst useMameTraceFile_scan.simps) (auto simp: Let_def validPrefix_def)

lemma scan_from:
  assumes k1: "k1 \<le> length trace"
  shows "(if indexOf trace newline k1 + 1 \<noteq> 0
          then useMameTraceFile_scan trace (nat (indexOf trace newline k1 + 1)) buf
          else buf) =
         (case dropWhile (\<lambda>x. x \<noteq> newline) (drop k1 trace) of
            [] \<Rightarrow> buf
          | d # rest \<Rightarrow> useMameTraceFile_scan trace (length trace - length rest) buf)"
proof (cases "dropWhile (\<lambda>x. x \<noteq> newline) (drop k1 trace)")
  case Nil
  with indexOf_suffix [OF k1, of newline] have "indexOf trace newline k1 = - 1"
    by (simp del: dropWhile_eq_Nil_conv)
  with Nil show ?thesis by (simp del: dropWhile_eq_Nil_conv)
next
  case (Cons d rest)
  with indexOf_suffix [OF k1, of newline]
  have i: "indexOf trace newline k1 = int (length trace - length rest) - 1" by simp
  from suffix_position [OF Cons] have "k1 < length trace - length rest" by simp
  then have p: "0 < length trace - length rest" by linarith
  from i p have "indexOf trace newline k1 + 1 \<noteq> 0"
    "nat (indexOf trace newline k1 + 1) = length trace - length rest" by simp_all
  with Cons show ?thesis by simp
qed

lemma scan_step:
  assumes k: "k \<le> length trace"
  shows "useMameTraceFile_scan trace k buffer =
     (if validPrefix (take 5 (drop k trace))
      then (case dropWhile (\<lambda>x. x \<noteq> newline) (drop 5 (drop k trace)) of
              [] \<Rightarrow> buffer @ [parseInt16 (take 5 (drop k trace))]
            | d # rest \<Rightarrow> useMameTraceFile_scan trace (length trace - length rest)
                            (buffer @ [parseInt16 (take 5 (drop k trace))]))
      else (case dropWhile (\<lambda>x. x \<noteq> newline) (drop k trace) of
              [] \<Rightarrow> buffer
            | d # rest \<Rightarrow> useMameTraceFile_scan trace (length trace - length rest) buffer))"
proof (cases "validPrefix (take 5 (drop k trace))")
  case True
  then have "length (take 5 (drop k trace)) = 5" by (simp add: validPrefix_def)
  then have "5 \<le> length (drop k trace)" by simp
  then have k5: "k + 5 \<le> length trace" using k by simp
  have d: "drop (k + 5) trace = drop 5 (drop k trace)" by (simp add: add.commute)
  from True scan_from [OF k5] show ?thesis
    by (subst scan_unfold) (simp only: substr_def d if_True)
next
  case False
  with scan_from [OF k] show ?thesis
    by (subst scan_unfold) (simp only: substr_def if_False)
qed


lemma addressPrefixes_unfold:
  "addressPrefixes r =
     (if 5 \<le> length (takeWhile (\<lambda>x. x \<noteq> newline) r)
         \<and> takeWhile (\<lambda>x. x \<noteq> newline) r ! 4 = CHR '':''
      then [take 5 (takeWhile (\<lambda>x. x \<noteq> newline) r)] else [])
     @ (case dropWhile (\<lambda>x. x \<noteq> newline) r of
          [] \<Rightarrow> []
        | d # rest \<Rightarrow> addressPrefixes rest)"
proof (cases "dropWhile (\<lambda>x. x \<noteq> newline) r")
  case Nil
  then have tw: "takeWhile (\<lambda>x. x \<noteq> newline) r = r" by simp
  have "splitLines r = [r]" using Nil by (subst splitLines.simps) (simp del: dropWhile_eq_Nil_conv)
  then show ?thesis unfolding Nil tw by (simp add: addressPrefixes_def)
next
  case (Cons d rest)
  have "splitLines r = takeWhile (\<lambda>x. x \<noteq> newline) r # splitLines rest"
    using Cons by (subst splitLines.simps) simp
  then show ?thesis using Cons by (simp add: addressPrefixes_def)
qed

lemma valid_prefix_in_line:
  assumes v: "validPrefix (take 5 r)" and n: "newline \<notin> set (take 5 r)"
  shows "5 \<le> length (takeWhile (\<lambda>x. x \<noteq> newline) r)"
    "takeWhile (\<lambda>x. x \<noteq> newline) r ! 4 = CHR '':''"
    "take 5 (takeWhile (\<lambda>x. x \<noteq> newline) r) = take 5 r"
    "dropWhile (\<lambda>x. x \<noteq> newline) (drop 5 r) = dropWhile (\<lambda>x. x \<noteq> newline) r"
proof -
  let ?w = "take 5 r"
  have r: "r = ?w @ drop 5 r" by simp
  have all: "\<And>x. x \<in> set ?w \<Longrightarrow> x \<noteq> newline" using n by auto
  have tw: "takeWhile (\<lambda>x. x \<noteq> newline) r = ?w @ takeWhile (\<lambda>x. x \<noteq> newline) (drop 5 r)"
    by (subst r, rule takeWhile_append2) (rule all)
  have lw: "length ?w = 5" and c: "?w ! 4 = CHR '':''" using v by (simp_all add: validPrefix_def)
  show "5 \<le> length (takeWhile (\<lambda>x. x \<noteq> newline) r)" by (simp only: tw length_append lw)
  show "takeWhile (\<lambda>x. x \<noteq> newline) r ! 4 = CHR '':''"
    by (simp only: tw) (simp add: nth_append lw c del: length_take)
  show "take 5 (takeWhile (\<lambda>x. x \<noteq> newline) r) = take 5 r"
    by (simp only: tw) (simp add: lw del: length_take)
  show "dropWhile (\<lambda>x. x \<noteq> newline) (drop 5 r) = dropWhile (\<lambda>x. x \<noteq> newline) r"
    by (subst (2) r, rule dropWhile_append2 [symmetric]) (rule all)
qed

lemma invalid_prefix_in_line:
  assumes "\<not> validPrefix (take 5 r)"
  shows "\<not> (5 \<le> length (takeWhile (\<lambda>x. x \<noteq> newline) r)
           \<and> takeWhile (\<lambda>x. x \<noteq> newline) r ! 4 = CHR '':'')"
proof
  let ?l = "takeWhile (\<lambda>x. x \<noteq> newline) r"
  assume h: "5 \<le> length ?l \<and> ?l ! 4 = CHR '':''"
  have r: "r = ?l @ dropWhile (\<lambda>x. x \<noteq> newline) r" by simp
  have "take 5 r = take 5 (?l @ dropWhile (\<lambda>x. x \<noteq> newline) r)" by simp
  also have "\<dots> = take 5 ?l" using h by (simp del: takeWhile_dropWhile_id)
  finally have e: "take 5 r = take 5 ?l" .
  have "length (take 5 ?l) = 5" using h by simp
  moreover have "take 5 ?l ! 4 = CHR '':''" using h by simp
  ultimately have "validPrefix (take 5 r)" unfolding e validPrefix_def by simp
  with assms show False by simp
qed

lemma scan_correct:
  "k \<le> length trace \<Longrightarrow> noPrefixSpansLines (drop k trace) \<Longrightarrow>
   useMameTraceFile_scan trace k buf = buf @ map parseInt16 (addressPrefixes (drop k trace))"
proof (induction "length trace - k" arbitrary: k buf rule: less_induct)
  case less
  let ?r = "drop k trace"
  let ?w = "take 5 ?r"
  let ?nl = "\<lambda>x. x \<noteq> newline"
  from less.prems(2) have safe_here: "validPrefix ?w \<longrightarrow> newline \<notin> set ?w"
    and safe_rest: "\<And>d rest. dropWhile ?nl ?r = d # rest \<Longrightarrow> noPrefixSpansLines rest"
    by (subst (asm) noPrefixSpansLines.simps, simp add: validPrefix_def)+
  have step: "useMameTraceFile_scan trace (length trace - length rest) b
      = b @ map parseInt16 (addressPrefixes rest)"
    if dw: "dropWhile ?nl ?r = d # rest" for d rest b
  proof -
    from suffix_position [OF dw]
    have p: "drop (length trace - length rest) trace = rest" "k < length trace - length rest"
      "length trace - length rest \<le> length trace" by auto
    have "length trace - (length trace - length rest) < length trace - k" using p(2,3) by linarith
    from less.hyps [OF this p(3)] safe_rest [OF dw] p(1) show ?thesis by simp
  qed
  show ?case
  proof (cases "validPrefix ?w")
    case True
    with safe_here have n: "newline \<notin> set ?w" by simp
    note vl = valid_prefix_in_line [OF True n]
    have sp: "addressPrefixes ?r = ?w # (case dropWhile ?nl ?r of [] \<Rightarrow> [] | d # rest \<Rightarrow> addressPrefixes rest)"
      by (subst addressPrefixes_unfold) (simp add: vl(1,2,3) del: length_take)
    show ?thesis
    proof (cases "dropWhile ?nl ?r")
      case Nil
      with True vl(4) sp show ?thesis
        by (subst scan_step [OF less.prems(1)]) (simp del: dropWhile_eq_Nil_conv)
    next
      case (Cons d rest)
      with True vl(4) sp step [OF Cons] show ?thesis
        by (subst scan_step [OF less.prems(1)]) simp
    qed
  next
    case False
    note il = invalid_prefix_in_line [OF False]
    have sp: "addressPrefixes ?r = (case dropWhile ?nl ?r of [] \<Rightarrow> [] | d # rest \<Rightarrow> addressPrefixes rest)"
      using il by (subst addressPrefixes_unfold) simp
    show ?thesis
    proof (cases "dropWhile ?nl ?r")
      case Nil
      with False sp show ?thesis
        by (subst scan_step [OF less.prems(1)]) (simp del: dropWhile_eq_Nil_conv)
    next
      case (Cons d rest)
      with False sp step [OF Cons] show ?thesis
        by (subst scan_step [OF less.prems(1)]) simp
    qed
  qed
qed


lemma queue_filter_sorted:
  "filter (\<lambda>addr. Some addr \<in> set (map f ps)) [0 .. m - 1]
     = sort (remdups (filter (\<lambda>a. 0 \<le> a \<and> a < m)
         (concat (map (\<lambda>p. case f p of None \<Rightarrow> [] | Some a \<Rightarrow> [a]) ps))))"
proof (rule sorted_distinct_set_unique)
  show "sorted (filter (\<lambda>addr. Some addr \<in> set (map f ps)) [0 .. m - 1])"
    by (rule sorted_wrt_filter) (rule sorted_upto)
  show "distinct (filter (\<lambda>addr. Some addr \<in> set (map f ps)) [0 .. m - 1])"
    by (rule distinct_filter) (rule distinct_upto)
  show "sorted (sort (remdups (filter (\<lambda>a. 0 \<le> a \<and> a < m)
         (concat (map (\<lambda>p. case f p of None \<Rightarrow> [] | Some a \<Rightarrow> [a]) ps)))))"
    by (rule sorted_sort)
  show "distinct (sort (remdups (filter (\<lambda>a. 0 \<le> a \<and> a < m)
         (concat (map (\<lambda>p. case f p of None \<Rightarrow> [] | Some a \<Rightarrow> [a]) ps)))))"
    by simp
  show "set (filter (\<lambda>addr. Some addr \<in> set (map f ps)) [0 .. m - 1])
      = set (sort (remdups (filter (\<lambda>a. 0 \<le> a \<and> a < m)
         (concat (map (\<lambda>p. case f p of None \<Rightarrow> [] | Some a \<Rightarrow> [a]) ps)))))"
    by (auto split: option.splits)
qed

lemma splitLines_length: "l \<in> set (splitLines r) \<Longrightarrow> length l \<le> length r"
proof (induction r rule: splitLines.induct)
  case (1 str)
  show ?case
  proof (cases "dropWhile (\<lambda>c. c \<noteq> newline) str")
    case Nil
    with 1(2) show ?thesis by (subst (asm) splitLines.simps) (simp del: dropWhile_eq_Nil_conv)
  next
    case (Cons d rest)
    have "length (dropWhile (\<lambda>c. c \<noteq> newline) str) \<le> length str" by (rule length_dropWhile_le)
    then have lr: "length rest \<le> length str" using Cons by simp
    have lt: "length (takeWhile (\<lambda>c. c \<noteq> newline) str) \<le> length str" by (rule length_takeWhile_le)
    from 1(2) Cons have "l = takeWhile (\<lambda>c. c \<noteq> newline) str \<or> l \<in> set (splitLines rest)"
      by (subst (asm) splitLines.simps) simp
    then show ?thesis using 1(1) [OF Cons] lr lt by auto
  qed
qed

lemma addressPrefixes_short: "length trace < 5 \<Longrightarrow> addressPrefixes trace = []"
  using splitLines_length [of _ trace] by (fastforce simp: addressPrefixes_def filter_empty_conv)

lemma useMameTraceFile_spec:
  assumes "noPrefixSpansLines trace"
  shows "useMameTraceFile trace s
           = s\<lparr>addressQueue := addressQueue s @ spec_traceAddresses trace\<rparr>"
proof (cases "length trace < 5")
  case True
  then show ?thesis
    by (simp add: useMameTraceFile_def spec_traceAddresses_def addressPrefixes_short)
next
  case False
  have "useMameTraceFile_scan trace 0 [] = map parseInt16 (addressPrefixes trace)"
    using scan_correct [of 0 trace "[]"] assms by simp
  then show ?thesis using False
    by (simp add: useMameTraceFile_def spec_traceAddresses_def queue_filter_sorted
        del: set_map)
qed

lemma trace_example_lines: "noPrefixSpansLines trace_example"
  by code_simp

lemma trace_example_addresses: "spec_traceAddresses trace_example = [56, 256]"
  by code_simp

lemma trace_spanning_spec: "spec_traceAddresses trace_spanning = [188]"
  by code_simp

lemma trace_spanning_scan: "useMameTraceFile_scan trace_spanning 0 [] = [Some 10]"
  by code_simp

text \<open>
  Claim C7, as the code has it. \<open>useMameTraceFile\<close> does not split the text into lines:
  it takes the five characters at the current position, and only then looks for the next
  line feed. When no five characters that start a line and have \<open>:\<close> as their fifth contain
  a line feed, the addresses pushed onto the queue are exactly those of the five-character
  line prefixes ending in \<open>:\<close>, without duplicates and in ascending order, and nothing else
  of the disassembler changes. A text shorter than five characters leaves the
  disassembler as it is.
\<close>

theorem useMameTraceFile_amended:
  "(noPrefixSpansLines trace \<longrightarrow>
      useMameTraceFile trace s
        = s\<lparr>addressQueue := addressQueue s @ spec_traceAddresses trace\<rparr>)
   \<and> (length trace < 5 \<longrightarrow> useMameTraceFile trace s = s)"
  using useMameTraceFile_spec [of trace s] by (simp add: useMameTraceFile_def)

text \<open>The theorem at a trace of three lines with the addresses \<open>0038\<close>, \<open>0100\<close>, \<open>0038\<close>,
  which queues 56 and 256, and at the three-character text \<open>00:\<close>.\<close>

theorem useMameTraceFile_amended_witness:
  "noPrefixSpansLines trace_example
   \<and> addressQueue (useMameTraceFile trace_example Disassembler_new) = [56, 256]
   \<and> length ''00:'' < (5 :: nat)
   \<and> useMameTraceFile ''00:'' Disassembler_new = Disassembler_new"
  using useMameTraceFile_amended [of trace_example Disassembler_new]
    useMameTraceFile_amended [of "''00:''" Disassembler_new]
  by (simp add: trace_example_lines trace_example_addresses)

text \<open>Claim C7 as stated speaks of every trace text. For the text \<open>a\<close>, line feed,
  \<open>bc:d:\<close> the only line prefix of five characters ending in \<open>:\<close> is \<open>bc:d:\<close>, whose
  address is \<open>0xbc\<close> = 188; the code reads the five characters \<open>a\<close>, line feed, \<open>bc:\<close> at
  position 0, parses them to \<open>0xa\<close> = 10, finds no further line feed and queues 10.\<close>

theorem useMameTraceFile_spanning_counterexample:
  "\<not> (\<forall>trace s. addressQueue (useMameTraceFile trace s)
          = addressQueue s @ spec_traceAddresses trace)"
proof
  assume "\<forall>trace s. addressQueue (useMameTraceFile trace s)
          = addressQueue s @ spec_traceAddresses trace"
  then have "addressQueue (useMameTraceFile trace_spanning Disassembler_new)
      = addressQueue Disassembler_new @ spec_traceAddresses trace_spanning" by blast
  moreover have "addressQueue (useMameTraceFile trace_spanning Disassembler_new) = [10]"
  proof -
    have l: "\<not> length trace_spanning < 5" by (simp add: trace_spanning_def)
    have "filter (\<lambda>addr. Some addr \<in> set [Some (10 :: int)]) [0 .. MAX_MEM_SIZE - 1] = [10]"
      using queue_filter_sorted [of "\<lambda>x. x" "[Some (10 :: int)]" MAX_MEM_SIZE]
      by (simp add: MAX_MEM_SIZE_def)
    then show ?thesis using l by (simp add: useMameTraceFile_def trace_spanning_scan)
  qed
  ultimately show False by (simp add: trace_spanning_spec)
qed

subsection \<open>Labels as the program creates them\<close>

text \<open>\<open>labelsConsistent\<close> holds of a new disassembler and is kept by everything modelled
  here that stores a label, adds a referrer or changes an attribute: \<open>setMemory\<close>,
  \<open>setLabel\<close>, \<open>setFixedCodeLabel\<close>, \<open>setFoundLabel\<close> called with the attribute of the
  address (as \<open>disassembleForLabel\<close> and \<open>adjustSelfModifyingLabels\<close> do), pass 1 and
  pass 5. The attribute \<open>ASSIGNED\<close> is never taken away.\<close>

lemma consistent_new: "labelsConsistent Disassembler_new"
  by (simp add: labelsConsistent_def)

lemma consistent_grow:
  assumes "labelsConsistent s" and "labels s' = labels s"
    and "\<And>a. ASSIGNED \<in> getAttributeAt s a \<Longrightarrow> ASSIGNED \<in> getAttributeAt s' a"
  shows "labelsConsistent s'"
  using assms unfolding labelsConsistent_def by metis

lemma consistent_addAttributeAt:
  "labelsConsistent s \<Longrightarrow> labelsConsistent (addAttributeAt a len attr s)"
  by (erule consistent_grow) (auto simp: getAttributeAt_addAttributeAt)

lemma consistent_setMemory: "labelsConsistent s \<Longrightarrow> labelsConsistent (setMemory a len s)"
  unfolding setMemory_def by (rule consistent_addAttributeAt)

lemma consistent_emit [simp]: "labelsConsistent (emit ev msg s) = labelsConsistent s"
  by (simp add: labelsConsistent_def emit_def getAttributeAt_def)

lemma consistent_queue [simp]:
  "labelsConsistent (s\<lparr>addressQueue := q\<rparr>) = labelsConsistent s"
  by (simp add: labelsConsistent_def)

lemma consistent_update:
  assumes "labelsConsistent s"
    and "ASSIGNED \<notin> getAttributeAt s a \<longrightarrow> isEqu l" and "a \<notin> set (references l)"
  shows "labelsConsistent (s\<lparr>labels := AList.update a l (labels s)\<rparr>)"
  using assms unfolding labelsConsistent_def by (auto simp: update_conv')

lemma consistent_update_queue:
  assumes "labelsConsistent s"
    and "ASSIGNED \<notin> getAttributeAt s a \<longrightarrow> isEqu l" and "a \<notin> set (references l)"
  shows "labelsConsistent (s\<lparr>addressQueue := q, labels := AList.update a l (labels s)\<rparr>)"
  using assms unfolding labelsConsistent_def by (auto simp: update_conv')

lemma consistent_setLabel: "labelsConsistent s \<Longrightarrow> labelsConsistent (setLabel a name t s)"
  by (auto simp: setLabel_def Let_def DisLabel_new_def
      intro!: consistent_update consistent_update_queue)

lemma consistent_setFixedCodeLabel:
  "labelsConsistent s \<Longrightarrow> labelsConsistent (setFixedCodeLabel a name s)"
  by (auto simp: setFixedCodeLabel_def Let_def DisLabel_new_def
      intro!: consistent_update consistent_update_queue)

lemma consistent_setFoundLabel:
  assumes inv: "labelsConsistent s" and attr: "ASSIGNED \<in> attr \<longrightarrow> ASSIGNED \<in> getAttributeAt s addr"
  shows "labelsConsistent (setFoundLabel addr refs t attr s)"
proof (cases "map_of (labels s) addr")
  case None
  show ?thesis
    unfolding labelsConsistent_def
  proof (intro allI impI)
    fix a l assume h: "map_of (labels (setFoundLabel addr refs t attr s)) a = Some l"
    show "(ASSIGNED \<notin> getAttributeAt (setFoundLabel addr refs t attr s) a \<longrightarrow> isEqu l)
        \<and> a \<notin> set (references l)"
    proof (cases "a = addr")
      case True
      with h map_of_setFoundLabel_None [OF None, of refs t attr] attr show ?thesis
        by (auto simp: set_fold_refs)
    next
      case False
      with h inv show ?thesis
        by (simp add: map_of_setFoundLabel_other labelsConsistent_def)
    qed
  qed
next
  case (Some l0)
  show ?thesis
    unfolding labelsConsistent_def
  proof (intro allI impI)
    fix a l assume h: "map_of (labels (setFoundLabel addr refs t attr s)) a = Some l"
    show "(ASSIGNED \<notin> getAttributeAt (setFoundLabel addr refs t attr s) a \<longrightarrow> isEqu l)
        \<and> a \<notin> set (references l)"
    proof (cases "a = addr")
      case True
      from inv Some have "(ASSIGNED \<notin> getAttributeAt s addr \<longrightarrow> isEqu l0) \<and> addr \<notin> set (references l0)"
        unfolding labelsConsistent_def by blast
      with True h map_of_setFoundLabel_Some [OF Some, of refs t attr] show ?thesis
        by (auto simp: set_fold_refs)
    next
      case False
      with h inv show ?thesis
        by (simp add: map_of_setFoundLabel_other labelsConsistent_def)
    qed
  qed
qed

lemma consistent_disassembleForLabel:
  "labelsConsistent s \<Longrightarrow> disassembleForLabel g a opcode s = Inr (ok, s') \<Longrightarrow> labelsConsistent s'"
  by (auto simp: disassembleForLabel_def Let_def consistent_setFoundLabel
      split: if_splits sum.splits)

lemma consistent_step:
  "labelsConsistent s \<Longrightarrow> stateOf (collectLabels_step g a s) = Some s' \<Longrightarrow> labelsConsistent s'"
  by (auto simp: collectLabels_step_def Let_def consistent_addAttributeAt
      split: if_splits option.splits sum.splits
      dest!: consistent_disassembleForLabel [rotated])

lemma consistent_trace:
  "labelsConsistent s \<Longrightarrow> collectLabels_trace n g a s = Some r \<Longrightarrow> stateOf r = Some s' \<Longrightarrow>
   labelsConsistent s'"
proof (induction n arbitrary: a s)
  case 0
  then show ?case by simp
next
  case (Suc n)
  show ?case
  proof (cases "collectLabels_step g a s")
    case (Continues a1 s1)
    then have "labelsConsistent s1" using consistent_step [OF Suc.prems(1), of g a s1] by simp
    with Suc Continues show ?thesis by simp
  next
    case (TraceEnds s1)
    with Suc.prems consistent_step [OF Suc.prems(1), of g a s'] show ?thesis by auto
  next
    case (Aborts s1)
    with Suc.prems consistent_step [OF Suc.prems(1), of g a s'] show ?thesis by auto
  next
    case (Throws e)
    with Suc.prems show ?thesis by auto
  qed
qed

lemma consistent_collectLabels:
  "labelsConsistent s \<Longrightarrow> collectLabels n g s = Some (Inr s') \<Longrightarrow> labelsConsistent s'"
proof (induction n arbitrary: s)
  case 0
  then show ?case by simp
next
  case (Suc n)
  show ?case
  proof (cases "addressQueue s")
    case Nil
    with Suc.prems show ?thesis by simp
  next
    case (Cons a rest)
    show ?thesis
    proof (cases "collectLabels_trace n g a (s\<lparr>addressQueue := rest\<rparr>)")
      case None
      with Cons Suc.prems show ?thesis by simp
    next
      case (Some r)
      have c: "labelsConsistent (s\<lparr>addressQueue := rest\<rparr>)" using Suc.prems(1) by simp
      show ?thesis
      proof (cases r)
        case (TraceEnds s1)
        with consistent_trace [OF c Some, of s1] have "labelsConsistent s1" by simp
        with Suc Cons Some TraceEnds show ?thesis by simp
      next
        case (Aborts s1)
        with consistent_trace [OF c Some, of s1] have "labelsConsistent s1" by simp
        with Suc.prems Cons Some Aborts show ?thesis by simp
      next
        case (Continues a1 s1)
        with Suc.prems Cons Some show ?thesis by simp
      next
        case (Throws e)
        with Suc.prems Cons Some show ?thesis by simp
      qed
    qed
  qed
qed

lemma consistent_delete:
  "labelsConsistent s \<Longrightarrow> labelsConsistent (s\<lparr>labels := AList.delete a (labels s)\<rparr>)"
  unfolding labelsConsistent_def by (auto simp: delete_conv')

lemma consistent_offsetLabels [simp]:
  "labelsConsistent (s\<lparr>offsetLabels := q\<rparr>) = labelsConsistent s"
  by (simp add: labelsConsistent_def getAttributeAt_def)

lemma consistent_adjustSelfModifyingLabel:
  "labelsConsistent s \<Longrightarrow> adjustSelfModifyingLabel entry s = Inr s' \<Longrightarrow> labelsConsistent s'"
  by (auto simp: adjustSelfModifyingLabel_def Let_def consistent_setFoundLabel
      split: prod.splits sum.splits intro!: consistent_delete)

lemma consistent_adjust_loop:
  "labelsConsistent s \<Longrightarrow> adjustSelfModifyingLabels_loop cm s = Inr s' \<Longrightarrow> labelsConsistent s'"
proof (induction cm arbitrary: s)
  case Nil
  then show ?case by simp
next
  case (Cons entry cm)
  then show ?case
    by (auto split: sum.splits dest: consistent_adjustSelfModifyingLabel)
qed

lemma consistent_adjustSelfModifyingLabels:
  "labelsConsistent s \<Longrightarrow> adjustSelfModifyingLabels s = Inr s' \<Longrightarrow> labelsConsistent s'"
  unfolding adjustSelfModifyingLabels_def by (rule consistent_adjust_loop)

text \<open>
  Claim C2. In a state whose labels are as the program creates them, and with \<open>attr\<close>
  the attribute of \<open>addr\<close> (what every caller passes), after
  \<open>setFoundLabel(addr, referrers, type, attr)\<close> there is a label at \<open>addr\<close>. If there was
  none, it is a fresh label of the given type whose referrers are the given ones except
  \<open>addr\<close>. If there was one, its type becomes the higher-ranked of the two types, its
  referrer set is joined with the given referrers except \<open>addr\<close>, and nothing else about it
  changes. In both cases no referrer of the label equals \<open>addr\<close>, and the label's \<open>isEqu\<close>
  flag is set if \<open>attr\<close> lacks \<open>ASSIGNED\<close>. No other label and no other field of the
  disassembler changes, and the labels are again as the program creates them.
\<close>

theorem setFoundLabel_sets_label:
  assumes inv: "labelsConsistent s" and attr: "attr = getAttributeAt s addr"
  shows "\<exists>l'. map_of (labels (setFoundLabel addr refs t attr s)) addr = Some l'
     \<and> (case map_of (labels s) addr of
          None \<Rightarrow>
            l'\<lparr>references := []\<rparr> = (DisLabel_new t)\<lparr>isEqu := (ASSIGNED \<notin> attr)\<rparr>
            \<and> set (references l') = set refs - {addr}
        | Some l \<Rightarrow>
            l'\<lparr>references := references l\<rparr> =
              l\<lparr>lbl_type := (if NumberType_rank (lbl_type l) < NumberType_rank t then t else lbl_type l)\<rparr>
            \<and> NumberType_rank (lbl_type l') = max (NumberType_rank (lbl_type l)) (NumberType_rank t)
            \<and> set (references l') = set (references l) \<union> (set refs - {addr}))
     \<and> addr \<notin> set (references l')
     \<and> (ASSIGNED \<notin> attr \<longrightarrow> isEqu l')
     \<and> (\<forall>a. a \<noteq> addr \<longrightarrow>
           map_of (labels (setFoundLabel addr refs t attr s)) a = map_of (labels s) a)
     \<and> (setFoundLabel addr refs t attr s)\<lparr>labels := labels s\<rparr> = s
     \<and> labelsConsistent (setFoundLabel addr refs t attr s)"
proof -
  have c: "labelsConsistent (setFoundLabel addr refs t attr s)"
    using consistent_setFoundLabel [OF inv, of attr addr refs t] attr by simp
  show ?thesis
  proof (cases "map_of (labels s) addr")
    case None
    show ?thesis
      using None map_of_setFoundLabel_None [OF None, of refs t attr] c
      by (simp add: set_fold_refs map_of_setFoundLabel_other setFoundLabel_frame DisLabel_new_def)
  next
    case (Some l)
    from inv Some attr have "(ASSIGNED \<notin> attr \<longrightarrow> isEqu l) \<and> addr \<notin> set (references l)"
      unfolding labelsConsistent_def by blast
    then show ?thesis
      using Some map_of_setFoundLabel_Some [OF Some, of refs t attr] c
      by (simp add: set_fold_refs map_of_setFoundLabel_other setFoundLabel_frame max_def)
  qed
qed


text \<open>The theorem after \<open>setFixedCodeLabel(5)\<close> on a new disassembler (no memory is
  assigned, so the label is an \<open>EQU\<close>), for \<open>setFoundLabel(5, {3, 5, 7}, CODE_SUB, 0)\<close>: the
  type is promoted, 3 and 7 are added, 5 is not, and the label is still an \<open>EQU\<close>; and for
  \<open>setFoundLabel(9, {3}, DATA_LBL, 0)\<close>, which creates an \<open>EQU\<close> label.\<close>

theorem setFoundLabel_sets_label_witness:
  "labelsConsistent (setFixedCodeLabel 5 None Disassembler_new)
   \<and> {} = getAttributeAt (setFixedCodeLabel 5 None Disassembler_new) 5
   \<and> (\<exists>l'. map_of (labels (setFoundLabel 5 [3, 5, 7] CODE_SUB {}
                (setFixedCodeLabel 5 None Disassembler_new))) 5 = Some l'
          \<and> lbl_type l' = CODE_SUB \<and> set (references l') = {3, 7} \<and> isEqu l')
   \<and> (\<exists>l'. map_of (labels (setFoundLabel 9 [3] DATA_LBL {}
                (setFixedCodeLabel 5 None Disassembler_new))) 9 = Some l'
          \<and> lbl_type l' = DATA_LBL \<and> set (references l') = {3} \<and> isEqu l')"
proof -
  let ?s = "setFixedCodeLabel 5 None Disassembler_new"
  have c: "labelsConsistent ?s" by (intro consistent_setFixedCodeLabel consistent_new)
  have a: "getAttributeAt ?s x = {}" for x
    by (simp add: setFixedCodeLabel_def Let_def getAttributeAt_def Disassembler_new_def)
  have l: "labels ?s = [(5, (DisLabel_new CODE_LBL)\<lparr>isEqu := True, isFixed := True\<rparr>)]"
    by (simp add: setFixedCodeLabel_def Let_def getAttributeAt_def Disassembler_new_def
        DisLabel_new_def)
  have ty: "lbl_type l' = lbl_type r" "isEqu l' = isEqu r"
    if "l'\<lparr>references := x\<rparr> = r" for l' r :: DisLabel and x
    using arg_cong [OF that, of lbl_type] arg_cong [OF that, of isEqu] by simp_all
  from setFoundLabel_sets_label [OF c, of "{}" 5 "[3, 5, 7]" CODE_SUB]
  obtain l1 where l1: "map_of (labels (setFoundLabel 5 [3, 5, 7] CODE_SUB {} ?s)) 5 = Some l1"
    "l1\<lparr>references := []\<rparr> = (DisLabel_new CODE_LBL)\<lparr>isEqu := True, isFixed := True, lbl_type := CODE_SUB\<rparr>"
    "set (references l1) = {3, 5, 7} - {5}"
    by (auto simp: a l DisLabel_new_def getAttributeAt_new)
  have d: "{3, 5, 7 :: int} - {5} = {3, 7}" by auto
  from setFoundLabel_sets_label [OF c, of "{}" 9 "[3]" DATA_LBL]
  obtain l2 where l2: "map_of (labels (setFoundLabel 9 [3] DATA_LBL {} ?s)) 9 = Some l2"
    "l2\<lparr>references := []\<rparr> = (DisLabel_new DATA_LBL)\<lparr>isEqu := True\<rparr>"
    "set (references l2) = {3}"
    by (auto simp: a l DisLabel_new_def getAttributeAt_new)
  from ty [OF l1(2)] ty [OF l2(2)] l1(1,3) l2(1,3) c a d show ?thesis
    by (simp add: DisLabel_new_def getAttributeAt_new)
qed

end
